(* ===== verification/Mles_Prelude.thy ===== *)
theory Mles_Prelude
  imports Main "HOL-Library.Word" "HOL-Library.AList"
begin

text \<open>
  Shared vocabulary of the development: machine integers at the widths the server uses,
  byte strings, time, Rust's \<^verbatim>\<open>HashMap\<close> as an association list with distinct keys, and the
  generic list facts the components share.

  A Rust \<^verbatim>\<open>String\<close> is its UTF-8 byte sequence, so it is a \<^typ>\<open>string\<close> (one \<^typ>\<open>char\<close> per byte).
  A \<^verbatim>\<open>Vec<u8>\<close> is a list of 8-bit words. A \<^verbatim>\<open>SystemTime\<close> is a signed number of nanoseconds
  relative to the UNIX epoch.
\<close>

section \<open>Machine types\<close>

type_synonym u8 = "8 word"
type_synonym u16 = "16 word"
type_synonym u32 = "32 word"
type_synonym u64 = "64 word"
type_synonym usize = "64 word"
type_synonym bytes = "8 word list"
type_synonym system_time = int

lemma unat_add_fits: "unat a + unat b < 2 ^ 64 \<Longrightarrow> unat (a + b) = unat a + unat b" for a b :: usize
  by (simp add: unat_word_ariths)

lemma unat_usize_less: "unat (a :: usize) < 2 ^ 64"
  using unsigned_less [of a] by simp

lemma unat_inc: "c < m \<Longrightarrow> unat (c + 1) = unat c + 1" for c m :: usize
  using unat_usize_less [of m] by (subst unat_add_fits) (simp_all add: word_less_nat_alt)

lemma unat_widen: "unat (ucast (n :: u32) :: usize) = unat n"
proof -
  have "unat n < 2 ^ 32" using unsigned_less [of n] by simp
  then show ?thesis by (simp add: unsigned_ucast_eq take_bit_nat_eq_self)
qed

lemma unat_dec: "0 < c \<Longrightarrow> unat (c - 1) = unat c - 1" for c :: usize
  by (simp add: unat_sub word_le_nat_alt word_less_nat_alt)

named_theorems hm_simps \<open>equations of the hash-map operations\<close>
named_theorems str_simps \<open>equations of the string operations\<close>

section \<open>Hash maps\<close>

text \<open>
  \<^verbatim>\<open>std::collections::HashMap\<close>: an association list with distinct keys. The position of an
  entry stands for the (unspecified) iteration order; no property of the development depends
  on it.
\<close>

type_synonym ('k, 'v) hmap = "('k \<times> 'v) list"

definition hm_wf :: "('k, 'v) hmap \<Rightarrow> bool" where
  "hm_wf m \<longleftrightarrow> distinct (map fst m)"

definition hm_get :: "('k, 'v) hmap \<Rightarrow> 'k \<Rightarrow> 'v option" where
  "hm_get m k = map_of m k"

definition hm_insert :: "'k \<Rightarrow> 'v \<Rightarrow> ('k, 'v) hmap \<Rightarrow> ('k, 'v) hmap" where
  "hm_insert k v m = AList.update k v m"

definition hm_remove :: "'k \<Rightarrow> ('k, 'v) hmap \<Rightarrow> ('k, 'v) hmap" where
  "hm_remove k m = AList.delete k m"

definition hm_retain :: "('k \<Rightarrow> 'v \<Rightarrow> bool) \<Rightarrow> ('k, 'v) hmap \<Rightarrow> ('k, 'v) hmap" where
  "hm_retain P m = filter (\<lambda>(k, v). P k v) m"

definition hm_contains :: "('k, 'v) hmap \<Rightarrow> 'k \<Rightarrow> bool" where
  "hm_contains m k \<longleftrightarrow> hm_get m k \<noteq> None"

definition hm_is_empty :: "('k, 'v) hmap \<Rightarrow> bool" where
  "hm_is_empty m \<longleftrightarrow> m = []"

lemma hm_wf_Nil [simp]: "hm_wf []"
  by (simp add: hm_wf_def)

lemma hm_get_Nil [simp]: "hm_get [] k = None"
  by (simp add: hm_get_def)

lemma hm_get_insert [hm_simps]: "hm_get (hm_insert k v m) k' = (if k' = k then Some v else hm_get m k')"
  by (simp add: hm_get_def hm_insert_def update_conv)

lemma hm_get_remove [hm_simps]: "hm_get (hm_remove k m) k' = (if k' = k then None else hm_get m k')"
  by (simp add: hm_get_def hm_remove_def delete_conv)

lemma hm_wf_insert [simp, intro]: "hm_wf m \<Longrightarrow> hm_wf (hm_insert k v m)"
  by (simp add: hm_wf_def hm_insert_def distinct_update)

lemma hm_wf_remove [simp, intro]: "hm_wf m \<Longrightarrow> hm_wf (hm_remove k m)"
  by (simp add: hm_wf_def hm_remove_def distinct_delete)

lemma hm_wf_retain [simp, intro]: "hm_wf m \<Longrightarrow> hm_wf (hm_retain P m)"
  by (auto simp: hm_wf_def hm_retain_def distinct_map intro: inj_on_subset)

lemma hm_get_retain [hm_simps]:
  "hm_wf m \<Longrightarrow>
   hm_get (hm_retain P m) k =
     (case hm_get m k of None \<Rightarrow> None | Some v \<Rightarrow> if P k v then Some v else None)"
  unfolding hm_wf_def hm_get_def hm_retain_def
  by (induction m) (force split: option.splits if_splits dest: map_of_SomeD)+

lemma hm_get_set: "hm_wf m \<Longrightarrow> hm_get m k = Some v \<longleftrightarrow> (k, v) \<in> set m"
  by (simp add: hm_wf_def hm_get_def)

lemma hm_insert_not_empty [simp]: "\<not> hm_is_empty (hm_insert k v m)"
  by (cases m) (auto simp: hm_is_empty_def hm_insert_def)

lemma hm_is_empty_get: "hm_is_empty m \<longleftrightarrow> (\<forall>k. hm_get m k = None)"
  by (cases m) (auto simp: hm_is_empty_def hm_get_def)

text \<open>
  What a client of a hash map relies on. The operations are the locale's parameters; the
  facts a client needs (framing, overwriting, a removed key) are proved once.
\<close>

locale hash_map =
  fixes get :: "'m \<Rightarrow> 'k \<Rightarrow> 'v option"
    and put :: "'k \<Rightarrow> 'v \<Rightarrow> 'm \<Rightarrow> 'm"
    and del :: "'k \<Rightarrow> 'm \<Rightarrow> 'm"
    and wf :: "'m \<Rightarrow> bool"
  assumes get_put: "get (put k v m) k' = (if k' = k then Some v else get m k')"
    and get_del: "get (del k m) k' = (if k' = k then None else get m k')"
    and wf_put: "wf m \<Longrightarrow> wf (put k v m)"
    and wf_del: "wf m \<Longrightarrow> wf (del k m)"
begin

lemma get_put_same: "get (put k v m) k = Some v"
  by (simp add: get_put)

lemma get_put_other: "k' \<noteq> k \<Longrightarrow> get (put k v m) k' = get m k'"
  by (simp add: get_put)

lemma get_del_other: "k' \<noteq> k \<Longrightarrow> get (del k m) k' = get m k'"
  by (simp add: get_del)

lemma dom_put: "dom (get (put k v m)) = insert k (dom (get m))"
  by (auto simp: get_put split: if_splits)

lemma dom_del: "dom (get (del k m)) = dom (get m) - {k}"
  by (auto simp: get_del split: if_splits)

end

interpretation hm: hash_map hm_get hm_insert hm_remove hm_wf
  by unfold_locales (auto simp: hm_simps)

section \<open>The last elements of a list\<close>

definition take_last :: "nat \<Rightarrow> 'a list \<Rightarrow> 'a list" where
  "take_last n xs = drop (length xs - n) xs"

lemma length_take_last [simp]: "length (take_last n xs) = min n (length xs)"
  by (simp add: take_last_def)

lemma take_last_all [simp]: "length xs \<le> n \<Longrightarrow> take_last n xs = xs"
  by (simp add: take_last_def)

lemma take_last_snoc:
  "0 < n \<Longrightarrow>
   take_last n (xs @ [x]) =
     (if length (take_last n xs) = n then tl (take_last n xs) else take_last n xs) @ [x]"
  by (auto simp: take_last_def tl_drop Suc_diff_le drop_Suc min_def)

lemma set_take_last: "set (take_last n xs) \<subseteq> set xs"
  by (simp add: take_last_def set_drop_subset)

end
