(* ===== verification/Rust_Str.thy ===== *)
theory Rust_Str
  imports Mles_Prelude "HOL-Library.Sublist"
begin

text \<open>
  The operations of Rust's standard library on strings that the server uses, on UTF-8 byte
  strings: searching, splitting, joining, trimming Unicode white space, printing numbers, and
  \<^verbatim>\<open>u64::from_str_radix(_, 16)\<close> with its error cases.
\<close>

section \<open>Searching and splitting\<close>

definition is_ascii :: "string \<Rightarrow> bool" where
  "is_ascii s \<longleftrightarrow> list_all (\<lambda>c. of_char c < (128 :: nat)) s"

fun str_contains :: "string \<Rightarrow> string \<Rightarrow> bool" where
  "str_contains [] p \<longleftrightarrow> p = []"
| "str_contains (c # s) p \<longleftrightarrow> prefix p (c # s) \<or> str_contains s p"

lemma str_contains_iff: "str_contains s p \<longleftrightarrow> (\<exists>a b. s = a @ p @ b)"
proof (induction s)
  case (Cons c s)
  have "(\<exists>a b. c # s = a @ p @ b) \<longleftrightarrow> prefix p (c # s) \<or> (\<exists>a b. s = a @ p @ b)"
    by (auto simp: prefix_def Cons_eq_append_conv)
  with Cons.IH show ?case by simp
qed simp

text \<open>\<^verbatim>\<open>s.split(c)\<close>: the pieces between the separators, empty ones included.\<close>

fun str_split :: "char \<Rightarrow> string \<Rightarrow> string list" where
  "str_split c [] = [[]]"
| "str_split c (x # xs) =
     (if x = c then [] # str_split c xs
      else (case str_split c xs of [] \<Rightarrow> [[x]] | p # ps \<Rightarrow> (x # p) # ps))"

text \<open>\<^verbatim>\<open>s.rsplit(c).next()\<close>: the piece after the last separator; it always exists.\<close>

definition rsplit_first :: "char \<Rightarrow> string \<Rightarrow> string" where
  "rsplit_first c s = last (str_split c s)"

text \<open>\<^verbatim>\<open>s.splitn(2, c)\<close>: the piece before the first separator, and what follows it.\<close>

fun splitn2 :: "char \<Rightarrow> string \<Rightarrow> string \<times> string option" where
  "splitn2 c [] = ([], None)"
| "splitn2 c (x # xs) =
     (if x = c then ([], Some xs) else (case splitn2 c xs of (p, r) \<Rightarrow> (x # p, r)))"

text \<open>\<^verbatim>\<open>pieces.join(sep)\<close>.\<close>

fun str_join :: "string \<Rightarrow> string list \<Rightarrow> string" where
  "str_join sep [] = []"
| "str_join sep [p] = p"
| "str_join sep (p # q # ps) = p @ sep @ str_join sep (q # ps)"

lemma str_split_not_Nil [simp]: "str_split c s \<noteq> []"
  by (cases s) (auto split: list.splits)

lemma str_split_no_sep: "c \<notin> set s \<Longrightarrow> str_split c s = [s]"
  by (induction s) auto

lemma str_split_append_sep: "str_split c (s @ c # t) = str_split c s @ str_split c t"
  by (induction s) (auto split: list.splits)

lemma str_split_piece: "p \<in> set (str_split c s) \<Longrightarrow> c \<notin> set p"
  by (induction s arbitrary: p) (auto split: list.splits if_splits)

lemma last_split_append_sep: "c \<notin> set t \<Longrightarrow> last (str_split c (s @ c # t)) = t"
  by (simp add: str_split_append_sep str_split_no_sep)

lemma str_join_split: "str_join [c] (str_split c s) = s"
proof (induction s)
  case (Cons x xs)
  obtain p ps where "str_split c xs = p # ps"
    by (cases "str_split c xs") auto
  with Cons.IH show ?case by (cases ps) auto
qed simp

lemma str_join_snoc: "ps \<noteq> [] \<Longrightarrow> str_join sep (ps @ [q]) = str_join sep ps @ sep @ q"
  by (induction sep ps rule: str_join.induct) auto

lemma set_str_join: "set (str_join sep ps) \<subseteq> set sep \<union> (\<Union>p \<in> set ps. set p)"
  by (induction sep ps rule: str_join.induct) auto

lemma splitn2_no_sep: "c \<notin> set s \<Longrightarrow> splitn2 c s = (s, None)"
  by (induction s) auto

lemma splitn2_sep: "c \<notin> set p \<Longrightarrow> splitn2 c (p @ c # r) = (p, Some r)"
  by (induction p) auto

lemma splitn2_None_iff: "snd (splitn2 c s) = None \<longleftrightarrow> c \<notin> set s"
  by (induction s) (auto split: prod.splits)

section \<open>Trimming\<close>

text \<open>
  \<^verbatim>\<open>str::trim\<close> removes characters with the Unicode property White\_Space at both ends. On
  UTF-8 these are the ASCII bytes 9--13 and 32, two two-byte sequences (U+0085, U+00A0) and
  the three-byte sequences below. \<open>ws_front\<close> gives the length of the white-space character
  at the front of a byte sequence (0 if there is none), \<open>ws_back\<close> the same for the front of
  a reversed sequence.
\<close>

definition ascii_ws :: "nat \<Rightarrow> bool" where
  "ascii_ws b \<longleftrightarrow> 9 \<le> b \<and> b \<le> 13 \<or> b = 32"

definition wide_ws :: "nat \<Rightarrow> nat \<Rightarrow> nat \<Rightarrow> bool" where
  "wide_ws b c d \<longleftrightarrow>
     b = 0xE1 \<and> c = 0x9A \<and> d = 0x80 \<or>
     b = 0xE2 \<and> c = 0x80 \<and> (0x80 \<le> d \<and> d \<le> 0x8A \<or> d = 0xA8 \<or> d = 0xA9 \<or> d = 0xAF) \<or>
     b = 0xE2 \<and> c = 0x81 \<and> d = 0x9F \<or>
     b = 0xE3 \<and> c = 0x80 \<and> d = 0x80"

fun ws_front :: "nat list \<Rightarrow> nat" where
  "ws_front [] = 0"
| "ws_front (b # bs) =
     (if ascii_ws b then 1
      else (case bs of
              [] \<Rightarrow> 0
            | c # cs \<Rightarrow>
                if b = 0xC2 \<and> (c = 0x85 \<or> c = 0xA0) then 2
                else (case cs of [] \<Rightarrow> 0 | d # _ \<Rightarrow> if wide_ws b c d then 3 else 0)))"

fun ws_back :: "nat list \<Rightarrow> nat" where
  "ws_back [] = 0"
| "ws_back (b # bs) =
     (if ascii_ws b then 1
      else (case bs of
              [] \<Rightarrow> 0
            | c # cs \<Rightarrow>
                if c = 0xC2 \<and> (b = 0x85 \<or> b = 0xA0) then 2
                else (case cs of [] \<Rightarrow> 0 | d # _ \<Rightarrow> if wide_ws d c b then 3 else 0)))"

function trim_by :: "(nat list \<Rightarrow> nat) \<Rightarrow> string \<Rightarrow> string" where
  "trim_by f s =
     (if s \<noteq> [] \<and> 0 < f (map of_char s) then trim_by f (drop (f (map of_char s)) s) else s)"
  by pat_completeness auto
termination
  by (relation "measure (\<lambda>(f, s). length s)") auto

declare trim_by.simps [simp del]

definition str_trim :: "string \<Rightarrow> string" where
  "str_trim s = rev (trim_by ws_back (rev (trim_by ws_front s)))"

lemma trim_by_stop: "s = [] \<or> f (map of_char s) = 0 \<Longrightarrow> trim_by f s = s"
  by (subst trim_by.simps) auto

text \<open>A byte of a visible ASCII character, with which no white space starts or ends.\<close>

definition visible :: "char \<Rightarrow> bool" where
  "visible c \<longleftrightarrow> 33 \<le> (of_char c :: nat) \<and> (of_char c :: nat) < 127"

lemma ws_visible:
  assumes "visible c"
  shows "ws_front (of_char c # bs) = 0" and "ws_back (of_char c # bs) = 0"
  using assms
  by (auto simp: visible_def ascii_ws_def wide_ws_def split: list.splits)

lemma str_trim_visible_ends:
  assumes "visible (hd s)" and "visible (last s)" and "s \<noteq> []"
  shows "str_trim s = s"
proof -
  obtain c cs where s: "s = c # cs" using assms(3) by (cases s) auto
  have front: "trim_by ws_front s = s"
    using assms(1) by (intro trim_by_stop) (simp add: s ws_visible del: ws_front.simps)
  obtain d ds where r: "rev s = d # ds" using assms(3) by (cases "rev s") auto
  then have "d = last s" by (metis last_rev list.sel(1) rev_rev_ident assms(3) rev_is_Nil_conv)
  with assms(2) have "trim_by ws_back (rev s) = rev s"
    by (intro trim_by_stop) (simp add: r ws_visible del: ws_back.simps)
  with front show ?thesis by (simp add: str_trim_def)
qed

lemma str_trim_Nil [simp]: "str_trim [] = []"
  by (simp add: str_trim_def trim_by_stop)

lemma str_trim_visible: "list_all visible s \<Longrightarrow> str_trim s = s"
  by (cases "s = []") (auto simp: list_all_iff intro: str_trim_visible_ends)

lemma set_trim_by: "set (trim_by f s) \<subseteq> set s"
proof (induction f s rule: trim_by.induct)
  case (1 f s)
  then show ?case
    by (subst trim_by.simps) (auto dest: in_set_dropD)
qed

lemma set_str_trim: "set (str_trim s) \<subseteq> set s"
  using set_trim_by [of ws_back "rev (trim_by ws_front s)"] set_trim_by [of ws_front s]
  by (auto simp: str_trim_def)

lemma trim_by_done: "trim_by f s = [] \<or> f (map of_char (trim_by f s)) = 0"
proof (induction f s rule: trim_by.induct)
  case (1 f s)
  then show ?case
    by (cases "s \<noteq> [] \<and> 0 < f (map of_char s)") (auto simp: trim_by.simps [of f s])
qed

section \<open>Numbers as text\<close>

definition digit_char :: "nat \<Rightarrow> char" where
  "digit_char d = char_of (if d < 10 then 48 + d else 87 + d)"

text \<open>Printing in a radix (10 for \<^verbatim>\<open>{}\<close>, 16 for \<^verbatim>\<open>{:x}\<close>), most significant digit first.\<close>

fun radix_string :: "nat \<Rightarrow> nat \<Rightarrow> string" where
  "radix_string r n =
     (if r \<le> 1 \<or> n < r then [digit_char n]
      else radix_string r (n div r) @ [digit_char (n mod r)])"

declare radix_string.simps [simp del]

abbreviation dec_string :: "nat \<Rightarrow> string" where
  "dec_string \<equiv> radix_string 10"

abbreviation hex_string :: "nat \<Rightarrow> string" where
  "hex_string \<equiv> radix_string 16"

text \<open>\<^verbatim>\<open>char::to_digit(16)\<close> on a byte.\<close>

definition hex_digit :: "char \<Rightarrow> nat option" where
  "hex_digit c =
     (let b = (of_char c :: nat) in
      if 48 \<le> b \<and> b \<le> 57 then Some (b - 48)
      else if 97 \<le> b \<and> b \<le> 102 then Some (b - 87)
      else if 65 \<le> b \<and> b \<le> 70 then Some (b - 55)
      else None)"

text \<open>
  \<^verbatim>\<open>u64::from_str_radix(s, 16)\<close>: an empty string and a lone sign are errors, one leading
  \<^verbatim>\<open>+\<close> is accepted, any other character (a minus sign included) and an overflow are errors.
\<close>

fun parse_hex_digits :: "nat \<Rightarrow> string \<Rightarrow> nat option" where
  "parse_hex_digits acc [] = Some acc"
| "parse_hex_digits acc (c # cs) =
     (case hex_digit c of
        None \<Rightarrow> None
      | Some d \<Rightarrow>
          if acc * 16 + d < 2 ^ 64 then parse_hex_digits (acc * 16 + d) cs else None)"

definition from_str_radix16 :: "string \<Rightarrow> u64 option" where
  "from_str_radix16 s =
     (case s of
        [] \<Rightarrow> None
      | c # cs \<Rightarrow>
          if cs = [] \<and> (c = CHR ''+'' \<or> c = CHR ''-'') then None
          else map_option of_nat (parse_hex_digits 0 (if c = CHR ''+'' then cs else s)))"

lemma hex_digit_char: "d < 16 \<Longrightarrow> hex_digit (digit_char d) = Some d"
  by (auto simp: hex_digit_def digit_char_def Let_def)

lemma parse_hex_digits_snoc:
  "parse_hex_digits a (s @ [c]) =
     (case parse_hex_digits a s of
        None \<Rightarrow> None
      | Some v \<Rightarrow>
          (case hex_digit c of
             None \<Rightarrow> None
           | Some d \<Rightarrow> if v * 16 + d < 2 ^ 64 then Some (v * 16 + d) else None))"
  by (induction s arbitrary: a) (auto split: option.splits)

lemma parse_hex_string: "n < 2 ^ 64 \<Longrightarrow> parse_hex_digits 0 (hex_string n) = Some n"
proof (induction "16 :: nat" n rule: radix_string.induct)
  case (1 n)
  show ?case
  proof (cases "n < 16")
    case True
    then show ?thesis by (simp add: radix_string.simps [of 16 n] hex_digit_char)
  next
    case False
    with 1 have "parse_hex_digits 0 (hex_string (n div 16)) = Some (n div 16)" by simp
    with False "1.prems" show ?thesis
      by (simp add: radix_string.simps [of 16 n] parse_hex_digits_snoc hex_digit_char)
  qed
qed

lemma radix_string_not_Nil [simp]: "radix_string r n \<noteq> []"
  by (subst radix_string.simps) simp

lemma digit_char_range:
  "d < 36 \<Longrightarrow> 48 \<le> (of_char (digit_char d) :: nat) \<and> (of_char (digit_char d) :: nat) < 123"
  by (auto simp: digit_char_def)

lemma radix_string_chars:
  "1 < r \<Longrightarrow> c \<in> set (radix_string r n) \<Longrightarrow> \<exists>d < r. c = digit_char d"
proof (induction r n rule: radix_string.induct)
  case (1 r n)
  show ?case
  proof (cases "n < r")
    case True
    with 1 show ?thesis by (auto simp: radix_string.simps [of r n])
  next
    case False
    moreover from "1.prems" have "n mod r < r" by simp
    then have "\<exists>d < r. digit_char (n mod r) = digit_char d" by blast
    ultimately show ?thesis
      using 1 by (auto simp: radix_string.simps [of r n])
  qed
qed

lemma hex_string_hd: "hd (hex_string n) \<noteq> CHR ''+'' \<and> hd (hex_string n) \<noteq> CHR ''-''"
proof -
  have "hd (hex_string n) \<in> set (hex_string n)" by simp
  then obtain d where "d < 16" and "hd (hex_string n) = digit_char d"
    using radix_string_chars [of 16 "hd (hex_string n)" n] by auto
  then show ?thesis using digit_char_range [of d] by auto
qed

text \<open>What \<^verbatim>\<open>{:x}\<close> prints, \<^verbatim>\<open>from_str_radix\<close> reads back.\<close>

lemma from_str_radix16_hex: "from_str_radix16 (hex_string (unat w)) = Some w"
proof -
  obtain c cs where s: "hex_string (unat w) = c # cs"
    by (cases "hex_string (unat w)") auto
  then have "c \<noteq> CHR ''+''" and "c \<noteq> CHR ''-''"
    using hex_string_hd [of "unat w"] by auto
  moreover have "parse_hex_digits 0 (c # cs) = Some (unat w)"
    using parse_hex_string [of "unat w"] unsigned_less [of w] by (simp add: s del: parse_hex_digits.simps)
  ultimately show ?thesis
    unfolding from_str_radix16_def s by (simp del: parse_hex_digits.simps)
qed

end
