(* ===== verification/Rust_Net.thy ===== *)
theory Rust_Net
  imports Rust_Str
begin

text \<open>
  The part of \<^verbatim>\<open>std::net\<close> the server uses: addresses, \<^verbatim>\<open>to_canonical\<close>, and how an address is
  printed (\<^verbatim>\<open>Display\<close>): dotted decimal for IPv4; for IPv6 the segments in hexadecimal with the
  longest run of at least two zero segments written as \<^verbatim>\<open>::\<close>, and IPv4-mapped addresses as
  \<^verbatim>\<open>::ffff:a.b.c.d\<close>.
\<close>

datatype ipv4 = Ipv4 u8 u8 u8 u8

datatype ipv6 = Ipv6 u16 u16 u16 u16 u16 u16 u16 u16

datatype ip_addr = V4 ipv4 | V6 ipv6

record socket_addr =
  sa_ip :: ip_addr
  sa_port :: u16

fun segments :: "ipv6 \<Rightarrow> u16 list" where
  "segments (Ipv6 a b c d e f g h) = [a, b, c, d, e, f, g, h]"

text \<open>The high and the low byte of a segment.\<close>

definition hi_byte :: "u16 \<Rightarrow> u8" where
  "hi_byte w = ucast (drop_bit 8 w)"

definition lo_byte :: "u16 \<Rightarrow> u8" where
  "lo_byte w = ucast w"

fun to_ipv4_mapped :: "ipv6 \<Rightarrow> ipv4 option" where
  "to_ipv4_mapped (Ipv6 a b c d e f g h) =
     (if a = 0 \<and> b = 0 \<and> c = 0 \<and> d = 0 \<and> e = 0 \<and> f = 0xffff
      then Some (Ipv4 (hi_byte g) (lo_byte g) (hi_byte h) (lo_byte h)) else None)"

definition ipv6_to_canonical :: "ipv6 \<Rightarrow> ip_addr" where
  "ipv6_to_canonical a = (case to_ipv4_mapped a of Some v4 \<Rightarrow> V4 v4 | None \<Rightarrow> V6 a)"

fun to_canonical :: "ip_addr \<Rightarrow> ip_addr" where
  "to_canonical (V4 a) = V4 a"
| "to_canonical (V6 a) = ipv6_to_canonical a"

definition IPV4_UNSPECIFIED :: ip_addr where
  "IPV4_UNSPECIFIED = V4 (Ipv4 0 0 0 0)"

lemma to_canonical_idem [simp]: "to_canonical (to_canonical a) = to_canonical a"
  by (cases a) (auto simp: ipv6_to_canonical_def split: option.splits)

section \<open>Printing\<close>

fun ipv4_string :: "ipv4 \<Rightarrow> string" where
  "ipv4_string (Ipv4 a b c d) =
     str_join ''.'' (map (\<lambda>b. dec_string (unat b)) [a, b, c, d])"

text \<open>
  The first longest run of zeros as (start, length): the loop over the segments with the
  longest and the current span.
\<close>

fun zero_span :: "nat \<Rightarrow> nat \<times> nat \<Rightarrow> nat \<times> nat \<Rightarrow> u16 list \<Rightarrow> nat \<times> nat" where
  "zero_span i longest current [] = longest"
| "zero_span i longest (start, len) (s # ss) =
     (if s = 0
      then (let cur = (if len = 0 then i else start, Suc len)
            in zero_span (Suc i) (if snd cur > snd longest then cur else longest) cur ss)
      else zero_span (Suc i) longest (0, 0) ss)"

definition fmt_subslice :: "u16 list \<Rightarrow> string" where
  "fmt_subslice ss = str_join '':'' (map (\<lambda>s. hex_string (unat s)) ss)"

definition ipv6_string :: "ipv6 \<Rightarrow> string" where
  "ipv6_string a =
     (case to_ipv4_mapped a of
        Some v4 \<Rightarrow> ''::ffff:'' @ ipv4_string v4
      | None \<Rightarrow>
          (case zero_span 0 (0, 0) (0, 0) (segments a) of
             (start, len) \<Rightarrow>
               if len > 1
               then fmt_subslice (take start (segments a)) @ ''::'' @
                    fmt_subslice (drop (start + len) (segments a))
               else fmt_subslice (segments a)))"

fun ip_string :: "ip_addr \<Rightarrow> string" where
  "ip_string (V4 a) = ipv4_string a"
| "ip_string (V6 a) = ipv6_string a"

text \<open>The characters of a printed address: digits, lower-case letters, dots and colons.\<close>

definition addr_char :: "char \<Rightarrow> bool" where
  "addr_char c \<longleftrightarrow>
     (let b = (of_char c :: nat) in 48 \<le> b \<and> b \<le> 58 \<or> 97 \<le> b \<and> b \<le> 102 \<or> b = 46)"

lemma addr_char_visible: "addr_char c \<Longrightarrow> visible c \<and> c \<noteq> CHR '',''"
  by (auto simp: addr_char_def visible_def Let_def)

lemma addr_char_digit: "d < 16 \<Longrightarrow> addr_char (digit_char d)"
  by (auto simp: addr_char_def digit_char_def Let_def)

lemma addr_char_radix:
  assumes "1 < r" and "r \<le> 16"
  shows "list_all addr_char (radix_string r n)"
proof -
  have "addr_char c" if "c \<in> set (radix_string r n)" for c
    using radix_string_chars [OF assms(1) that] assms(2) addr_char_digit by auto
  then show ?thesis by (simp add: list_all_iff)
qed

lemma list_all_join:
  assumes "list_all P sep" and "list_all (list_all P) ps"
  shows "list_all P (str_join sep ps)"
  using assms by (induction sep ps rule: str_join.induct) auto

lemma addr_char_ipv4: "list_all addr_char (ipv4_string a)"
proof (cases a)
  case (Ipv4 w x y z)
  have "list_all addr_char (str_join ''.'' (map (\<lambda>b. dec_string (unat b)) [w, x, y, z]))"
    by (rule list_all_join) (auto simp: addr_char_radix addr_char_def Let_def)
  with Ipv4 show ?thesis by (simp del: str_join.simps)
qed

lemma addr_char_subslice: "list_all addr_char (fmt_subslice ss)"
  unfolding fmt_subslice_def
  by (rule list_all_join) (auto simp: list_all_iff [of "list_all _"] addr_char_radix addr_char_def Let_def)

lemma addr_char_ipv6: "list_all addr_char (ipv6_string a)"
proof -
  have "list_all addr_char ''::ffff:''" "list_all addr_char ''::''"
    by (simp_all add: addr_char_def)
  then show ?thesis
    using addr_char_ipv4 addr_char_subslice
    by (auto simp: ipv6_string_def split: option.splits prod.splits)
qed

lemma addr_char_ip: "list_all addr_char (ip_string a)"
  by (cases a) (simp_all add: addr_char_ipv4 addr_char_ipv6)

lemma str_join_not_Nil: "ps \<noteq> [] \<Longrightarrow> hd ps \<noteq> [] \<Longrightarrow> str_join sep ps \<noteq> []"
  by (induction sep ps rule: str_join.induct) auto

lemma ip_string_not_Nil [simp]: "ip_string a \<noteq> []"
proof (cases a)
  case (V4 x)
  then show ?thesis by (cases x) (simp add: str_join_not_Nil del: str_join.simps)
next
  case (V6 x)
  have "fmt_subslice (segments x) \<noteq> []"
    by (cases x) (simp add: fmt_subslice_def str_join_not_Nil del: str_join.simps)
  then show ?thesis by (simp add: V6 ipv6_string_def split: option.splits prod.splits)
qed

lemma ip_string_trim [simp]: "str_trim (ip_string a) = ip_string a"
  using addr_char_ip [of a] addr_char_visible by (intro str_trim_visible) (auto simp: list_all_iff)

lemma ip_string_no_comma: "CHR '','' \<notin> set (ip_string a)"
  using addr_char_ip [of a] addr_char_visible by (auto simp: list_all_iff)

end
