(* ===== verification/Ip_Policy.thy ===== *)
theory Ip_Policy
  imports Rust_Net
begin

text \<open>
  The admission of TCP connections (\<^verbatim>\<open>src/src/server.rs\<close>): the key a source is accounted under,
  the per-source cap on concurrent connections (\<^verbatim>\<open>PerIpLimiter\<close>, \<^verbatim>\<open>PerIpPermit\<close>), the policy
  applied to every accepted stream (\<^verbatim>\<open>enforce_ip_policy\<close>), and the two accept loops
  (\<^verbatim>\<open>serve_http\<close>, \<^verbatim>\<open>serve_tls\<close>).

  The arrival-rate check of the governor crate is a parameter of the policy: a function of its
  own state and the key. The semaphore of the tokio crate that bounds the accept loops is a
  parameter with the contract \<^verbatim>\<open>permit_pool\<close>, the same contract the per-source limiter is proved
  to meet.
\<close>

section \<open>Addresses and keys\<close>

text \<open>An accepted stream: its identity, and what \<^verbatim>\<open>peer_addr()\<close> answers (None: it failed).\<close>

record tcp_stream =
  ts_id :: nat
  ts_peer :: "socket_addr option"

definition peer_socket_addr :: "tcp_stream \<Rightarrow> socket_addr option" where
  "peer_socket_addr s =
     (case ts_peer s of
        None \<Rightarrow> None
      | Some addr \<Rightarrow> Some \<lparr>sa_ip = to_canonical (sa_ip addr), sa_port = sa_port addr\<rparr>)"

fun prefix64 :: "ipv6 \<Rightarrow> ipv6" where
  "prefix64 (Ipv6 a b c d e f g h) = Ipv6 a b c d 0 0 0 0"

fun rate_limit_key :: "ip_addr \<Rightarrow> ip_addr" where
  "rate_limit_key (V6 v6) =
     (case ipv6_to_canonical v6 of
        V4 v4 \<Rightarrow> V4 v4
      | V6 v6 \<Rightarrow> V6 (prefix64 v6))"
| "rate_limit_key (V4 v4) = V4 v4"

text \<open>The key of an accepted stream: one shared bucket when the peer is unknown.\<close>

definition stream_key :: "tcp_stream \<Rightarrow> ip_addr" where
  "stream_key s =
     (case peer_socket_addr s of
        Some a \<Rightarrow> rate_limit_key (sa_ip a)
      | None \<Rightarrow> IPV4_UNSPECIFIED)"

section \<open>The per-source limiter\<close>

record per_ip_limiter =
  max_per_key :: usize
  counts :: "(ip_addr, usize) hmap"

text \<open>The \<^verbatim>\<open>NonZeroU32\<close> argument is a word that its constructor keeps from being 0.\<close>

definition limiter_new :: "u32 \<Rightarrow> per_ip_limiter" where
  "limiter_new n = \<lparr>max_per_key = ucast n, counts = []\<rparr>"

definition entry_or_insert :: "('k, 'v) hmap \<Rightarrow> 'k \<Rightarrow> 'v \<Rightarrow> ('k, 'v) hmap \<times> 'v" where
  "entry_or_insert m k v =
     (case hm_get m k of Some c \<Rightarrow> (m, c) | None \<Rightarrow> (hm_insert k v m, v))"

text \<open>The result tells whether a permit for the key was handed out.\<close>

definition try_acquire :: "per_ip_limiter \<Rightarrow> ip_addr \<Rightarrow> per_ip_limiter \<times> bool" where
  "try_acquire l key =
     (case entry_or_insert (counts l) key 0 of
        (m, c) \<Rightarrow>
          if c \<ge> max_per_key l then (l\<lparr>counts := m\<rparr>, False)
          else (l\<lparr>counts := hm_insert key (c + 1) m\<rparr>, True))"

definition saturating_sub :: "'a::len word \<Rightarrow> 'a word \<Rightarrow> 'a word" where
  "saturating_sub a b = (if b \<le> a then a - b else 0)"

definition permit_drop :: "per_ip_limiter \<Rightarrow> ip_addr \<Rightarrow> per_ip_limiter" where
  "permit_drop l key =
     (case hm_get (counts l) key of
        None \<Rightarrow> l
      | Some c \<Rightarrow>
          let c = saturating_sub c 1
          in if c = 0 then l\<lparr>counts := hm_remove key (counts l)\<rparr>
             else l\<lparr>counts := hm_insert key c (counts l)\<rparr>)"

section \<open>The policy on one accepted stream\<close>

record permitted_stream =
  ps_inner :: tcp_stream
  ps_permit :: ip_addr
  ps_peer :: "socket_addr option"

record 'g policy_state =
  po_limiter :: per_ip_limiter
  po_rate :: "'g option"

text \<open>
  The closure of \<^verbatim>\<open>filter_map\<close>: an accept error is passed on; a stream over its arrival rate or
  over its cap is dropped (None); any other is wrapped with its permit. \<^verbatim>\<open>check_key\<close> returns the
  limiter's next state and whether the cell conforms; \<^verbatim>\<open>po_rate\<close> is None when no rate limit is
  configured.
\<close>

definition enforce_ip_policy ::
  "('g \<Rightarrow> ip_addr \<Rightarrow> 'g \<times> bool) \<Rightarrow> 'g policy_state \<Rightarrow> 'e + tcp_stream \<Rightarrow>
   'g policy_state \<times> ('e + permitted_stream) option" where
  "enforce_ip_policy check_key st conn =
     (case conn of
        Inl e \<Rightarrow> (st, Some (Inl e))
      | Inr stream \<Rightarrow>
          let peer = peer_socket_addr stream;
              key = stream_key stream;
              (rate, conforms) =
                (case po_rate st of
                   None \<Rightarrow> (None, True)
                 | Some g \<Rightarrow> (case check_key g key of (g', ok) \<Rightarrow> (Some g', ok)));
              st = st\<lparr>po_rate := rate\<rparr>
          in if \<not> conforms then (st, None)
             else (case try_acquire (po_limiter st) key of
                     (l, False) \<Rightarrow> (st\<lparr>po_limiter := l\<rparr>, None)
                   | (l, True) \<Rightarrow>
                       (st\<lparr>po_limiter := l\<rparr>,
                        Some (Inr \<lparr>ps_inner = stream, ps_permit = key, ps_peer = peer\<rparr>))))"

text \<open>
  A history of one listener: streams arrive (or the accept fails), and streams that were
  admitted end. \<^verbatim>\<open>Ends i\<close> drops the \<^verbatim>\<open>i\<close>-th open stream and with it its permit; it is ignored
  when there is no such stream.
\<close>

datatype 'e conn_event = Arrives "'e + tcp_stream" | Ends nat

fun policy_step ::
  "('g \<Rightarrow> ip_addr \<Rightarrow> 'g \<times> bool) \<Rightarrow> 'g policy_state \<times> permitted_stream list \<Rightarrow> 'e conn_event \<Rightarrow>
   'g policy_state \<times> permitted_stream list" where
  "policy_step check_key (st, open) (Arrives conn) =
     (case enforce_ip_policy check_key st conn of
        (st', Some (Inr ps)) \<Rightarrow> (st', open @ [ps])
      | (st', _) \<Rightarrow> (st', open))"
| "policy_step check_key (st, open) (Ends i) =
     (if i < length open
      then (st\<lparr>po_limiter := permit_drop (po_limiter st) (ps_permit (open ! i))\<rparr>,
            take i open @ drop (Suc i) open)
      else (st, open))"

definition policy_run ::
  "('g \<Rightarrow> ip_addr \<Rightarrow> 'g \<times> bool) \<Rightarrow> 'g policy_state \<times> permitted_stream list \<Rightarrow> 'e conn_event list \<Rightarrow>
   'g policy_state \<times> permitted_stream list" where
  "policy_run check_key = foldl (policy_step check_key)"

definition policy_init :: "u32 \<Rightarrow> 'g option \<Rightarrow> 'g policy_state \<times> permitted_stream list" where
  "policy_init n rate =
     (\<lparr>po_limiter = limiter_new n, po_rate = rate\<rparr>, [])"

section \<open>The accept loops\<close>

text \<open>
  A task serving one connection: its stream, and the address that \<^verbatim>\<open>serve_tls\<close> puts on every
  request of the connection (\<^verbatim>\<open>ClientAddr\<close>). A task owns one permit of the semaphore.
\<close>

record conn_task =
  ct_stream :: permitted_stream
  ct_client :: "socket_addr option"

text \<open>\<^verbatim>\<open>acquire_owned().await\<close>: a permit, still waiting, or the semaphore was closed.\<close>

datatype 's sem_result = Granted 's | Waiting | Closed

record 's sem_ops =
  acquire_owned :: "'s \<Rightarrow> 's sem_result"
  sem_release :: "'s \<Rightarrow> 's"

record 's accept_state =
  al_running :: bool
  al_waiting :: "permitted_stream option"
  al_tasks :: "conn_task list"
  al_sem :: 's

definition accept_init :: "'s \<Rightarrow> 's accept_state" where
  "accept_init s = \<lparr>al_running = True, al_waiting = None, al_tasks = [], al_sem = s\<rparr>"

text \<open>
  What can happen around an accept loop: the incoming stream yields an item (or ends), the
  loop's wait for a permit is polled, the \<^verbatim>\<open>i\<close>-th task finishes and drops its permit. The
  incoming stream is only polled while the loop runs and waits for no permit.
\<close>

datatype 'e accept_event = Incoming "('e + permitted_stream) option" | PollPermit | TaskEnds nat

definition serve_http_next ::
  "'s accept_state \<Rightarrow> ('e + permitted_stream) option \<Rightarrow> 's accept_state" where
  "serve_http_next st item =
     (case item of
        Some (Inr stream) \<Rightarrow> st\<lparr>al_waiting := Some stream\<rparr>
      | _ \<Rightarrow> st\<lparr>al_running := False\<rparr>)"

definition serve_tls_next ::
  "'s accept_state \<Rightarrow> ('e + permitted_stream) option \<Rightarrow> 's accept_state" where
  "serve_tls_next st item =
     (case item of
        None \<Rightarrow> st\<lparr>al_running := False\<rparr>
      | Some (Inr stream) \<Rightarrow> st\<lparr>al_waiting := Some stream\<rparr>
      | Some (Inl err) \<Rightarrow> st)"

definition poll_permit ::
  "(permitted_stream \<Rightarrow> conn_task) \<Rightarrow> 's sem_ops \<Rightarrow> 's accept_state \<Rightarrow> 's accept_state" where
  "poll_permit spawn sem st =
     (case al_waiting st of
        None \<Rightarrow> st
      | Some stream \<Rightarrow>
          (case acquire_owned sem (al_sem st) of
             Granted s \<Rightarrow>
               st\<lparr>al_waiting := None, al_tasks := al_tasks st @ [spawn stream], al_sem := s\<rparr>
           | Waiting \<Rightarrow> st
           | Closed \<Rightarrow> st\<lparr>al_waiting := None, al_running := False\<rparr>))"

definition task_ends :: "'s sem_ops \<Rightarrow> 's accept_state \<Rightarrow> nat \<Rightarrow> 's accept_state" where
  "task_ends sem st i =
     (if i < length (al_tasks st)
      then st\<lparr>al_tasks := take i (al_tasks st) @ drop (Suc i) (al_tasks st),
              al_sem := sem_release sem (al_sem st)\<rparr>
      else st)"

definition http_task :: "permitted_stream \<Rightarrow> conn_task" where
  "http_task stream = \<lparr>ct_stream = stream, ct_client = None\<rparr>"

definition tls_task :: "permitted_stream \<Rightarrow> conn_task" where
  "tls_task stream = \<lparr>ct_stream = stream, ct_client = ps_peer stream\<rparr>"

fun serve_http :: "'s sem_ops \<Rightarrow> 's accept_state \<Rightarrow> 'e accept_event \<Rightarrow> 's accept_state" where
  "serve_http sem st (Incoming item) =
     (if al_running st \<and> al_waiting st = None then serve_http_next st item else st)"
| "serve_http sem st PollPermit =
     (if al_running st then poll_permit http_task sem st else st)"
| "serve_http sem st (TaskEnds i) = task_ends sem st i"

fun serve_tls :: "'s sem_ops \<Rightarrow> 's accept_state \<Rightarrow> 'e accept_event \<Rightarrow> 's accept_state" where
  "serve_tls sem st (Incoming item) =
     (if al_running st \<and> al_waiting st = None then serve_tls_next st item else st)"
| "serve_tls sem st PollPermit =
     (if al_running st then poll_permit tls_task sem st else st)"
| "serve_tls sem st (TaskEnds i) = task_ends sem st i"

section \<open>The contract of a pool of permits\<close>

text \<open>
  What the callers of a limiter rely on: a permit is granted exactly while the key holds fewer
  than the cap, a grant adds one and a release takes one away, for that key only. The ledger of
  the permits handed out then agrees with the pool for ever, and no key exceeds the cap.
\<close>

locale permit_pool =
  fixes acquire :: "'s \<Rightarrow> 'k \<Rightarrow> 's \<times> bool"
    and release :: "'s \<Rightarrow> 'k \<Rightarrow> 's"
    and held :: "'s \<Rightarrow> 'k \<Rightarrow> nat"
    and cap :: "'s \<Rightarrow> nat"
    and ok :: "'s \<Rightarrow> bool"
  assumes acquire_grants: "ok s \<Longrightarrow> snd (acquire s k) \<longleftrightarrow> held s k < cap s"
    and held_acquire: "ok s \<Longrightarrow> held (fst (acquire s k)) k' =
                        held s k' + (if k' = k \<and> held s k < cap s then 1 else 0)"
    and held_release: "ok s \<Longrightarrow> 0 < held s k \<Longrightarrow>
                        held (release s k) k' = held s k' - (if k' = k then 1 else 0)"
    and ok_acquire: "ok s \<Longrightarrow> ok (fst (acquire s k))"
    and ok_release: "ok s \<Longrightarrow> ok (release s k)"
    and cap_acquire: "ok s \<Longrightarrow> cap (fst (acquire s k)) = cap s"
    and cap_release: "ok s \<Longrightarrow> cap (release s k) = cap s"
begin

definition accounts :: "'s \<Rightarrow> 'k list \<Rightarrow> bool" where
  "accounts s ks \<longleftrightarrow> ok s \<and> (\<forall>k. held s k = count_list ks k \<and> count_list ks k \<le> cap s)"

lemma accounts_ok: "accounts s ks \<Longrightarrow> ok s"
  by (simp add: accounts_def)

lemma accounts_held: "accounts s ks \<Longrightarrow> held s k = count_list ks k"
  by (simp add: accounts_def)

lemma accounts_le: "accounts s ks \<Longrightarrow> count_list ks k \<le> cap s"
  by (simp add: accounts_def)

lemma accounts_acquire:
  assumes "accounts s ks" and "acquire s k = (s', granted)"
  shows "accounts s' (if granted then ks @ [k] else ks)"
proof -
  have okS: "ok s" and fs: "s' = fst (acquire s k)" and g: "granted = snd (acquire s k)"
    using assms by (simp_all add: accounts_ok)
  have g': "granted \<longleftrightarrow> count_list ks k < cap s"
    using acquire_grants [OF okS, of k] accounts_held [OF assms(1), of k] g by simp
  have "held s' k' = count_list ks k' + (if k' = k \<and> granted then 1 else 0)" for k'
    using held_acquire [OF okS, of k k'] accounts_held [OF assms(1)] g' fs by simp
  moreover have "count_list ks k' + (if k' = k \<and> granted then 1 else 0) \<le> cap s'" for k'
    using accounts_le [OF assms(1), of k'] cap_acquire [OF okS, of k] g' fs by auto
  moreover have "count_list (if granted then ks @ [k] else ks) k' =
      count_list ks k' + (if k' = k \<and> granted then 1 else 0)" for k'
    by simp
  ultimately show ?thesis
    using ok_acquire [OF okS, of k] fs by (simp add: accounts_def)
qed

lemma accounts_release:
  assumes "accounts s (as @ k # bs)"
  shows "accounts (release s k) (as @ bs)"
proof -
  have okS: "ok s" using assms by (rule accounts_ok)
  have "0 < held s k" using accounts_held [OF assms, of k] by simp
  then have "held (release s k) k' = count_list (as @ bs) k'" for k'
    using held_release [OF okS, of k k'] accounts_held [OF assms, of k'] by auto
  moreover have "count_list (as @ bs) k' \<le> cap (release s k)" for k'
    using accounts_le [OF assms, of k'] cap_release [OF okS, of k]
    by (auto split: if_splits)
  ultimately show ?thesis
    using ok_release [OF okS, of k] by (simp add: accounts_def)
qed

end

section \<open>The limiter is a pool of permits\<close>

definition limiter_held :: "per_ip_limiter \<Rightarrow> ip_addr \<Rightarrow> nat" where
  "limiter_held l k = (case hm_get (counts l) k of None \<Rightarrow> 0 | Some c \<Rightarrow> unat c)"

definition limiter_cap :: "per_ip_limiter \<Rightarrow> nat" where
  "limiter_cap l = unat (max_per_key l)"

text \<open>No counter is zero or above the cap, and the cap is not zero.\<close>

definition limiter_ok :: "per_ip_limiter \<Rightarrow> bool" where
  "limiter_ok l \<longleftrightarrow>
     0 < max_per_key l \<and>
     (\<forall>k c. hm_get (counts l) k = Some c \<longrightarrow> 0 < c \<and> c \<le> max_per_key l)"

lemma limiter_ok_count:
  "limiter_ok l \<Longrightarrow> hm_get (counts l) k = Some c \<Longrightarrow> 0 < c \<and> c \<le> max_per_key l"
  by (auto simp: limiter_ok_def)

lemma try_acquire_cases:
  assumes "limiter_ok l"
  obtains (full) c where "hm_get (counts l) k = Some c" "c = max_per_key l"
      "try_acquire l k = (l, False)"
    | (granted) c where "c < max_per_key l" "limiter_held l k = unat c"
      "try_acquire l k = (l\<lparr>counts := hm_insert k (c + 1) (if hm_get (counts l) k = None
         then hm_insert k 0 (counts l) else counts l)\<rparr>, True)"
proof (cases "hm_get (counts l) k")
  case None
  moreover have "0 < max_per_key l" using assms by (simp add: limiter_ok_def)
  ultimately show thesis
    by (intro granted [of 0]) (auto simp: try_acquire_def entry_or_insert_def limiter_held_def)
next
  case (Some c)
  then have "c \<le> max_per_key l" using limiter_ok_count [OF assms] by blast
  then consider "c = max_per_key l" | "c < max_per_key l" by fastforce
  then show thesis
  proof cases
    case 1
    with Some show thesis
      by (intro full [of c]) (simp_all add: try_acquire_def entry_or_insert_def)
  next
    case 2
    with Some show thesis
      by (intro granted [of c]) (simp_all add: try_acquire_def entry_or_insert_def limiter_held_def)
  qed
qed

lemma limiter_ok_new: "0 < n \<Longrightarrow> limiter_ok (limiter_new n)"
  by (simp add: limiter_ok_def limiter_new_def word_less_nat_alt unat_widen)

lemma limiter_ok_acquire: "limiter_ok l \<Longrightarrow> limiter_ok (fst (try_acquire l k))"
  by (rule try_acquire_cases [of l k], assumption, simp)
     (auto simp: limiter_ok_def hm_simps word_less_nat_alt word_le_nat_alt unat_inc split: if_splits)

lemma permit_drop_cases:
  assumes "limiter_ok l" and "hm_get (counts l) k = Some c"
  obtains (last) "unat c = 1" "permit_drop l k = l\<lparr>counts := hm_remove k (counts l)\<rparr>"
    | (more) "1 < unat c" "permit_drop l k = l\<lparr>counts := hm_insert k (c - 1) (counts l)\<rparr>"
proof -
  have c: "0 < c" using limiter_ok_count [OF assms] by simp
  then have sat: "saturating_sub c 1 = c - 1" and pos: "0 < unat c"
    by (simp_all add: saturating_sub_def word_le_nat_alt word_less_nat_alt)
  have zero: "c - 1 = 0 \<longleftrightarrow> unat c = 1"
    using word_unat_eq_iff [of c 1] by simp
  show thesis
  proof (cases "unat c = 1")
    case True
    with assms(2) sat zero show thesis by (intro last) (simp_all add: permit_drop_def)
  next
    case False
    with assms(2) sat zero pos show thesis by (intro more) (simp_all add: permit_drop_def)
  qed
qed

lemma permit_drop_None: "hm_get (counts l) k = None \<Longrightarrow> permit_drop l k = l"
  by (simp add: permit_drop_def)

lemma limiter_ok_drop: "limiter_ok l \<Longrightarrow> limiter_ok (permit_drop l k)"
proof (cases "hm_get (counts l) k")
  case (Some c)
  assume l: "limiter_ok l"
  note c = limiter_ok_count [OF l Some]
  from l Some show ?thesis
  proof (cases rule: permit_drop_cases)
    case last
    with l show ?thesis by (simp add: limiter_ok_def hm_simps)
  next
    case more
    with c have "0 < c - 1 \<and> c - 1 \<le> max_per_key l"
      by (auto simp: word_less_nat_alt word_le_nat_alt unat_dec)
    with l more show ?thesis by (auto simp: limiter_ok_def hm_simps split: if_splits)
  qed
qed (simp add: permit_drop_None)

lemma limiter_held_drop:
  assumes l: "limiter_ok l"
  shows "limiter_held (permit_drop l k) k' = limiter_held l k' - (if k' = k then 1 else 0)"
proof (cases "hm_get (counts l) k")
  case None
  then show ?thesis by (simp add: permit_drop_None limiter_held_def)
next
  case (Some c)
  note c = limiter_ok_count [OF l Some]
  from l Some show ?thesis
    by (cases rule: permit_drop_cases) (use Some c in \<open>auto simp: limiter_held_def hm_simps unat_dec\<close>)
qed

lemma limiter_cap_drop: "limiter_cap (permit_drop l k) = limiter_cap l"
  by (simp add: limiter_cap_def permit_drop_def Let_def split: option.split)

interpretation pl: permit_pool try_acquire permit_drop limiter_held limiter_cap limiter_ok
proof
  fix l k k'
  assume l: "limiter_ok l"
  show "snd (try_acquire l k) \<longleftrightarrow> limiter_held l k < limiter_cap l"
    by (rule try_acquire_cases [OF l, of k])
       (auto simp: limiter_held_def limiter_cap_def word_less_nat_alt)
  show "limiter_held (fst (try_acquire l k)) k' =
        limiter_held l k' + (if k' = k \<and> limiter_held l k < limiter_cap l then 1 else 0)"
    by (rule try_acquire_cases [OF l, of k])
       (auto simp: limiter_held_def limiter_cap_def word_less_nat_alt unat_inc hm_simps)
  show "limiter_cap (fst (try_acquire l k)) = limiter_cap l"
    by (rule try_acquire_cases [OF l, of k]) (simp_all add: limiter_cap_def)
qed (simp_all add: limiter_ok_acquire limiter_ok_drop limiter_held_drop limiter_cap_drop)


section \<open>Keys\<close>

text \<open>Two addresses come from one source: the same IPv4 address, or the same IPv6 /64 prefix.\<close>

fun same_source :: "ip_addr \<Rightarrow> ip_addr \<Rightarrow> bool" where
  "same_source a b =
     (case (to_canonical a, to_canonical b) of
        (V4 x, V4 y) \<Rightarrow> x = y
      | (V6 x, V6 y) \<Rightarrow> take 4 (segments x) = take 4 (segments y)
      | _ \<Rightarrow> False)"

lemma rate_limit_key_canonical:
  "rate_limit_key a = (case to_canonical a of V4 x \<Rightarrow> V4 x | V6 x \<Rightarrow> V6 (prefix64 x))"
  by (cases a) simp_all

lemma prefix64_eq_iff: "prefix64 x = prefix64 y \<longleftrightarrow> take 4 (segments x) = take 4 (segments y)"
  by (cases x, cases y) simp

text \<open>C24: two clients are accounted under one key exactly when they come from one source: the
  same IPv4 address, in whichever of its two forms it arrived, or the same IPv6 /64 prefix.\<close>

theorem rate_limit_key_eq_iff: "rate_limit_key a = rate_limit_key b \<longleftrightarrow> same_source a b"
  by (simp add: rate_limit_key_canonical prefix64_eq_iff split: ip_addr.splits)

section \<open>Accounting\<close>

text \<open>The permits of the open streams.\<close>

definition permits :: "permitted_stream list \<Rightarrow> ip_addr list" where
  "permits open = map ps_permit open"

text \<open>Does the arrival-rate limiter let the stream pass?\<close>

definition conforms :: "('g \<Rightarrow> ip_addr \<Rightarrow> 'g \<times> bool) \<Rightarrow> 'g policy_state \<Rightarrow> tcp_stream \<Rightarrow> bool" where
  "conforms check_key st s =
     (case po_rate st of None \<Rightarrow> True | Some g \<Rightarrow> snd (check_key g (stream_key s)))"

definition admitted_as :: "tcp_stream \<Rightarrow> permitted_stream" where
  "admitted_as s = \<lparr>ps_inner = s, ps_permit = stream_key s, ps_peer = peer_socket_addr s\<rparr>"

definition rate_after :: "('g \<Rightarrow> ip_addr \<Rightarrow> 'g \<times> bool) \<Rightarrow> 'g policy_state \<Rightarrow> tcp_stream \<Rightarrow> 'g option" where
  "rate_after check_key st s =
     (case po_rate st of None \<Rightarrow> None | Some g \<Rightarrow> Some (fst (check_key g (stream_key s))))"

lemma enforce_over_rate:
  "\<not> conforms check_key st s \<Longrightarrow>
   enforce_ip_policy check_key st (Inr s) = (st\<lparr>po_rate := rate_after check_key st s\<rparr>, None)"
  by (cases "po_rate st")
     (simp_all add: enforce_ip_policy_def conforms_def rate_after_def Let_def case_prod_beta)

lemma enforce_conforming:
  "conforms check_key st s \<Longrightarrow> try_acquire (po_limiter st) (stream_key s) = (l, g) \<Longrightarrow>
   enforce_ip_policy check_key st (Inr s) =
     (st\<lparr>po_rate := rate_after check_key st s, po_limiter := l\<rparr>,
      if g then Some (Inr (admitted_as s)) else None)"
  by (cases "po_rate st"; cases g)
     (simp_all add: enforce_ip_policy_def conforms_def rate_after_def admitted_as_def Let_def
        case_prod_beta)

lemma policy_step_arrives:
  "policy_step check_key (st, open) (Arrives (Inr s)) =
     (if conforms check_key st s
      then case try_acquire (po_limiter st) (stream_key s) of
             (l, g) \<Rightarrow> (st\<lparr>po_rate := rate_after check_key st s, po_limiter := l\<rparr>,
                        if g then open @ [admitted_as s] else open)
      else (st\<lparr>po_rate := rate_after check_key st s\<rparr>, open))"
  by (cases "try_acquire (po_limiter st) (stream_key s)")
     (simp add: enforce_over_rate enforce_conforming)

definition policy_accounts :: "nat \<Rightarrow> 'g policy_state \<times> permitted_stream list \<Rightarrow> bool" where
  "policy_accounts n so \<longleftrightarrow>
     pl.accounts (po_limiter (fst so)) (permits (snd so)) \<and> limiter_cap (po_limiter (fst so)) = n"

lemma policy_accounts_arrives:
  assumes "policy_accounts n (st, open)"
  shows "policy_accounts n (policy_step check_key (st, open) (Arrives (Inr s)))"
proof -
  obtain l g where lg: "try_acquire (po_limiter st) (stream_key s) = (l, g)" by fastforce
  have acc: "pl.accounts (po_limiter st) (permits open)"
    using assms by (simp add: policy_accounts_def)
  have "pl.accounts l (if g then permits open @ [stream_key s] else permits open)"
    using pl.accounts_acquire [OF acc lg] .
  moreover have "limiter_cap l = n"
    using pl.cap_acquire [OF pl.accounts_ok [OF acc], of "stream_key s"] assms lg
    by (simp add: policy_accounts_def)
  ultimately show ?thesis
    using assms
    by (cases g)
       (simp_all add: policy_step_arrives policy_accounts_def lg permits_def admitted_as_def
          del: policy_step.simps)
qed

lemma policy_accounts_ends:
  assumes "policy_accounts n (st, open)"
  shows "policy_accounts n (policy_step check_key (st, open) (Ends i))"
proof (cases "i < length open")
  case True
  have "permits open =
        permits (take i open) @ ps_permit (open ! i) # permits (drop (Suc i) open)"
    using id_take_nth_drop [OF True] by (metis list.simps(9) map_append permits_def)
  then have "pl.accounts (permit_drop (po_limiter st) (ps_permit (open ! i)))
      (permits (take i open) @ permits (drop (Suc i) open))"
    using assms pl.accounts_release by (auto simp: policy_accounts_def)
  then show ?thesis
    using assms True by (simp add: policy_accounts_def permits_def limiter_cap_drop)
qed (use assms in simp)

lemma policy_accounts_step:
  assumes "policy_accounts n so"
  shows "policy_accounts n (policy_step check_key so ev)"
proof (cases so; cases ev)
  fix st "open" conn
  assume so: "so = (st, open)" and ev: "ev = Arrives conn"
  show ?thesis
  proof (cases conn)
    case (Inl e)
    with so ev assms show ?thesis by (simp add: enforce_ip_policy_def)
  next
    case (Inr s)
    with so ev assms show ?thesis by (simp only: policy_accounts_arrives)
  qed
qed (use assms policy_accounts_ends in blast)

lemma policy_accounts_run:
  "policy_accounts n so \<Longrightarrow> policy_accounts n (policy_run check_key so evs)"
  by (induction evs arbitrary: so) (simp_all add: policy_run_def policy_accounts_step)

lemma policy_accounts_init: "0 < n \<Longrightarrow> policy_accounts (unat n) (policy_init n rate)"
  using limiter_ok_new [of n]
  by (simp add: policy_accounts_def policy_init_def pl.accounts_def permits_def limiter_held_def
      limiter_cap_def limiter_new_def unat_widen)

lemmas policy_accounts_reachable = policy_accounts_run [OF policy_accounts_init]

lemma limiter_entry_iff_held: "limiter_ok l \<Longrightarrow> hm_get (counts l) k \<noteq> None \<longleftrightarrow> 0 < limiter_held l k"
  using limiter_ok_count [of l k] by (auto simp: limiter_held_def word_less_nat_alt split: option.splits)

text \<open>C25: after any history of arrivals, accept errors and connection ends, the limiter's count
  for every source is the number of its open connections, none exceeds the configured cap, and
  the map holds an entry for exactly the sources with an open connection, so it is empty when
  none is left.\<close>

theorem policy_run_exact:
  assumes "0 < n"
  shows "case policy_run check_key (policy_init n rate) evs of
    (st, open) \<Rightarrow>
      (\<forall>k. limiter_held (po_limiter st) k = count_list (permits open) k \<and>
           count_list (permits open) k \<le> unat n \<and>
           (hm_get (counts (po_limiter st)) k \<noteq> None \<longleftrightarrow> k \<in> set (permits open))) \<and>
      (open = [] \<longrightarrow> counts (po_limiter st) = [])"
proof -
  obtain st "open" where run: "policy_run check_key (policy_init n rate) evs = (st, open)"
    by fastforce
  have acc: "policy_accounts (unat n) (st, open)"
    using policy_accounts_reachable [OF assms, of check_key rate evs] run by simp
  have held: "limiter_held (po_limiter st) k = count_list (permits open) k" for k
    using acc pl.accounts_held by (auto simp: policy_accounts_def)
  have le: "count_list (permits open) k \<le> unat n" for k
    using acc pl.accounts_le [of "po_limiter st" "permits open" k]
    by (simp add: policy_accounts_def)
  have dom: "hm_get (counts (po_limiter st)) k \<noteq> None \<longleftrightarrow> k \<in> set (permits open)" for k
    using acc limiter_entry_iff_held [of "po_limiter st" k] held [of k]
    by (metis count_list_0_iff fst_conv not_gr_zero pl.accounts_ok policy_accounts_def)
  have "counts (po_limiter st) = []" if "open = []"
    using dom that hm_is_empty_get [of "counts (po_limiter st)"]
    by (simp add: permits_def hm_is_empty_def)
  with held le dom show ?thesis by (simp add: run)
qed

text \<open>A client at 81.2.3.4, once in IPv4 and once in IPv4-mapped form.\<close>

definition client_v4 :: tcp_stream where
  "client_v4 = \<lparr>ts_id = 1, ts_peer = Some \<lparr>sa_ip = V4 (Ipv4 81 2 3 4), sa_port = 4000\<rparr>\<rparr>"

definition client_mapped :: tcp_stream where
  "client_mapped =
     \<lparr>ts_id = 2, ts_peer = Some \<lparr>sa_ip = V6 (Ipv6 0 0 0 0 0 0xffff 0x5102 0x0304), sa_port = 4001\<rparr>\<rparr>"

definition no_rate :: "unit \<Rightarrow> ip_addr \<Rightarrow> unit \<times> bool" where
  "no_rate g k = (g, True)"

definition two_arrivals :: "string conn_event list" where
  "two_arrivals = [Arrives (Inr client_v4), Arrives (Inl ''EMFILE''), Arrives (Inr client_mapped)]"

theorem policy_run_exact_witness:
  "0 < (1 :: u32) \<and>
   permits (snd (policy_run no_rate (policy_init 1 None) two_arrivals)) = [V4 (Ipv4 81 2 3 4)] \<and>
   limiter_held (po_limiter (fst (policy_run no_rate (policy_init 1 None) two_arrivals)))
     (V4 (Ipv4 81 2 3 4)) = 1"
proof -
  have p: "permits (snd (policy_run no_rate (policy_init 1 None) two_arrivals)) =
           [V4 (Ipv4 81 2 3 4)]"
    by code_simp
  show ?thesis
    using policy_run_exact [of 1 no_rate None two_arrivals] p
    by (simp split: prod.splits)
qed

text \<open>In every reachable state a stream that arrives is admitted exactly when its arrival
  rate conforms and its source holds fewer connections than the cap; it then carries its
  source's permit and normalised address. A stream that is refused, for either reason, leaves
  the limiter as it was.\<close>

theorem admission_iff:
  assumes "0 < n" and "policy_run check_key (policy_init n rate) evs = (st, open)"
  shows "(conforms check_key st s \<and> count_list (permits open) (stream_key s) < unat n \<longrightarrow>
          snd (policy_step check_key (st, open) (Arrives (Inr s))) = open @ [admitted_as s]) \<and>
         (\<not> (conforms check_key st s \<and> count_list (permits open) (stream_key s) < unat n) \<longrightarrow>
          snd (policy_step check_key (st, open) (Arrives (Inr s))) = open \<and>
          po_limiter (fst (policy_step check_key (st, open) (Arrives (Inr s)))) = po_limiter st)"
proof -
  have acc: "policy_accounts (unat n) (st, open)"
    using policy_accounts_reachable [OF assms(1), of check_key rate evs] assms(2) by simp
  then have okL: "limiter_ok (po_limiter st)" and cap: "limiter_cap (po_limiter st) = unat n"
    and held: "limiter_held (po_limiter st) (stream_key s) = count_list (permits open) (stream_key s)"
    using pl.accounts_ok pl.accounts_held by (auto simp: policy_accounts_def)
  show ?thesis
    by (rule try_acquire_cases [OF okL, of "stream_key s"])
       (use held cap in \<open>auto simp: policy_step_arrives limiter_held_def limiter_cap_def
          word_less_nat_alt simp del: policy_step.simps\<close>)
qed

theorem admission_iff_witness:
  "snd (policy_step no_rate (policy_run no_rate (policy_init 1 None) two_arrivals)
          (Arrives (Inr client_mapped) :: string conn_event)) =
   snd (policy_run no_rate (policy_init 1 None) two_arrivals)"
proof -
  obtain st "open" where run: "policy_run no_rate (policy_init 1 None) two_arrivals = (st, open)"
    by fastforce
  have "permits (snd (policy_run no_rate (policy_init 1 None) two_arrivals)) =
        [stream_key client_mapped]"
    by code_simp
  then have "permits open = [stream_key client_mapped]" by (simp add: run)
  then have "snd (policy_step no_rate (st, open) (Arrives (Inr client_mapped) :: string conn_event)) = open"
    by (intro admission_iff [OF _ run, THEN conjunct2, THEN mp, THEN conjunct1]) simp_all
  then show ?thesis by (simp add: run del: policy_step.simps)
qed

section \<open>The accept loops\<close>

text \<open>
  The semaphore seen as a pool of permits with a single key, and what the loops rely on: it
  meets the contract \<^verbatim>\<open>permit_pool\<close> and, since nothing in the program closes it, a wait for a
  permit never fails.
\<close>

definition sem_acquire :: "'s sem_ops \<Rightarrow> 's \<Rightarrow> unit \<Rightarrow> 's \<times> bool" where
  "sem_acquire sem s u =
     (case acquire_owned sem s of Granted s' \<Rightarrow> (s', True) | _ \<Rightarrow> (s, False))"

definition sem_contract ::
  "'s sem_ops \<Rightarrow> ('s \<Rightarrow> unit \<Rightarrow> nat) \<Rightarrow> ('s \<Rightarrow> nat) \<Rightarrow> ('s \<Rightarrow> bool) \<Rightarrow> bool" where
  "sem_contract sem held cap ok \<longleftrightarrow>
     permit_pool (sem_acquire sem) (\<lambda>s u. sem_release sem s) held cap ok \<and>
     (\<forall>s. acquire_owned sem s \<noteq> Closed)"

definition sem_accounts ::
  "('s \<Rightarrow> unit \<Rightarrow> nat) \<Rightarrow> ('s \<Rightarrow> nat) \<Rightarrow> ('s \<Rightarrow> bool) \<Rightarrow> nat \<Rightarrow> 's accept_state \<Rightarrow> bool" where
  "sem_accounts held cap ok n st \<longleftrightarrow>
     ok (al_sem st) \<and> held (al_sem st) () = length (al_tasks st) \<and>
     length (al_tasks st) \<le> n \<and> cap (al_sem st) = n"

lemma sem_acquire_Granted:
  "acquire_owned sem s = Granted s' \<Longrightarrow> sem_acquire sem s () = (s', True)"
  by (simp add: sem_acquire_def)

lemma poll_permit_accounts:
  assumes "sem_contract sem held cap ok" and "sem_accounts held cap ok n st"
  shows "sem_accounts held cap ok n (poll_permit spawn sem st) \<and>
         al_running (poll_permit spawn sem st) = al_running st"
proof (cases "al_waiting st")
  case None
  with assms show ?thesis by (simp add: poll_permit_def)
next
  case (Some c)
  have pool: "permit_pool (sem_acquire sem) (\<lambda>s u. sem_release sem s) held cap ok"
    and nc: "acquire_owned sem (al_sem st) \<noteq> Closed"
    using assms(1) by (auto simp: sem_contract_def)
  have okS: "ok (al_sem st)" using assms(2) by (simp add: sem_accounts_def)
  show ?thesis
  proof (cases "acquire_owned sem (al_sem st)")
    case (Granted s')
    note acq = sem_acquire_Granted [OF Granted]
    show ?thesis
      using permit_pool.ok_acquire [OF pool okS, of "()"] permit_pool.cap_acquire [OF pool okS, of "()"]
        permit_pool.held_acquire [OF pool okS, of "()" "()"]
        permit_pool.acquire_grants [OF pool okS, of "()"] assms(2) Some Granted acq
      by (simp add: poll_permit_def sem_accounts_def)
  qed (use Some nc assms in \<open>simp_all add: poll_permit_def\<close>)
qed

lemma task_ends_accounts:
  assumes "sem_contract sem held cap ok" and "sem_accounts held cap ok n st"
  shows "sem_accounts held cap ok n (task_ends sem st i) \<and>
         al_running (task_ends sem st i) = al_running st"
proof (cases "i < length (al_tasks st)")
  case True
  have pool: "permit_pool (sem_acquire sem) (\<lambda>s u. sem_release sem s) held cap ok"
    using assms(1) by (simp add: sem_contract_def)
  have okS: "ok (al_sem st)" and pos: "0 < held (al_sem st) ()"
    using assms(2) True by (auto simp: sem_accounts_def)
  show ?thesis
    using permit_pool.ok_release [OF pool okS] permit_pool.cap_release [OF pool okS]
      permit_pool.held_release [OF pool okS pos, of "()"] assms(2) True
    by (auto simp: task_ends_def sem_accounts_def)
qed (use assms in \<open>simp add: task_ends_def\<close>)

text \<open>A stream of items that does not end: the listener never closes.\<close>

fun no_end :: "'e accept_event \<Rightarrow> bool" where
  "no_end (Incoming None) \<longleftrightarrow> False"
| "no_end _ \<longleftrightarrow> True"

lemma serve_tls_accounts:
  assumes "sem_contract sem held cap ok" and "sem_accounts held cap ok n st" and "no_end ev"
  shows "sem_accounts held cap ok n (serve_tls sem st ev) \<and>
         al_running (serve_tls sem st ev) = al_running st"
proof (cases ev)
  case (Incoming item)
  with assms show ?thesis
    by (cases item) (auto simp: serve_tls_next_def sem_accounts_def split: sum.splits)
next
  case PollPermit
  with assms poll_permit_accounts [OF assms(1,2), of tls_task] show ?thesis by simp
next
  case (TaskEnds i)
  with task_ends_accounts [OF assms(1,2), of i] show ?thesis by simp
qed

lemma serve_tls_run_accounts:
  assumes "sem_contract sem held cap ok"
  shows "sem_accounts held cap ok n st \<Longrightarrow> list_all no_end evs \<Longrightarrow>
         sem_accounts held cap ok n (foldl (serve_tls sem) st evs) \<and>
         al_running (foldl (serve_tls sem) st evs) = al_running st"
  by (induction evs arbitrary: st) (use serve_tls_accounts [OF assms] in auto)

lemma poll_permit_grants:
  assumes "sem_contract sem held cap ok" and "sem_accounts held cap ok n st"
    and "al_waiting st = Some c" and "length (al_tasks st) < n"
  shows "al_tasks (poll_permit spawn sem st) = al_tasks st @ [spawn c]"
proof -
  have pool: "permit_pool (sem_acquire sem) (\<lambda>s u. sem_release sem s) held cap ok"
    using assms(1) by (simp add: sem_contract_def)
  have "snd (sem_acquire sem (al_sem st) ())"
    using permit_pool.acquire_grants [OF pool, of "al_sem st" "()"] assms(2,4)
    by (simp add: sem_accounts_def)
  then obtain s' where "acquire_owned sem (al_sem st) = Granted s'"
    by (auto simp: sem_acquire_def split: sem_result.splits)
  with assms(3) show ?thesis by (simp add: poll_permit_def)
qed

text \<open>With a semaphore of \<^verbatim>\<open>filelimit\<close> permits that meets its contract, the TLS accept loop
  survives every failed connection, never serves more than \<^verbatim>\<open>filelimit\<close> connections at a time,
  and gives a stream that waits its task, with the client's normalised address attached, as soon
  as fewer are served.\<close>

theorem serve_tls_bounded:
  assumes "sem_contract sem held cap ok" and "ok s0" and "held s0 () = 0" and "cap s0 = filelimit"
    and "list_all no_end evs"
  shows "al_running (foldl (serve_tls sem) (accept_init s0) evs) \<and>
         length (al_tasks (foldl (serve_tls sem) (accept_init s0) evs)) \<le> filelimit \<and>
         (\<forall>c. al_waiting (foldl (serve_tls sem) (accept_init s0) evs) = Some c \<and>
              length (al_tasks (foldl (serve_tls sem) (accept_init s0) evs)) < filelimit \<longrightarrow>
              al_tasks (foldl (serve_tls sem) (accept_init s0) (evs @ [PollPermit])) =
              al_tasks (foldl (serve_tls sem) (accept_init s0) evs) @
                [\<lparr>ct_stream = c, ct_client = ps_peer c\<rparr>])"
proof -
  have "sem_accounts held cap ok filelimit (accept_init s0)"
    using assms by (simp add: sem_accounts_def accept_init_def)
  note inv = serve_tls_run_accounts [OF assms(1) this assms(5)]
  have run: "al_running (foldl (serve_tls sem) (accept_init s0) evs)"
    using inv by (simp add: accept_init_def)
  have "al_tasks (foldl (serve_tls sem) (accept_init s0) (evs @ [PollPermit])) =
        al_tasks (foldl (serve_tls sem) (accept_init s0) evs) @ [tls_task c]"
    if "al_waiting (foldl (serve_tls sem) (accept_init s0) evs) = Some c"
      "length (al_tasks (foldl (serve_tls sem) (accept_init s0) evs)) < filelimit" for c
    using poll_permit_grants [OF assms(1) inv [THEN conjunct1] that] run by simp
  with inv run show ?thesis by (simp add: sem_accounts_def tls_task_def)
qed

text \<open>The counting semaphore: permits held and permits in all.\<close>

definition count_sem :: "(nat \<times> nat) sem_ops" where
  "count_sem =
     \<lparr>acquire_owned = (\<lambda>(h, n). if h < n then Granted (Suc h, n) else Waiting),
      sem_release = (\<lambda>(h, n). (h - 1, n))\<rparr>"

interpretation cs: permit_pool "sem_acquire count_sem" "\<lambda>s u. sem_release count_sem s"
  "\<lambda>s u. fst s" snd "\<lambda>s. True"
  by unfold_locales (auto simp: sem_acquire_def count_sem_def split: if_splits)

lemma count_sem_contract: "sem_contract count_sem (\<lambda>s u. fst s) snd (\<lambda>s. True)"
  using cs.permit_pool_axioms by (auto simp: sem_contract_def count_sem_def)

theorem serve_tls_bounded_witness:
  "al_tasks (foldl (serve_tls count_sem) (accept_init (0, 1))
     [Incoming (Some (Inl ''handshake'')), Incoming (Some (Inr (admitted_as client_mapped))), PollPermit]) =
   [\<lparr>ct_stream = admitted_as client_mapped,
     ct_client = Some \<lparr>sa_ip = V4 (Ipv4 81 2 3 4), sa_port = 4001\<rparr>\<rparr>]"
proof -
  let ?evs = "[Incoming (Some (Inl ''handshake'')), Incoming (Some (Inr (admitted_as client_mapped)))]"
  have st: "foldl (serve_tls count_sem) (accept_init (0, 1)) ?evs =
      (accept_init (0, 1))\<lparr>al_waiting := Some (admitted_as client_mapped)\<rparr>"
    by (simp add: accept_init_def serve_tls_next_def)
  have "ps_peer (admitted_as client_mapped) = Some \<lparr>sa_ip = V4 (Ipv4 81 2 3 4), sa_port = 4001\<rparr>"
    by code_simp
  then show ?thesis
    using serve_tls_bounded [OF count_sem_contract, of "(0, 1)" 1 ?evs] st
    by (simp add: accept_init_def)
qed

text \<open>C26: the redirect server stops at the first failed accept. The error passes the policy
  unchanged and ends the accept loop: whatever happens afterwards, no connection is served that
  was not served before.\<close>

theorem serve_http_stops_at_error:
  assumes "al_running st" and "al_waiting st = None"
  shows "\<not> al_running (foldl (serve_http sem) st
            (Incoming (snd (enforce_ip_policy check_key po (Inl e))) # evs)) \<and>
         set (al_tasks (foldl (serve_http sem) st
            (Incoming (snd (enforce_ip_policy check_key po (Inl e))) # evs))) \<subseteq> set (al_tasks st)"
proof -
  have dead: "\<not> al_running (foldl (serve_http sem) t evs) \<and>
              set (al_tasks (foldl (serve_http sem) t evs)) \<subseteq> set (al_tasks t)"
    if "\<not> al_running t" for t
    using that
  proof (induction evs arbitrary: t)
    case (Cons ev evs)
    have "\<not> al_running (serve_http sem t ev) \<and> set (al_tasks (serve_http sem t ev)) \<subseteq> set (al_tasks t)"
      using Cons.prems set_take_subset [of _ "al_tasks t"] set_drop_subset [of _ "al_tasks t"]
      by (cases ev) (simp_all add: task_ends_def)
    with Cons.IH [of "serve_http sem t ev"] show ?case by auto
  qed simp
  show ?thesis
    using assms dead [of "st\<lparr>al_running := False\<rparr>"]
    by (simp add: enforce_ip_policy_def serve_http_next_def)
qed

theorem serve_http_stops_at_error_witness:
  "al_tasks (foldl (serve_http count_sem) (accept_init (0, 8))
     (Incoming (snd (enforce_ip_policy no_rate (fst (policy_init 1 None)) (Inl ''ECONNABORTED''))) #
      [Incoming (Some (Inr (admitted_as client_v4))), PollPermit])) = []"
  using serve_http_stops_at_error [of "accept_init (0, 8)" count_sem no_rate
      "fst (policy_init 1 None)" "''ECONNABORTED''"
      "[Incoming (Some (Inr (admitted_as client_v4))), PollPermit]"]
  by (simp add: accept_init_def)

end
