(* ===== verification/Mles_Auth.thy ===== *)
theory Mles_Auth
  imports Rust_Str
begin

unbundle bit_operations_syntax

text \<open>
  The first frame of a session (\<^verbatim>\<open>types.rs\<close>: \<^verbatim>\<open>MlesHeader\<close>) and its authentication
  (\<^verbatim>\<open>auth.rs\<close>: \<^verbatim>\<open>verify_auth\<close>). The hash function is the \<^verbatim>\<open>siphasher\<close> crate: a record of
  operations that every definition takes as an argument, with what the code relies on in the
  locale \<open>sip_hasher\<close>. The published SipHash-2-4 algorithm is the instance that shows the
  laws can hold.
\<close>

section \<open>The header\<close>

record mles_header =
  uid :: string
  channel :: string
  auth :: "string option"

section \<open>The hasher\<close>

record 'h sip_ops =
  sip_new :: 'h
  sip_write :: "'h \<Rightarrow> string \<Rightarrow> 'h"
  sip_finish :: "'h \<Rightarrow> u64"
  sip_hash :: "'h \<Rightarrow> string \<Rightarrow> u64"

text \<open>
  \<^verbatim>\<open>#[derive(Hash)]\<close>: the fields in order. A string is its bytes and the byte \<^verbatim>\<open>0xff\<close>; an
  option is its discriminant as a machine word, then the content.
\<close>

definition hash_str :: "'h sip_ops \<Rightarrow> 'h \<Rightarrow> string \<Rightarrow> 'h" where
  "hash_str sip st s = sip_write sip (sip_write sip st s) [CHR 0xFF]"

definition discriminant_bytes :: "bool \<Rightarrow> string" where
  "discriminant_bytes some = (if some then CHR 0x01 else CHR 0x00) # replicate 7 (CHR 0x00)"

definition hash_option_str :: "'h sip_ops \<Rightarrow> 'h \<Rightarrow> string option \<Rightarrow> 'h" where
  "hash_option_str sip st a =
     (case a of
        None \<Rightarrow> sip_write sip st (discriminant_bytes False)
      | Some s \<Rightarrow> hash_str sip (sip_write sip st (discriminant_bytes True)) s)"

definition hash_header :: "'h sip_ops \<Rightarrow> mles_header \<Rightarrow> u64" where
  "hash_header sip hdr =
     sip_finish sip
       (hash_option_str sip
         (hash_str sip (hash_str sip (sip_new sip) (uid hdr)) (channel hdr)) (auth hdr))"

definition hash_channel :: "'h sip_ops \<Rightarrow> mles_header \<Rightarrow> u64" where
  "hash_channel sip hdr = sip_hash sip (sip_new sip) (channel hdr)"

section \<open>Authentication\<close>

text \<open>\<open>mles_key\<close> is the value of the environment variable \<^verbatim>\<open>MLES_KEY\<close>, if it is set.\<close>

definition verify_auth ::
  "'h sip_ops \<Rightarrow> string option \<Rightarrow> string \<Rightarrow> string \<Rightarrow> string option \<Rightarrow> bool" where
  "verify_auth sip mles_key u c a =
     (let hasher = sip_new sip;
          hasher = sip_write sip hasher u;
          hasher = sip_write sip hasher c
      in case mles_key of
           Some key \<Rightarrow>
             (case a of
                Some tok \<Rightarrow>
                  (let hasher = sip_write sip hasher key;
                       hash = sip_finish sip hasher;
                       auth_hash = (case from_str_radix16 tok of Some v \<Rightarrow> v | None \<Rightarrow> 0)
                   in hash = auth_hash)
              | None \<Rightarrow> False)
         | None \<Rightarrow>
             (case a of
                Some tok \<Rightarrow>
                  (let hash = sip_finish sip hasher;
                       auth_hash = (case from_str_radix16 tok of Some v \<Rightarrow> v | None \<Rightarrow> 0)
                   in hash = auth_hash)
              | None \<Rightarrow> True))"

section \<open>The laws of the hasher\<close>

text \<open>
  \<^verbatim>\<open>siphasher::sip::SipHasher\<close> hashes the stream of bytes written to it: consecutive writes
  are one write of the concatenation, and the one-shot \<^verbatim>\<open>hash\<close> is a write and a finish.
\<close>

locale sip_hasher =
  fixes sip :: "'h sip_ops"
  assumes write_write: "sip_write sip (sip_write sip st a) b = sip_write sip st (a @ b)"
    and hash_eq: "sip_hash sip st a = sip_finish sip (sip_write sip st a)"
begin

text \<open>The value a token must carry: the digest of uid, channel and (if set) the key.\<close>

lemma verify_auth_digest:
  "verify_auth sip mles_key u c a \<longleftrightarrow>
     (case a of
        None \<Rightarrow> mles_key = None
      | Some tok \<Rightarrow>
          sip_hash sip (sip_new sip) (u @ c @ (case mles_key of None \<Rightarrow> [] | Some k \<Rightarrow> k)) =
            (case from_str_radix16 tok of Some v \<Rightarrow> v | None \<Rightarrow> 0))"
  by (simp add: verify_auth_def Let_def write_write hash_eq split: option.splits)

lemma verify_auth_concat:
  assumes "u @ c = u' @ c'"
  shows "verify_auth sip mles_key u c a = verify_auth sip mles_key u' c' a"
proof -
  from assms have eq: "u @ c @ k = u' @ c' @ k" for k by (metis append.assoc)
  show ?thesis by (simp only: verify_auth_digest eq)
qed

end

section \<open>What the session hash covers\<close>

text \<open>The bytes the derived \<^verbatim>\<open>Hash\<close> writes for a header.\<close>

definition header_bytes :: "mles_header \<Rightarrow> string" where
  "header_bytes hdr =
     uid hdr @ [CHR 0xFF] @ channel hdr @ [CHR 0xFF] @
     (case auth hdr of
        None \<Rightarrow> discriminant_bytes False
      | Some a \<Rightarrow> discriminant_bytes True @ a @ [CHR 0xFF])"

context sip_hasher
begin

lemma hash_header_bytes: "hash_header sip hdr = sip_hash sip (sip_new sip) (header_bytes hdr)"
  by (simp add: hash_header_def hash_option_str_def hash_str_def header_bytes_def write_write
      hash_eq split: option.splits)

end

lemma append_sep_inj:
  "x \<notin> set a \<Longrightarrow> x \<notin> set b \<Longrightarrow> a @ x # r = b @ x # s \<longleftrightarrow> a = b \<and> r = s"
proof (induction a arbitrary: b)
  case Nil
  then show ?case by (cases b) auto
next
  case (Cons y a)
  then show ?case by (cases b) auto
qed

lemma discriminant_bytes_inj: "discriminant_bytes b @ r = discriminant_bytes b' @ s \<longleftrightarrow> b = b' \<and> r = s"
  by (auto simp: discriminant_bytes_def)

text \<open>UTF-8 text never holds the byte \<^verbatim>\<open>0xff\<close>.\<close>

definition utf8_header :: "mles_header \<Rightarrow> bool" where
  "utf8_header hdr \<longleftrightarrow>
     CHR 0xFF \<notin> set (uid hdr) \<and> CHR 0xFF \<notin> set (channel hdr) \<and>
     (case auth hdr of None \<Rightarrow> True | Some a \<Rightarrow> CHR 0xFF \<notin> set a)"

lemma header_bytes_inj:
  assumes "utf8_header x" and "utf8_header y" and "header_bytes x = header_bytes y"
  shows "x = y"
proof -
  let ?tail = "\<lambda>h. case auth h of None \<Rightarrow> discriminant_bytes False
                   | Some a \<Rightarrow> discriminant_bytes True @ a @ [CHR 0xFF]"
  have "uid x = uid y" "channel x = channel y" "?tail x = ?tail y"
    using assms by (auto simp: header_bytes_def utf8_header_def append_sep_inj)
  moreover have "auth x = auth y"
  proof (cases "auth x")
    case None
    with \<open>?tail x = ?tail y\<close> show ?thesis
      using discriminant_bytes_inj [of False "[]"] by (auto split: option.splits)
  next
    case (Some a)
    with \<open>?tail x = ?tail y\<close> show ?thesis
      using discriminant_bytes_inj [of True "a @ [CHR 0xFF]" False "[]"]
        discriminant_bytes_inj [of True "a @ [CHR 0xFF]" True]
      by (auto split: option.splits)
  qed
  ultimately show ?thesis by simp
qed

section \<open>SipHash-2-4\<close>

text \<open>
  The published algorithm, on the bytes written so far, with the zero keys of
  \<^verbatim>\<open>SipHasher::new()\<close>.
\<close>

type_synonym sip_state = "u64 \<times> u64 \<times> u64 \<times> u64"

fun sip_round :: "sip_state \<Rightarrow> sip_state" where
  "sip_round (v0, v1, v2, v3) =
     (let v0 = v0 + v1; v2 = v2 + v3;
          v1 = word_rotl 13 v1 XOR v0; v3 = word_rotl 16 v3 XOR v2;
          v0 = word_rotl 32 v0;
          v2 = v2 + v1; v0 = v0 + v3;
          v1 = word_rotl 17 v1 XOR v2; v3 = word_rotl 21 v3 XOR v0;
          v2 = word_rotl 32 v2
      in (v0, v1, v2, v3))"

fun sip_compress :: "sip_state \<Rightarrow> u64 \<Rightarrow> sip_state" where
  "sip_compress (v0, v1, v2, v3) m =
     (case sip_round (sip_round (v0, v1, v2, v3 XOR m)) of
        (w0, w1, w2, w3) \<Rightarrow> (w0 XOR m, w1, w2, w3))"

fun le_word :: "string \<Rightarrow> u64" where
  "le_word [] = 0"
| "le_word (c # cs) = of_char c OR push_bit 8 (le_word cs)"

function sip_absorb :: "sip_state \<Rightarrow> nat \<Rightarrow> string \<Rightarrow> sip_state" where
  "sip_absorb st n bs =
     (if length bs < 8 then sip_compress st (push_bit 56 (of_nat n) OR le_word bs)
      else sip_absorb (sip_compress st (le_word (take 8 bs))) n (drop 8 bs))"
  by pat_completeness auto
termination
  by (relation "measure (\<lambda>(st, n, bs). length bs)") auto

declare sip_absorb.simps [simp del]

definition siphash24 :: "u64 \<Rightarrow> u64 \<Rightarrow> string \<Rightarrow> u64" where
  "siphash24 k0 k1 bs =
     (case sip_absorb (k0 XOR 0x736f6d6570736575, k1 XOR 0x646f72616e646f6d,
                       k0 XOR 0x6c7967656e657261, k1 XOR 0x7465646279746573) (length bs) bs of
        (v0, v1, v2, v3) \<Rightarrow>
          (case (sip_round ^^ 4) (v0, v1, v2 XOR 0xff, v3) of
             (w0, w1, w2, w3) \<Rightarrow> w0 XOR w1 XOR w2 XOR w3))"

definition siphash_ops :: "string sip_ops" where
  "siphash_ops =
     \<lparr>sip_new = [], sip_write = (\<lambda>st bs. st @ bs), sip_finish = siphash24 0 0,
      sip_hash = (\<lambda>st bs. siphash24 0 0 (st @ bs))\<rparr>"

interpretation sh: sip_hasher siphash_ops
  by unfold_locales (simp_all add: siphash_ops_def)

section \<open>Properties\<close>

lemma from_str_radix16_zero:
  assumes "t \<noteq> []" and "hd t \<noteq> CHR ''+''"
  shows "from_str_radix16 (CHR ''0'' # t) = from_str_radix16 t"
proof -
  obtain c cs where t: "t = c # cs" using assms(1) by (cases t) auto
  have "parse_hex_digits 0 (CHR ''-'' # cs) = None"
    by (simp add: hex_digit_def)
  then show ?thesis
    using assms(2) by (auto simp: from_str_radix16_def t hex_digit_def simp del: parse_hex_digits.simps(2))
       (simp_all add: hex_digit_def)
qed

text \<open>
  C20: authentication decides by one digest. Without a token a session is accepted exactly
  when no key is configured; with a token it is accepted exactly when the token, read as a
  hexadecimal number (0 if it is not one), is the SipHash of uid, channel and key.
\<close>

theorem verify_auth_iff:
  assumes "sip_hasher sip"
  shows "verify_auth sip mles_key u c a \<longleftrightarrow>
     (case a of
        None \<Rightarrow> mles_key = None
      | Some tok \<Rightarrow>
          sip_hash sip (sip_new sip) (u @ c @ (case mles_key of None \<Rightarrow> [] | Some k \<Rightarrow> k)) =
            (case from_str_radix16 tok of Some v \<Rightarrow> v | None \<Rightarrow> 0))"
  using assms by (rule sip_hasher.verify_auth_digest)

theorem verify_auth_iff_witness:
  "sip_hasher siphash_ops \<and> \<not> verify_auth siphash_ops (Some ''key'') ''alice'' ''room'' None \<and>
   (verify_auth siphash_ops (Some ''key'') ''alice'' ''room'' (Some ''1f'') \<longleftrightarrow> siphash24 0 0 ''aliceroomkey'' = 31)"
proof -
  have "from_str_radix16 ''1f'' = Some 31" by (simp add: from_str_radix16_def hex_digit_def)
  then show ?thesis
    using verify_auth_iff [OF sh.sip_hasher_axioms, of "Some ''key''" "''alice''" "''room''" None]
      verify_auth_iff [OF sh.sip_hasher_axioms, of "Some ''key''" "''alice''" "''room''" "Some ''1f''"]
      sh.sip_hasher_axioms by (simp add: siphash_ops_def)
qed

text \<open>
  C21: the token a client computes is accepted: the lower-case hexadecimal digest of uid,
  channel and key passes, for every uid, channel and key.
\<close>

theorem verify_auth_accepts_token:
  assumes "sip_hasher sip"
  shows "verify_auth sip (Some k) u c
           (Some (hex_string (unat (sip_hash sip (sip_new sip) (u @ c @ k)))))"
  by (simp add: sip_hasher.verify_auth_digest [OF assms] from_str_radix16_hex)

theorem verify_auth_accepts_token_witness:
  "verify_auth siphash_ops (Some ''key'') ''alice'' ''room''
     (Some (hex_string (unat (siphash24 0 0 (''alice'' @ ''room'' @ ''key'')))))"
  using verify_auth_accepts_token [OF sh.sip_hasher_axioms, of "''key''" "''alice''" "''room''"]
  by (simp add: siphash_ops_def)

text \<open>C22: the digest does not separate uid from channel: a token is good for every pair with the
  same concatenation, so a token issued for one channel opens another.
\<close>

theorem verify_auth_splits_alike:
  assumes "sip_hasher sip" and "u @ c = u' @ c'"
  shows "verify_auth sip mles_key u c a = verify_auth sip mles_key u' c' a"
  using assms by (rule sip_hasher.verify_auth_concat)

theorem verify_auth_splits_alike_witness:
  "verify_auth siphash_ops (Some ''key'') ''alice'' ''room'' (Some ''1f'') =
   verify_auth siphash_ops (Some ''key'') ''alicer'' ''oom'' (Some ''1f'')"
  using verify_auth_splits_alike [OF sh.sip_hasher_axioms,
      of "''alice''" "''room''" "''alicer''" "''oom''"] by simp

text \<open>
  The session hash \<open>h\<close> is the SipHash of an unambiguous encoding of the whole header:
  distinct headers (as UTF-8 text) have distinct encodings.
\<close>

theorem hash_header_unambiguous:
  assumes "sip_hasher sip" and "utf8_header x" and "utf8_header y"
  shows "hash_header sip x = sip_hash sip (sip_new sip) (header_bytes x) \<and>
         (header_bytes x = header_bytes y \<longleftrightarrow> x = y)"
  using assms by (auto simp: sip_hasher.hash_header_bytes intro: header_bytes_inj)

theorem hash_header_unambiguous_witness:
  "header_bytes \<lparr>uid = ''ab'', channel = ''c'', auth = None\<rparr> \<noteq>
   header_bytes \<lparr>uid = ''a'', channel = ''bc'', auth = None\<rparr>"
  using hash_header_unambiguous [OF sh.sip_hasher_axioms,
      of "\<lparr>uid = ''ab'', channel = ''c'', auth = None\<rparr>"
         "\<lparr>uid = ''a'', channel = ''bc'', auth = None\<rparr>"]
  by (simp add: utf8_header_def)

text \<open>
  One (uid, channel) pair can hold several sessions: a token stays valid with a leading
  zero, and the two headers are hashed from different bytes.
\<close>

theorem token_spelling_splits_session:
  assumes "sip_hasher sip" and "t \<noteq> []" and "hd t \<noteq> CHR ''+''"
    and "verify_auth sip mles_key u c (Some t)"
  shows "verify_auth sip mles_key u c (Some (CHR ''0'' # t)) \<and>
         header_bytes \<lparr>uid = u, channel = c, auth = Some t\<rparr> \<noteq>
         header_bytes \<lparr>uid = u, channel = c, auth = Some (CHR ''0'' # t)\<rparr>"
  using assms(2-4)
  by (auto simp: sip_hasher.verify_auth_digest [OF assms(1)] from_str_radix16_zero header_bytes_def)

theorem token_spelling_splits_session_witness:
  "verify_auth siphash_ops (Some ''k'') ''a'' ''b''
     (Some (CHR ''0'' # hex_string (unat (siphash24 0 0 ''abk''))))"
proof -
  have "verify_auth siphash_ops (Some ''k'') ''a'' ''b''
          (Some (hex_string (unat (siphash24 0 0 ''abk''))))"
    by (simp add: sh.verify_auth_digest from_str_radix16_hex) (simp add: siphash_ops_def)
  then show ?thesis
    using token_spelling_splits_session [OF sh.sip_hasher_axioms, of "hex_string (unat (siphash24 0 0 ''abk''))"]
      hex_string_hd by simp
qed

end
