(* ===== verification/Event_Loop.thy ===== *)
theory Event_Loop
  imports Mles_Prelude "HOL-Library.Multiset"
begin

text \<open>
  The publish-subscribe hub (\<^verbatim>\<open>websocket.rs\<close>: \<^verbatim>\<open>add_message\<close> and \<^verbatim>\<open>spawn_event_loop\<close>;
  \<^verbatim>\<open>types.rs\<close>: \<^verbatim>\<open>ChannelInfo\<close>, \<^verbatim>\<open>WsEvent\<close>). One task owns the two maps and handles one
  event, or one tick of the cleanup timer, at a time; what it sends is the output of the step.
  Messages are any type; a sender is the identity of a connection's outgoing queue and a
  oneshot that of its confirmation channel. The times the code reads from the clock are
  arguments of the step.
\<close>

section \<open>The history queue\<close>

text \<open>
  \<^verbatim>\<open>VecDeque\<close>: its items and its capacity. \<open>grow cap need\<close> is the capacity the allocator
  chooses when at least \<open>need\<close> is wanted.
\<close>

record 'm vec_deque =
  vd_items :: "'m list"
  vd_cap :: nat

definition vd_new :: "'m vec_deque" where
  "vd_new = \<lparr>vd_items = [], vd_cap = 0\<rparr>"

definition vd_reserve :: "(nat \<Rightarrow> nat \<Rightarrow> nat) \<Rightarrow> nat \<Rightarrow> 'm vec_deque \<Rightarrow> 'm vec_deque" where
  "vd_reserve grow additional q =
     (let need = length (vd_items q) + additional
      in if vd_cap q < need then q\<lparr>vd_cap := grow (vd_cap q) need\<rparr> else q)"

definition vd_pop_front :: "'m vec_deque \<Rightarrow> 'm vec_deque" where
  "vd_pop_front q = q\<lparr>vd_items := tl (vd_items q)\<rparr>"

definition vd_push_back :: "(nat \<Rightarrow> nat \<Rightarrow> nat) \<Rightarrow> 'm \<Rightarrow> 'm vec_deque \<Rightarrow> 'm vec_deque" where
  "vd_push_back grow m q =
     (let q = (if length (vd_items q) = vd_cap q
               then q\<lparr>vd_cap := grow (vd_cap q) (Suc (vd_cap q))\<rparr> else q)
      in q\<lparr>vd_items := vd_items q @ [m]\<rparr>)"

definition add_message ::
  "(nat \<Rightarrow> nat \<Rightarrow> nat) \<Rightarrow> 'm \<Rightarrow> u32 \<Rightarrow> 'm vec_deque \<Rightarrow> 'm vec_deque" where
  "add_message grow msg limit q =
     (let limit = unat limit;
          len = length (vd_items q);
          cap = vd_cap q;
          q = (if cap < limit \<and> len = cap \<and> cap * 2 \<ge> limit
               then vd_reserve grow (limit - vd_cap q) q else q);
          q = (if len = limit then vd_pop_front q else q)
      in vd_push_back grow msg q)"

section \<open>Events and state\<close>

type_synonym sender = nat
type_synonym oneshot = nat

datatype 'm ws_event =
    Init u64 u64 sender oneshot 'm
  | Msg u64 u64 'm
  | Logoff u64 u64

record 'm channel_info =
  ci_messages :: "'m vec_deque"
  ci_last_activity :: system_time

record 'm loop_state =
  msg_db :: "(u64, 'm channel_info) hmap"
  ch_db :: "(u64, (u64, sender) hmap) hmap"

record loop_cfg =
  cfg_limit :: u32
  cfg_grow :: "nat \<Rightarrow> nat \<Rightarrow> nat"

text \<open>
  What a step emits: a message into a connection's queue, the confirmation of an \<^verbatim>\<open>Init\<close>, or
  the drop of its confirmation channel. The results of the sends are only logged.
\<close>

datatype 'm loop_out =
    SendMsg sender 'm
  | Confirm oneshot u64
  | DropErr oneshot

definition loop_init :: "'m loop_state" where
  "loop_init = \<lparr>msg_db = [], ch_db = []\<rparr>"

section \<open>The handlers\<close>

definition CHANNEL_CLEANUP_DAYS :: int where
  "CHANNEL_CLEANUP_DAYS = 30"

definition cleanup_threshold :: int where
  "cleanup_threshold = CHANNEL_CLEANUP_DAYS * 24 * 60 * 60 * 1000000000"

definition keep_channel :: "system_time \<Rightarrow> 'm channel_info \<Rightarrow> bool" where
  "keep_channel now info \<longleftrightarrow>
     \<not> (ci_last_activity info \<le> now \<and> now - ci_last_activity info > cleanup_threshold)"

definition handle_cleanup :: "system_time \<Rightarrow> 'm loop_state \<Rightarrow> 'm loop_state" where
  "handle_cleanup now s = s\<lparr>msg_db := hm_retain (\<lambda>ch. keep_channel now) (msg_db s)\<rparr>"

definition handle_init ::
  "loop_cfg \<Rightarrow> system_time \<Rightarrow> system_time \<Rightarrow> u64 \<Rightarrow> u64 \<Rightarrow> sender \<Rightarrow> oneshot \<Rightarrow> 'm \<Rightarrow>
   'm loop_state \<Rightarrow> 'm loop_state \<times> 'm loop_out list" where
  "handle_init cfg now1 now2 h ch tx2 err_tx msg s =
     (let chs = (if \<not> hm_contains (ch_db s) ch then hm_insert ch [] (ch_db s) else ch_db s)
      in case hm_get chs ch of
           None \<Rightarrow> (s\<lparr>ch_db := chs\<rparr>, [])
         | Some uid_db \<Rightarrow>
             (case hm_get uid_db h of
                None \<Rightarrow>
                  (let info = (case hm_get (msg_db s) ch of
                                 Some i \<Rightarrow> i
                               | None \<Rightarrow> \<lparr>ci_messages = vd_new, ci_last_activity = now1\<rparr>);
                       outs = Confirm err_tx h # map (SendMsg tx2) (vd_items (ci_messages info));
                       info' = \<lparr>ci_messages =
                                  add_message (cfg_grow cfg) msg (cfg_limit cfg) (ci_messages info),
                                ci_last_activity = now2\<rparr>
                   in (\<lparr>msg_db = hm_insert ch info' (msg_db s),
                        ch_db = hm_insert ch (hm_insert h tx2 uid_db) chs\<rparr>, outs))
              | Some _ \<Rightarrow> (s\<lparr>ch_db := chs\<rparr>, [DropErr err_tx])))"

definition handle_msg ::
  "loop_cfg \<Rightarrow> system_time \<Rightarrow> u64 \<Rightarrow> u64 \<Rightarrow> 'm \<Rightarrow> 'm loop_state \<Rightarrow> 'm loop_state \<times> 'm loop_out list" where
  "handle_msg cfg now h ch msg s =
     (case hm_get (ch_db s) ch of
        None \<Rightarrow> (s, [])
      | Some uid_db \<Rightarrow>
          (let outs = map (\<lambda>(xh, tx). SendMsg tx msg) (filter (\<lambda>(xh, tx). xh \<noteq> h) uid_db)
           in case hm_get (msg_db s) ch of
                None \<Rightarrow> (s, outs)
              | Some info \<Rightarrow>
                  (s\<lparr>msg_db := hm_insert ch
                       \<lparr>ci_messages =
                          add_message (cfg_grow cfg) msg (cfg_limit cfg) (ci_messages info),
                        ci_last_activity = now\<rparr> (msg_db s)\<rparr>, outs)))"

definition handle_logoff :: "u64 \<Rightarrow> u64 \<Rightarrow> 'm loop_state \<Rightarrow> 'm loop_state" where
  "handle_logoff h ch s =
     (case hm_get (ch_db s) ch of
        None \<Rightarrow> s
      | Some uid_db \<Rightarrow>
          (let uid_db' = hm_remove h uid_db
           in if hm_is_empty uid_db' then s\<lparr>ch_db := hm_remove ch (ch_db s)\<rparr>
              else s\<lparr>ch_db := hm_insert ch uid_db' (ch_db s)\<rparr>))"

text \<open>One turn of the loop: the branch of \<^verbatim>\<open>select!\<close> that is ready.\<close>

datatype 'm loop_in =
    Tick system_time
  | Event "'m ws_event" system_time system_time

fun loop_step :: "loop_cfg \<Rightarrow> 'm loop_state \<Rightarrow> 'm loop_in \<Rightarrow> 'm loop_state \<times> 'm loop_out list" where
  "loop_step cfg s (Tick now) = (handle_cleanup now s, [])"
| "loop_step cfg s (Event (Init h ch tx2 err_tx msg) now1 now2) =
     handle_init cfg now1 now2 h ch tx2 err_tx msg s"
| "loop_step cfg s (Event (Msg h ch msg) now1 now2) = handle_msg cfg now1 h ch msg s"
| "loop_step cfg s (Event (Logoff h ch) now1 now2) = (handle_logoff h ch s, [])"

fun loop_run :: "loop_cfg \<Rightarrow> 'm loop_state \<Rightarrow> 'm loop_in list \<Rightarrow> 'm loop_state \<times> 'm loop_out list" where
  "loop_run cfg s [] = (s, [])"
| "loop_run cfg s (i # is) =
     (case loop_step cfg s i of (s1, o1) \<Rightarrow>
        (case loop_run cfg s1 is of (s2, o2) \<Rightarrow> (s2, o1 @ o2)))"

section \<open>Views of the state\<close>

definition members :: "'m loop_state \<Rightarrow> u64 \<Rightarrow> (u64, sender) hmap" where
  "members s ch = (case hm_get (ch_db s) ch of None \<Rightarrow> [] | Some m \<Rightarrow> m)"

definition member :: "'m loop_state \<Rightarrow> u64 \<Rightarrow> u64 \<Rightarrow> sender option" where
  "member s ch h = hm_get (members s ch) h"

definition history :: "'m loop_state \<Rightarrow> u64 \<Rightarrow> 'm list" where
  "history s ch = (case hm_get (msg_db s) ch of None \<Rightarrow> [] | Some i \<Rightarrow> vd_items (ci_messages i))"

fun sent_to :: "sender \<Rightarrow> 'm loop_out list \<Rightarrow> 'm list" where
  "sent_to tx [] = []"
| "sent_to tx (SendMsg tx' m # os) = (if tx' = tx then m # sent_to tx os else sent_to tx os)"
| "sent_to tx (Confirm e h # os) = sent_to tx os"
| "sent_to tx (DropErr e # os) = sent_to tx os"

definition loop_inv :: "loop_cfg \<Rightarrow> 'm loop_state \<Rightarrow> bool" where
  "loop_inv cfg s \<longleftrightarrow>
     hm_wf (msg_db s) \<and> hm_wf (ch_db s) \<and>
     (\<forall>ch m. hm_get (ch_db s) ch = Some m \<longrightarrow> hm_wf m \<and> \<not> hm_is_empty m) \<and>
     (0 < cfg_limit cfg \<longrightarrow> (\<forall>ch. length (history s ch) \<le> unat (cfg_limit cfg)))"

section \<open>Bounded histories\<close>

text \<open>
  The contract of a history queue of size \<open>n\<close>: adding to a full one drops the oldest message.
\<close>

locale bounded_history =
  fixes add :: "'m \<Rightarrow> 'q \<Rightarrow> 'q" and items :: "'q \<Rightarrow> 'm list" and n :: nat
  assumes items_add: "items (add m q) = (if length (items q) = n then tl (items q) else items q) @ [m]"
begin

lemma add_bounded: "0 < n \<Longrightarrow> length (items q) \<le> n \<Longrightarrow> length (items (add m q)) \<le> n"
  by (auto simp: items_add)

lemma add_take_last:
  "0 < n \<Longrightarrow> items q = take_last n ms \<Longrightarrow> items (add m q) = take_last n (ms @ [m])"
  by (simp add: items_add take_last_snoc)

lemma fold_take_last:
  "0 < n \<Longrightarrow> items q = take_last n xs \<Longrightarrow> items (fold add ms q) = take_last n (xs @ ms)"
proof (induction ms arbitrary: q xs)
  case (Cons m ms)
  from Cons.IH [OF Cons.prems(1) add_take_last [OF Cons.prems]] show ?case by simp
qed simp

text \<open>With a limit of zero nothing is ever dropped.\<close>

lemma fold_zero: "n = 0 \<Longrightarrow> items (fold add ms q) = items q @ ms"
  by (induction ms arbitrary: q) (auto simp: items_add)

end

interpretation bh: bounded_history "\<lambda>m. add_message grow m limit" vd_items "unat limit"
  for grow limit
  by unfold_locales
     (auto simp: add_message_def Let_def vd_push_back_def vd_pop_front_def vd_reserve_def)

section \<open>The effect of each handler\<close>

definition push_hist :: "nat \<Rightarrow> 'm list \<Rightarrow> 'm \<Rightarrow> 'm list" where
  "push_hist n xs m = (if length xs = n then tl xs else xs) @ [m]"

lemma add_message_items: "vd_items (add_message grow m limit q) = push_hist (unat limit) (vd_items q) m"
  by (simp add: bh.items_add push_hist_def)

lemma loop_invD:
  assumes "loop_inv cfg s"
  shows "hm_wf (msg_db s)" "hm_wf (ch_db s)" "hm_wf (members s ch)"
    and "hm_get (ch_db s) ch = Some m \<Longrightarrow> \<not> hm_is_empty m"
    and "0 < cfg_limit cfg \<Longrightarrow> length (history s ch) \<le> unat (cfg_limit cfg)"
  using assms by (auto simp: loop_inv_def members_def split: option.splits)

lemma members_insert: "members (s\<lparr>ch_db := hm_insert ch m (ch_db s)\<rparr>) ch' = (if ch' = ch then m else members s ch')"
  by (simp add: members_def hm_simps)

lemma handle_init_dup:
  assumes "member s ch h \<noteq> None"
  shows "handle_init cfg t1 t2 h ch tx e m s = (s, [DropErr e])"
proof -
  obtain u v where "hm_get (ch_db s) ch = Some u" "hm_get u h = Some v"
    using assms by (auto simp: member_def members_def split: option.splits)
  then show ?thesis by (simp add: handle_init_def hm_contains_def)
qed

lemma handle_init_new:
  assumes "member s ch h = None" and "handle_init cfg t1 t2 h ch tx e m s = (s', outs)"
  shows "outs = Confirm e h # map (SendMsg tx) (history s ch)"
    and "members s' ch' = (if ch' = ch then hm_insert h tx (members s ch) else members s ch')"
    and "history s' ch' =
           (if ch' = ch then push_hist (unat (cfg_limit cfg)) (history s ch) m else history s ch')"
    and "hm_get (msg_db s') ch' =
           (if ch' = ch
            then Some \<lparr>ci_messages = add_message (cfg_grow cfg) m (cfg_limit cfg)
                        (case hm_get (msg_db s) ch of None \<Rightarrow> vd_new | Some i \<Rightarrow> ci_messages i),
                       ci_last_activity = t2\<rparr>
            else hm_get (msg_db s) ch')"
    and "ch_db s' = hm_insert ch (hm_insert h tx (members s ch))
           (if hm_contains (ch_db s) ch then ch_db s else hm_insert ch [] (ch_db s))"
    and "\<exists>i. msg_db s' = hm_insert ch i (msg_db s)"
  using assms
  by (auto simp: handle_init_def member_def members_def history_def hm_contains_def hm_simps Let_def
      add_message_items vd_new_def split: option.splits if_splits)

lemma handle_msg_outs:
  "snd (handle_msg cfg t h ch m s) =
     map (\<lambda>(xh, tx). SendMsg tx m) (filter (\<lambda>(xh, tx). xh \<noteq> h) (members s ch))"
  by (simp add: handle_msg_def members_def Let_def split: option.splits)

lemma handle_msg_state:
  assumes "handle_msg cfg t h ch m s = (s', outs)"
  shows "ch_db s' = ch_db s" and "members s' = members s"
    and "hm_get (msg_db s') ch' =
      (if ch' = ch \<and> hm_contains (ch_db s) ch
       then map_option (\<lambda>i. \<lparr>ci_messages = add_message (cfg_grow cfg) m (cfg_limit cfg) (ci_messages i),
                            ci_last_activity = t\<rparr>) (hm_get (msg_db s) ch)
       else hm_get (msg_db s) ch')"
    and "hm_wf (msg_db s) \<Longrightarrow> hm_wf (msg_db s')"
  using assms
  by (auto simp: handle_msg_def Let_def hm_contains_def hm_simps members_def fun_eq_iff
      split: option.splits)

lemma handle_logoff_members:
  "members (handle_logoff h ch s) ch' = (if ch' = ch then hm_remove h (members s ch) else members s ch')"
proof (cases "hm_get (ch_db s) ch")
  case None
  then show ?thesis by (simp add: handle_logoff_def members_def hm_remove_def)
next
  case (Some u)
  then show ?thesis
    by (auto simp: handle_logoff_def members_def hm_simps Let_def hm_is_empty_def)
qed

lemma handle_logoff_msg_db [simp]: "msg_db (handle_logoff h ch s) = msg_db s"
  by (simp add: handle_logoff_def Let_def split: option.splits)

lemma handle_cleanup_state [simp]:
  "ch_db (handle_cleanup now s) = ch_db s"
  "members (handle_cleanup now s) = members s"
  by (simp_all add: handle_cleanup_def members_def fun_eq_iff)

lemma handle_cleanup_get:
  "hm_wf (msg_db s) \<Longrightarrow> hm_get (msg_db (handle_cleanup now s)) ch =
     (case hm_get (msg_db s) ch of
        None \<Rightarrow> None | Some i \<Rightarrow> if keep_channel now i then Some i else None)"
  by (simp add: handle_cleanup_def hm_simps)

section \<open>The invariant\<close>

lemma loop_inv_init: "loop_inv cfg loop_init"
  by (simp add: loop_inv_def loop_init_def history_def)

lemma push_hist_bounded: "0 < n \<Longrightarrow> length xs \<le> n \<Longrightarrow> length (push_hist n xs m) \<le> n"
  by (auto simp: push_hist_def)

lemma limit_pos: "0 < cfg_limit cfg \<longleftrightarrow> 0 < unat (cfg_limit cfg)"
  by (simp add: unat_gt_0 word_neq_0_conv)

lemma inv_handle_init:
  assumes inv: "loop_inv cfg s" and run: "handle_init cfg t1 t2 h ch tx e m s = (s', outs)"
  shows "loop_inv cfg s'"
proof (cases "member s ch h")
  case None
  note new = handle_init_new [OF None run]
  obtain i where msgs: "msg_db s' = hm_insert ch i (msg_db s)" using new(6) by blast
  have "hm_wf (ch_db s')" using loop_invD(2) [OF inv] by (simp add: new(5))
  moreover have "hm_wf u \<and> \<not> hm_is_empty u" if "hm_get (ch_db s') c = Some u" for c u
    using that inv loop_invD(3) [OF inv, of ch]
    by (auto simp: new(5) hm_simps loop_inv_def split: if_splits)
  moreover have "length (history s' c) \<le> unat (cfg_limit cfg)" if "0 < cfg_limit cfg" for c
    using that push_hist_bounded [of "unat (cfg_limit cfg)" "history s ch" m] loop_invD(5) [OF inv]
    by (simp add: new(3) limit_pos)
  ultimately show ?thesis using loop_invD(1) [OF inv] msgs by (simp add: loop_inv_def)
next
  case (Some v)
  with handle_init_dup [of s ch h] run inv show ?thesis by simp
qed

lemma handle_msg_history:
  assumes "handle_msg cfg t h ch m s = (s', outs)"
  shows "history s' ch' =
    (if ch' = ch \<and> hm_contains (ch_db s) ch \<and> hm_contains (msg_db s) ch
     then push_hist (unat (cfg_limit cfg)) (history s ch) m else history s ch')"
  using handle_msg_state(3) [OF assms, of ch']
  by (auto simp: history_def hm_contains_def add_message_items split: option.splits if_splits)

lemma inv_handle_msg:
  assumes inv: "loop_inv cfg s" and run: "handle_msg cfg t h ch m s = (s', outs)"
  shows "loop_inv cfg s'"
proof -
  have "length (history s' c) \<le> unat (cfg_limit cfg)" if "0 < cfg_limit cfg" for c
    using that push_hist_bounded [of "unat (cfg_limit cfg)" "history s ch" m] loop_invD(5) [OF inv]
    by (simp add: handle_msg_history [OF run] limit_pos)
  then show ?thesis
    using inv handle_msg_state [OF run] by (simp add: loop_inv_def)
qed

lemma inv_handle_logoff: "loop_inv cfg s \<Longrightarrow> loop_inv cfg (handle_logoff h ch s)"
  by (auto simp: loop_inv_def handle_logoff_def Let_def hm_simps history_def split: option.splits if_splits)

lemma inv_handle_cleanup:
  assumes "loop_inv cfg s"
  shows "loop_inv cfg (handle_cleanup now s)"
proof -
  note wf = loop_invD(1) [OF assms]
  have "length (history (handle_cleanup now s) ch) \<le> length (history s ch)" for ch
    by (auto simp: history_def handle_cleanup_get [OF wf] split: option.splits)
  moreover have "hm_wf (msg_db (handle_cleanup now s))"
    using wf by (simp add: handle_cleanup_def)
  moreover have "length (history (handle_cleanup now s) ch) \<le> unat (cfg_limit cfg)"
    if "0 < cfg_limit cfg" for ch
    using calculation(1) loop_invD(5) [OF assms that] by (rule le_trans)
  ultimately show ?thesis using assms by (simp add: loop_inv_def)
qed

lemma loop_step_inv: "loop_inv cfg s \<Longrightarrow> loop_inv cfg (fst (loop_step cfg s i))"
  by (induction cfg s i rule: loop_step.induct)
     (auto simp: inv_handle_logoff inv_handle_cleanup
       intro: inv_handle_init [OF _ prod.collapse [symmetric]] inv_handle_msg [OF _ prod.collapse [symmetric]])

lemma loop_run_Cons [simp]:
  "fst (loop_run cfg s (i # is)) = fst (loop_run cfg (fst (loop_step cfg s i)) is)"
  "snd (loop_run cfg s (i # is)) = snd (loop_step cfg s i) @ snd (loop_run cfg (fst (loop_step cfg s i)) is)"
  by (simp_all split: prod.splits)

declare loop_run.simps(2) [simp del]

lemma loop_run_inv: "loop_inv cfg s \<Longrightarrow> loop_inv cfg (fst (loop_run cfg s is))"
  by (induction "is" arbitrary: s) (simp_all add: loop_step_inv)

lemma loop_run_append:
  "fst (loop_run cfg s (xs @ ys)) = fst (loop_run cfg (fst (loop_run cfg s xs)) ys)"
  "snd (loop_run cfg s (xs @ ys)) = snd (loop_run cfg s xs) @ snd (loop_run cfg (fst (loop_run cfg s xs)) ys)"
  by (induction xs arbitrary: s) simp_all

section \<open>What one subscriber sees\<close>

fun live :: "u64 \<Rightarrow> u64 \<Rightarrow> 'm loop_in list \<Rightarrow> 'm list" where
  "live h ch [] = []"
| "live h ch (Event (Msg h' ch' m) t1 t2 # is) =
     (if ch' = ch \<and> h' \<noteq> h then m # live h ch is else live h ch is)"
| "live h ch (_ # is) = live h ch is"

text \<open>The queue \<open>tx\<close> is registered exactly once: for session \<open>h\<close> on channel \<open>ch\<close>.\<close>

definition only_here :: "'m loop_state \<Rightarrow> u64 \<Rightarrow> u64 \<Rightarrow> sender \<Rightarrow> bool" where
  "only_here s ch h tx \<longleftrightarrow>
     member s ch h = Some tx \<and> (\<forall>ch' h'. member s ch' h' = Some tx \<longrightarrow> ch' = ch \<and> h' = h)"

text \<open>Inputs that neither log the session off nor register its queue again.\<close>

fun undisturbed :: "u64 \<Rightarrow> u64 \<Rightarrow> sender \<Rightarrow> 'm loop_in \<Rightarrow> bool" where
  "undisturbed h ch tx (Event (Logoff h' ch') t1 t2) \<longleftrightarrow> \<not> (h' = h \<and> ch' = ch)"
| "undisturbed h ch tx (Event (Init h' ch' tx' e m) t1 t2) \<longleftrightarrow> tx' \<noteq> tx"
| "undisturbed h ch tx _ \<longleftrightarrow> True"

lemma sent_to_append [simp]: "sent_to tx (xs @ ys) = sent_to tx xs @ sent_to tx ys"
  by (induction tx xs rule: sent_to.induct) auto

lemma sent_to_map_SendMsg [simp]: "sent_to tx (map (SendMsg tx') ms) = (if tx' = tx then ms else [])"
  by (induction ms) auto

lemma sent_to_broadcast:
  "sent_to tx (map (\<lambda>(xh, t). SendMsg t m) xs) = replicate (length (filter (\<lambda>(xh, t). t = tx) xs)) m"
  by (induction xs) auto

lemma filter_once:
  assumes "hm_wf xs" and "\<forall>k t. (k, t) \<in> set xs \<longrightarrow> t = tx \<longrightarrow> k = h" and "P h" and "(h, tx) \<in> set xs"
  shows "filter (\<lambda>(k, t). t = tx) (filter (\<lambda>(k, t). P k) xs) = [(h, tx)]"
  using assms
proof (induction xs)
  case (Cons x xs)
  obtain k t where x: "x = (k, t)" by (cases x)
  show ?case
  proof (cases "t = tx")
    case True
    then have "k = h" using Cons.prems(2) by (simp add: x)
    have "h \<notin> fst ` set xs" using Cons.prems(1) \<open>k = h\<close> by (simp add: x hm_wf_def)
    then have "\<forall>k' t'. (k', t') \<in> set xs \<longrightarrow> t' \<noteq> tx"
      using Cons.prems(2) by (metis fst_conv image_eqI list.set_intros(2))
    then have "filter (\<lambda>(k, t). t = tx) (filter (\<lambda>(k, t). P k) xs) = []"
      by (auto simp: filter_empty_conv)
    with True \<open>k = h\<close> Cons.prems(3) show ?thesis by (simp add: x)
  next
    case False
    have wf: "hm_wf xs" using Cons.prems(1) by (simp add: hm_wf_def)
    have uniq: "\<forall>k t. (k, t) \<in> set xs \<longrightarrow> t = tx \<longrightarrow> k = h"
      using Cons.prems(2) by (metis list.set_intros(2))
    have mem: "(h, tx) \<in> set xs" using False Cons.prems(4) by (auto simp: x)
    from Cons.IH [OF wf uniq Cons.prems(3) mem] False show ?thesis by (simp add: x)
  qed
qed simp

lemma filter_none:
  "\<forall>k t. (k, t) \<in> set xs \<longrightarrow> t = tx \<longrightarrow> \<not> P k \<Longrightarrow>
   filter (\<lambda>(k, t). t = tx) (filter (\<lambda>(k, t). P k) xs) = []"
  by (auto simp: filter_empty_conv)

lemma member_handle_init:
  assumes "handle_init cfg t1 t2 h ch tx e m s = (s', outs)"
  shows "member s' c x = (if c = ch \<and> x = h \<and> member s ch h = None then Some tx else member s c x)"
proof (cases "member s ch h")
  case None
  with handle_init_new(2) [OF None assms] show ?thesis by (auto simp: member_def hm_simps)
next
  case (Some v)
  with handle_init_dup [of s ch h] assms show ?thesis by simp
qed

lemma member_handle_logoff:
  "member (handle_logoff h ch s) c x = (if c = ch \<and> x = h then None else member s c x)"
  by (simp add: member_def handle_logoff_members hm_simps)

lemma sent_to_handle_msg:
  assumes inv: "loop_inv cfg s" and only: "only_here s ch h tx"
  shows "sent_to tx (snd (handle_msg cfg t h' ch' m s)) = (if ch' = ch \<and> h' \<noteq> h then [m] else [])"
proof -
  have mem: "(k, v) \<in> set (members s c) \<longleftrightarrow> member s c k = Some v" for c k v
    using hm_get_set [OF loop_invD(3) [OF inv, of c]] by (auto simp: member_def)
  have uniq: "\<forall>k v. (k, v) \<in> set (members s c) \<longrightarrow> v = tx \<longrightarrow> c = ch \<and> k = h" for c
    using only by (auto simp: mem only_here_def)
  show ?thesis
  proof (cases "ch' = ch \<and> h' \<noteq> h")
    case True
    have "filter (\<lambda>(k, v). v = tx) (filter (\<lambda>(k, v). k \<noteq> h') (members s ch)) = [(h, tx)]"
      using True uniq [of ch] only loop_invD(3) [OF inv, of ch]
      by (intro filter_once) (auto simp: mem only_here_def)
    with True show ?thesis by (simp add: handle_msg_outs sent_to_broadcast)
  next
    case False
    then have "filter (\<lambda>(k, v). v = tx) (filter (\<lambda>(k, v). k \<noteq> h') (members s ch')) = []"
      using uniq [of ch'] by (intro filter_none) auto
    with False show ?thesis by (simp add: handle_msg_outs sent_to_broadcast)
  qed
qed

lemma subscriber_step:
  assumes inv: "loop_inv cfg s" and only: "only_here s ch h tx" and i: "undisturbed h ch tx i"
  shows "only_here (fst (loop_step cfg s i)) ch h tx \<and>
         sent_to tx (snd (loop_step cfg s i)) = live h ch [i]"
proof (cases i)
  case (Tick now)
  with only show ?thesis by (simp add: only_here_def member_def)
next
  case (Event ev t1 t2)
  show ?thesis
  proof (cases ev)
    case (Init h' ch' tx' e m)
    obtain s' outs where run: "handle_init cfg t1 t2 h' ch' tx' e m s = (s', outs)"
      by (cases "handle_init cfg t1 t2 h' ch' tx' e m s")
    have "tx' \<noteq> tx" using i Event Init by simp
    then have "sent_to tx outs = []"
      using handle_init_new(1) [OF _ run] handle_init_dup [of s ch' h'] run
      by (cases "member s ch' h'") auto
    moreover have "only_here s' ch h tx"
      using only \<open>tx' \<noteq> tx\<close> by (auto simp: only_here_def member_handle_init [OF run] split: if_splits)
    ultimately show ?thesis using Event Init run by simp
  next
    case (Msg h' ch' m)
    have "member (fst (handle_msg cfg t1 h' ch' m s)) = member s"
      using handle_msg_state(2) [OF prod.collapse [symmetric], of cfg t1 h' ch' m s]
      by (simp add: member_def fun_eq_iff)
    then have "only_here (fst (handle_msg cfg t1 h' ch' m s)) ch h tx"
      using only by (simp add: only_here_def)
    with Event Msg sent_to_handle_msg [OF inv only] show ?thesis by simp
  next
    case (Logoff h' ch')
    with i Event only show ?thesis
      by (auto simp: only_here_def member_handle_logoff)
  qed
qed

lemma live_Cons: "live h ch (i # is) = live h ch [i] @ live h ch is"
proof (cases i)
  case (Event ev t1 t2)
  then show ?thesis by (cases ev) auto
qed simp

lemma subscriber_run:
  assumes "loop_inv cfg s" and "only_here s ch h tx" and "list_all (undisturbed h ch tx) is"
  shows "sent_to tx (snd (loop_run cfg s is)) = live h ch is"
  using assms
proof (induction "is" arbitrary: s)
  case (Cons i "is")
  from Cons.prems(3) have "undisturbed h ch tx i" by simp
  note step = subscriber_step [OF Cons.prems(1,2) this]
  with Cons show ?case by (simp add: live_Cons [of _ _ i "is"] loop_step_inv)
qed simp

section \<open>The abstract hub\<close>

text \<open>
  What the loop promises: for every channel the sessions on it, and the complete log of the
  messages posted since the channel was last created, with the time of the last activity. A
  joining session is confirmed and gets the last \<open>n\<close> messages of the log; a posted message goes
  to every other session of the channel, in no particular order; an idle log is forgotten.
\<close>

record 'm hub =
  hub_members :: "u64 \<Rightarrow> u64 \<rightharpoonup> sender"
  hub_log :: "u64 \<rightharpoonup> 'm list \<times> system_time"

definition hub_init :: "'m hub" where
  "hub_init = \<lparr>hub_members = (\<lambda>_. Map.empty), hub_log = Map.empty\<rparr>"

definition hub_full :: "'m hub \<Rightarrow> u64 \<Rightarrow> 'm list" where
  "hub_full a ch = (case hub_log a ch of None \<Rightarrow> [] | Some (l, t) \<Rightarrow> l)"

inductive hub_step :: "nat \<Rightarrow> 'm hub \<Rightarrow> 'm loop_in \<Rightarrow> 'm hub \<Rightarrow> 'm loop_out list \<Rightarrow> bool" for n where
  tick:
    "log' = (\<lambda>ch. case hub_log a ch of
               None \<Rightarrow> None
             | Some (l, t) \<Rightarrow> if t \<le> now \<and> now - t > cleanup_threshold then None else Some (l, t)) \<Longrightarrow>
     hub_step n a (Tick now) (a\<lparr>hub_log := log'\<rparr>) []"
| join:
    "hub_members a ch h = None \<Longrightarrow>
     hub_step n a (Event (Init h ch tx e m) t1 t2)
       \<lparr>hub_members = (hub_members a)(ch := (hub_members a ch)(h \<mapsto> tx)),
        hub_log = (hub_log a)(ch \<mapsto> (hub_full a ch @ [m], t2))\<rparr>
       (Confirm e h # map (SendMsg tx) (take_last n (hub_full a ch)))"
| refuse:
    "hub_members a ch h \<noteq> None \<Longrightarrow>
     hub_step n a (Event (Init h ch tx e m) t1 t2) a [DropErr e]"
| post:
    "hub_members a ch \<noteq> Map.empty \<Longrightarrow>
     mset outs = image_mset (\<lambda>x. SendMsg (the (hub_members a ch x)) m)
                   (mset_set (dom (hub_members a ch) - {h})) \<Longrightarrow>
     log' = (hub_log a)(ch := map_option (\<lambda>(l, t). (l @ [m], t1)) (hub_log a ch)) \<Longrightarrow>
     hub_step n a (Event (Msg h ch m) t1 t2) (a\<lparr>hub_log := log'\<rparr>) outs"
| post_nowhere:
    "hub_members a ch = Map.empty \<Longrightarrow> hub_step n a (Event (Msg h ch m) t1 t2) a []"
| leave:
    "hub_step n a (Event (Logoff h ch) t1 t2)
       (a\<lparr>hub_members := (hub_members a)(ch := (hub_members a ch)(h := None))\<rparr>) []"

inductive hub_run :: "nat \<Rightarrow> 'm hub \<Rightarrow> 'm loop_in list \<Rightarrow> 'm hub \<Rightarrow> 'm loop_out list \<Rightarrow> bool" for n where
  run_Nil: "hub_run n a [] a []"
| run_Cons: "hub_step n a i b o1 \<Longrightarrow> hub_run n b is c o2 \<Longrightarrow> hub_run n a (i # is) c (o1 @ o2)"

definition log_rel :: "nat \<Rightarrow> 'm channel_info \<Rightarrow> 'm list \<times> system_time \<Rightarrow> bool" where
  "log_rel n i lt \<longleftrightarrow> vd_items (ci_messages i) = take_last n (fst lt) \<and> ci_last_activity i = snd lt"

definition hub_rel :: "nat \<Rightarrow> 'm loop_state \<Rightarrow> 'm hub \<Rightarrow> bool" where
  "hub_rel n s a \<longleftrightarrow>
     member s = hub_members a \<and> (\<forall>ch. rel_option (log_rel n) (hm_get (msg_db s) ch) (hub_log a ch))"

lemma hub_rel_init: "hub_rel n loop_init hub_init"
  by (auto simp: hub_rel_def loop_init_def hub_init_def member_def members_def fun_eq_iff)

lemma hub_rel_history: "hub_rel n s a \<Longrightarrow> history s ch = take_last n (hub_full a ch)"
  unfolding hub_rel_def history_def hub_full_def
  by (drule conjunct2, drule spec [of _ ch])
     (auto simp: log_rel_def split: option.splits elim: option.rel_cases)

lemma take_last_push: "0 < n \<Longrightarrow> push_hist n (take_last n xs) m = take_last n (xs @ [m])"
  by (simp add: push_hist_def take_last_snoc)

lemma mset_broadcast:
  assumes "hm_wf xs"
  shows "mset (map (\<lambda>(k, t). f t) (filter (\<lambda>(k, t). k \<noteq> h) xs)) =
         image_mset (\<lambda>k. f (the (hm_get xs k))) (mset_set (dom (hm_get xs) - {h}))"
proof -
  let ?ys = "filter (\<lambda>(k, t). k \<noteq> h) xs"
  have get: "hm_get xs k = Some t" if "(k, t) \<in> set ?ys" for k t
    using that hm_get_set [OF assms] by auto
  then have "map (\<lambda>(k, t). f t) ?ys = map (\<lambda>k. f (the (hm_get xs k))) (map fst ?ys)"
    by (auto simp: comp_def)
  moreover have "distinct (map fst ?ys)"
    using assms by (auto simp: hm_wf_def distinct_map inj_on_def)
  moreover have "set (map fst ?ys) = dom (hm_get xs) - {h}"
    unfolding hm_get_def dom_map_of_conv_image_fst by (induction xs) auto
  ultimately have "mset (map fst ?ys) = mset_set (dom (hm_get xs) - {h})"
    by (metis mset_set_set)
  with \<open>map (\<lambda>(k, t). f t) ?ys = map (\<lambda>k. f (the (hm_get xs k))) (map fst ?ys)\<close>
  show ?thesis by (metis mset_map)
qed

lemma members_empty_iff:
  assumes "loop_inv cfg s"
  shows "hm_get (ch_db s) ch = None \<longleftrightarrow> member s ch = Map.empty"
proof (cases "hm_get (ch_db s) ch")
  case None
  then show ?thesis by (simp add: member_def members_def fun_eq_iff)
next
  case (Some u)
  with loop_invD(4) [OF assms Some] show ?thesis
    by (simp add: member_def members_def hm_is_empty_get fun_eq_iff)
qed

lemma sim_cleanup:
  assumes inv: "loop_inv cfg s" and rel: "hub_rel n s a"
  shows "\<exists>b. hub_step n a (Tick now) b [] \<and> hub_rel n (handle_cleanup now s) b"
proof -
  let ?log = "\<lambda>ch. case hub_log a ch of None \<Rightarrow> None
      | Some (l, t) \<Rightarrow> if t \<le> now \<and> now - t > cleanup_threshold then None else Some (l, t)"
  have "rel_option (log_rel n) (hm_get (msg_db (handle_cleanup now s)) ch) (?log ch)" for ch
    using rel unfolding hub_rel_def
    by (elim conjE allE [of _ ch] option.rel_cases)
       (auto simp: handle_cleanup_get [OF loop_invD(1) [OF inv]] keep_channel_def log_rel_def)
  moreover have "member (handle_cleanup now s) = hub_members a"
    using rel by (simp add: hub_rel_def member_def fun_eq_iff)
  ultimately have "hub_rel n (handle_cleanup now s) (a\<lparr>hub_log := ?log\<rparr>)"
    by (simp add: hub_rel_def)
  then show ?thesis using hub_step.tick [OF refl] by blast
qed

lemma sim_init:
  assumes rel: "hub_rel (unat (cfg_limit cfg)) s a" and lim: "0 < unat (cfg_limit cfg)"
    and run: "handle_init cfg t1 t2 h ch tx e m s = (s', outs)"
  shows "\<exists>b. hub_step (unat (cfg_limit cfg)) a (Event (Init h ch tx e m) t1 t2) b outs \<and>
             hub_rel (unat (cfg_limit cfg)) s' b"
proof (cases "member s ch h")
  case (Some v)
  with rel have "hub_members a ch h \<noteq> None" by (simp add: hub_rel_def)
  moreover have "s' = s" "outs = [DropErr e]" using handle_init_dup [of s ch h] Some run by auto
  ultimately show ?thesis using rel by (intro exI [of _ a]) (simp add: hub_step.refuse)
next
  case None
  let ?n = "unat (cfg_limit cfg)"
  let ?b = "\<lparr>hub_members = (hub_members a)(ch := (hub_members a ch)(h \<mapsto> tx)),
             hub_log = (hub_log a)(ch \<mapsto> (hub_full a ch @ [m], t2))\<rparr>"
  note new = handle_init_new [OF None run]
  have mem: "member s = hub_members a" using rel by (simp add: hub_rel_def)
  with None have none: "hub_members a ch h = None" by simp
  have "vd_items (case hm_get (msg_db s) ch of None \<Rightarrow> vd_new | Some i \<Rightarrow> ci_messages i) = history s ch"
    by (simp add: history_def vd_new_def split: option.splits)
  then have "rel_option (log_rel ?n) (hm_get (msg_db s') c) (hub_log ?b c)" for c
    using rel lim
    by (auto simp: new(4) log_rel_def add_message_items hub_rel_history [OF rel] take_last_push hub_rel_def)
  moreover have "member s' = hub_members ?b"
    using None by (auto simp: fun_eq_iff member_handle_init [OF run] mem)
  ultimately have "hub_rel ?n s' ?b" by (simp add: hub_rel_def)
  with hub_step.join [OF none, of ?n tx e m t1 t2] new(1) hub_rel_history [OF rel] show ?thesis by auto
qed

lemma sim_msg:
  assumes inv: "loop_inv cfg s" and rel: "hub_rel (unat (cfg_limit cfg)) s a"
    and lim: "0 < unat (cfg_limit cfg)"
    and run: "handle_msg cfg t1 h ch m s = (s', outs)"
  shows "\<exists>b. hub_step (unat (cfg_limit cfg)) a (Event (Msg h ch m) t1 t2) b outs \<and>
             hub_rel (unat (cfg_limit cfg)) s' b"
proof (cases "hm_get (ch_db s) ch")
  case None
  with members_empty_iff [OF inv, of ch] rel have "hub_members a ch = Map.empty"
    by (simp add: hub_rel_def)
  moreover have "s' = s" "outs = []" using run None by (auto simp: handle_msg_def)
  ultimately show ?thesis using rel by (intro exI [of _ a]) (simp add: hub_step.post_nowhere)
next
  case (Some u)
  let ?n = "unat (cfg_limit cfg)"
  let ?log = "(hub_log a)(ch := map_option (\<lambda>(l, t). (l @ [m], t1)) (hub_log a ch))"
  have mem: "member s = hub_members a" and logs: "\<And>c. rel_option (log_rel ?n) (hm_get (msg_db s) c) (hub_log a c)"
    using rel by (auto simp: hub_rel_def)
  have ne: "hub_members a ch \<noteq> Map.empty"
    using members_empty_iff [OF inv, of ch] Some mem by simp
  have "hm_get (members s ch) = hub_members a ch"
    using mem by (auto simp: member_def fun_eq_iff)
  then have outs: "mset outs = image_mset (\<lambda>x. SendMsg (the (hub_members a ch x)) m)
      (mset_set (dom (hub_members a ch) - {h}))"
    using mset_broadcast [OF loop_invD(3) [OF inv, of ch], of "\<lambda>t. SendMsg t m" h]
      handle_msg_outs [of cfg t1 h ch m s] run by simp
  have "rel_option (log_rel ?n) (hm_get (msg_db s') c) (?log c)" for c
    using logs [of c] lim Some
    by (elim option.rel_cases)
       (auto simp: handle_msg_state(3) [OF run] hm_contains_def log_rel_def add_message_items take_last_push)
  moreover have "member s' = hub_members a"
    using mem handle_msg_state(2) [OF run] by (simp add: member_def fun_eq_iff)
  ultimately have "hub_rel ?n s' (a\<lparr>hub_log := ?log\<rparr>)" by (simp add: hub_rel_def)
  with hub_step.post [OF ne outs refl] show ?thesis by blast
qed

lemma sim_logoff:
  assumes rel: "hub_rel n s a"
  shows "\<exists>b. hub_step n a (Event (Logoff h ch) t1 t2) b [] \<and> hub_rel n (handle_logoff h ch s) b"
proof -
  have "hub_rel n (handle_logoff h ch s)
          (a\<lparr>hub_members := (hub_members a)(ch := (hub_members a ch)(h := None))\<rparr>)"
    using rel by (auto simp: hub_rel_def fun_eq_iff member_handle_logoff)
  then show ?thesis using hub_step.leave by blast
qed

lemma loop_step_refines:
  assumes inv: "loop_inv cfg s" and rel: "hub_rel (unat (cfg_limit cfg)) s a" and lim: "0 < cfg_limit cfg"
  shows "\<exists>b. hub_step (unat (cfg_limit cfg)) a i b (snd (loop_step cfg s i)) \<and>
             hub_rel (unat (cfg_limit cfg)) (fst (loop_step cfg s i)) b"
proof (cases i)
  case (Tick now)
  with sim_cleanup [OF inv rel] show ?thesis by simp
next
  case (Event ev t1 t2)
  have n: "0 < unat (cfg_limit cfg)" using lim by (simp add: limit_pos)
  show ?thesis
  proof (cases ev)
    case (Init h ch tx e m)
    with Event sim_init [OF rel n prod.collapse [symmetric]] show ?thesis by simp
  next
    case (Msg h ch m)
    with Event sim_msg [OF inv rel n prod.collapse [symmetric]] show ?thesis by simp
  next
    case (Logoff h ch)
    with Event sim_logoff [OF rel] show ?thesis by simp
  qed
qed

lemma loop_run_refines:
  assumes "loop_inv cfg s" and "hub_rel (unat (cfg_limit cfg)) s a" and "0 < cfg_limit cfg"
  shows "\<exists>b. hub_run (unat (cfg_limit cfg)) a is b (snd (loop_run cfg s is)) \<and>
             hub_rel (unat (cfg_limit cfg)) (fst (loop_run cfg s is)) b"
  using assms
proof (induction "is" arbitrary: s a)
  case Nil
  then show ?case by (auto intro: run_Nil)
next
  case (Cons i "is")
  from loop_step_refines [OF Cons.prems, of i] obtain b where
    "hub_step (unat (cfg_limit cfg)) a i b (snd (loop_step cfg s i))"
    "hub_rel (unat (cfg_limit cfg)) (fst (loop_step cfg s i)) b" by blast
  moreover from Cons.IH [OF loop_step_inv [OF Cons.prems(1)] this(2) Cons.prems(3)] obtain c where
    "hub_run (unat (cfg_limit cfg)) b is c (snd (loop_run cfg (fst (loop_step cfg s i)) is))"
    "hub_rel (unat (cfg_limit cfg)) (fst (loop_run cfg (fst (loop_step cfg s i)) is)) c" by blast
  ultimately show ?case by (intro exI [of _ c]) (simp add: run_Cons)
qed

section \<open>Isolation and forgetting\<close>

text \<open>The channel an event is about.\<close>

fun event_channel :: "'m ws_event \<Rightarrow> u64" where
  "event_channel (Init h ch tx e m) = ch"
| "event_channel (Msg h ch m) = ch"
| "event_channel (Logoff h ch) = ch"

lemma loop_step_isolation:
  assumes "c \<noteq> event_channel ev"
  shows "members (fst (loop_step cfg s (Event ev t1 t2))) c = members s c"
    and "hm_get (msg_db (fst (loop_step cfg s (Event ev t1 t2)))) c = hm_get (msg_db s) c"
proof -
  have "members (fst (loop_step cfg s (Event ev t1 t2))) c = members s c \<and>
        hm_get (msg_db (fst (loop_step cfg s (Event ev t1 t2)))) c = hm_get (msg_db s) c"
  proof (cases ev)
    case (Init h ch tx e m)
    with assms handle_init_new(2,4) [OF _ prod.collapse [symmetric], of s ch h cfg t1 t2 tx e m c]
      handle_init_dup [of s ch h]
    show ?thesis by (cases "member s ch h") simp_all
  next
    case (Msg h ch m)
    with assms handle_msg_state(2,3) [OF prod.collapse [symmetric], of cfg t1 h ch m s]
    show ?thesis by simp
  next
    case (Logoff h ch)
    with assms show ?thesis by (simp add: handle_logoff_members)
  qed
  then show "members (fst (loop_step cfg s (Event ev t1 t2))) c = members s c"
    and "hm_get (msg_db (fst (loop_step cfg s (Event ev t1 t2)))) c = hm_get (msg_db s) c"
    by blast+
qed

text \<open>A message is only sent to a session that is on the channel of the event.\<close>

lemma loop_step_target:
  assumes "loop_inv cfg s" and "loop_step cfg s (Event ev t1 t2) = (s', outs)" and "SendMsg tx m \<in> set outs"
  shows "\<exists>h. member s' (event_channel ev) h = Some tx"
proof (cases ev)
  case (Init h ch tx2 e msg)
  with assms(2) have run: "handle_init cfg t1 t2 h ch tx2 e msg s = (s', outs)" by simp
  have none: "member s ch h = None"
    using handle_init_dup [of s ch h] run assms(3) by fastforce
  then have "tx = tx2" using assms(3) handle_init_new(1) [OF none run] by auto
  with none Init show ?thesis by (auto simp: member_handle_init [OF run])
next
  case (Msg h ch msg)
  with assms(2) have run: "handle_msg cfg t1 h ch msg s = (s', outs)" by simp
  obtain x where "(x, tx) \<in> set (members s ch)"
    using assms(3) handle_msg_outs [of cfg t1 h ch msg s] run by auto
  then have "member s' ch x = Some tx"
    using hm_get_set [OF loop_invD(3) [OF assms(1), of ch]] handle_msg_state(2) [OF run]
    by (simp add: member_def)
  with Msg show ?thesis by auto
next
  case (Logoff h ch)
  with assms(2,3) show ?thesis by auto
qed

text \<open>A run in which nobody joins channel \<open>ch\<close>.\<close>

fun no_join :: "u64 \<Rightarrow> 'm loop_in \<Rightarrow> bool" where
  "no_join ch (Event (Init h ch' tx e m) t1 t2) \<longleftrightarrow> ch' \<noteq> ch"
| "no_join ch _ \<longleftrightarrow> True"

lemma no_join_step:
  assumes "hm_wf (msg_db s)" and "hm_get (msg_db s) ch = None" and "no_join ch i"
  shows "hm_get (msg_db (fst (loop_step cfg s i))) ch = None"
proof (cases i)
  case (Tick now)
  with assms show ?thesis by (simp add: handle_cleanup_get)
next
  case (Event ev t1 t2)
  show ?thesis
  proof (cases "ch = event_channel ev")
    case False
    with Event loop_step_isolation(2) [OF False, of cfg s t1 t2] assms show ?thesis by simp
  next
    case True
    with Event assms show ?thesis
      by (cases ev) (auto simp: handle_msg_state(3) [OF prod.collapse [symmetric]])
  qed
qed

lemma no_join_run:
  assumes "loop_inv cfg s" and "hm_get (msg_db s) ch = None" and "list_all (no_join ch) is"
  shows "hm_get (msg_db (fst (loop_run cfg s is))) ch = None"
  using assms
proof (induction "is" arbitrary: s)
  case (Cons i "is")
  from Cons.prems(3) have i: "no_join ch i" by simp
  show ?case
    using Cons.IH [OF loop_step_inv [OF Cons.prems(1)] no_join_step [OF loop_invD(1) [OF Cons.prems(1)] Cons.prems(2) i]]
      Cons.prems(3) by simp
qed simp

section \<open>Properties\<close>

text \<open>A configuration and a short run for the witnesses.\<close>

definition cfg2 :: loop_cfg where
  "cfg2 = \<lparr>cfg_limit = 2, cfg_grow = max\<rparr>"

definition alice_joined :: "string loop_state" where
  "alice_joined =
     \<lparr>msg_db = [(7, \<lparr>ci_messages = \<lparr>vd_items = [''hello''], vd_cap = 1\<rparr>, ci_last_activity = 5\<rparr>)],
      ch_db = [(7, [(1, 10)])]\<rparr>"

lemmas loop_eval = loop_init_def handle_init_def handle_msg_def handle_logoff_def hm_get_def hm_insert_def
  hm_remove_def hm_contains_def hm_is_empty_def Let_def add_message_def vd_new_def vd_reserve_def
  vd_push_back_def vd_pop_front_def cfg2_def loop_run.simps(2)

lemma alice_joined_run:
  "fst (loop_run cfg2 loop_init [Event (Init 1 7 10 20 ''hello'') 4 5]) = alice_joined"
  by (simp add: loop_eval alice_joined_def)

lemma alice_joined_inv: "loop_inv cfg2 alice_joined"
  using loop_run_inv [OF loop_inv_init, of cfg2] alice_joined_run by metis

lemma alice_joined_member: "member alice_joined ch h = (if ch = 7 \<and> h = 1 then Some 10 else None)"
  by (simp add: member_def members_def alice_joined_def hm_get_def)

text \<open>
  With a positive limit the history queue holds exactly the last \<open>limit\<close> messages added,
  oldest first, whatever the allocator does.
\<close>

theorem add_message_keeps_last:
  assumes "0 < limit"
  shows "vd_items (fold (\<lambda>m. add_message grow m limit) ms vd_new) = take_last (unat limit) ms"
  using bh.fold_take_last [where limit = limit and xs = "[]" and q = vd_new] assms
  by (simp add: vd_new_def unat_gt_0 word_neq_0_conv)

theorem add_message_keeps_last_witness:
  "vd_items (fold (\<lambda>m. add_message max m 2) [''a'', ''b'', ''c''] vd_new) = [''b'', ''c'']"
  using add_message_keeps_last [of 2 max "[''a'', ''b'', ''c'']"] by (simp add: take_last_def)

text \<open>
  With a limit of zero, which the library's configuration admits, the queue is unbounded:
  the test for a full queue never succeeds after the first message.
\<close>

theorem add_message_limit_zero_unbounded:
  "vd_items (fold (\<lambda>m. add_message grow m 0) ms vd_new) = ms"
  using bh.fold_zero [where limit = 0 and q = vd_new] by (simp add: vd_new_def)

lemma history_event_zero:
  assumes "cfg_limit cfg = 0"
  shows "\<exists>ms. history (fst (loop_step cfg s (Event ev t1 t2))) ch = history s ch @ ms"
proof (cases ev)
  case (Init h c tx e m)
  show ?thesis
  proof (cases "member s c h")
    case None
    from handle_init_new(3) [OF None prod.collapse [symmetric], of cfg t1 t2 tx e m ch] Init assms show ?thesis
      by (auto simp: push_hist_def)
  next
    case (Some v)
    then show ?thesis using handle_init_dup [of s c h] Init by simp
  qed
next
  case (Msg h c m)
  then show ?thesis
    using handle_msg_state(3) [OF prod.collapse [symmetric], of cfg t1 h c m s ch] assms
    by (auto simp: history_def add_message_items push_hist_def split: option.splits)
next
  case (Logoff h c)
  then show ?thesis by (simp add: history_def)
qed

text \<open>
  C9: what holds in every state the loop reaches. A channel is kept exactly as long as it has
  sessions. With a positive limit no history exceeds the limit. With a limit of zero, which the
  public configuration admits, the limit is not kept: no event ever shortens a history, which only
  grows until the cleanup finds its channel idle.
\<close>

theorem loop_reachable_inv:
  "let s = fst (loop_run cfg loop_init is)
   in (\<forall>ch. hm_contains (ch_db s) ch \<longleftrightarrow> (\<exists>h. member s ch h \<noteq> None)) \<and>
      (0 < cfg_limit cfg \<longrightarrow> (\<forall>ch. length (history s ch) \<le> unat (cfg_limit cfg))) \<and>
      (cfg_limit cfg = 0 \<longrightarrow>
        (\<forall>ev t1 t2 ch. \<exists>ms. history (fst (loop_step cfg s (Event ev t1 t2))) ch = history s ch @ ms))"
proof -
  define s where "s = fst (loop_run cfg loop_init is)"
  have inv: "loop_inv cfg s" unfolding s_def by (rule loop_run_inv [OF loop_inv_init])
  have "hm_contains (ch_db s) ch \<longleftrightarrow> (\<exists>h. member s ch h \<noteq> None)" for ch
  proof (cases "hm_get (ch_db s) ch")
    case None
    then show ?thesis by (simp add: hm_contains_def member_def members_def hm_get_def)
  next
    case (Some u)
    then have "u \<noteq> []" using loop_invD(4) [OF inv] by (auto simp: hm_is_empty_def)
    then have "hm_get u (fst (hd u)) \<noteq> None" by (cases u) (auto simp: hm_get_def)
    then show ?thesis using Some by (auto simp: hm_contains_def member_def members_def)
  qed
  moreover have "0 < cfg_limit cfg \<longrightarrow> (\<forall>ch. length (history s ch) \<le> unat (cfg_limit cfg))"
    using loop_invD(5) [OF inv] by blast
  moreover have "cfg_limit cfg = 0 \<longrightarrow>
      (\<forall>ev t1 t2 ch. \<exists>ms. history (fst (loop_step cfg s (Event ev t1 t2))) ch = history s ch @ ms)"
    using history_event_zero by blast
  ultimately show ?thesis unfolding s_def [symmetric] Let_def by blast
qed

theorem loop_reachable_inv_witness:
  "(\<forall>ch. length (history alice_joined ch) \<le> 2) \<and> hm_contains (ch_db alice_joined) 7"
proof -
  note w = loop_reachable_inv [of cfg2 "[Event (Init 1 7 10 20 ''hello'') 4 5]", unfolded alice_joined_run Let_def]
  have "0 < cfg_limit cfg2" "unat (cfg_limit cfg2) = 2" by (simp_all add: cfg2_def)
  with w show ?thesis by (simp add: alice_joined_member)
qed

text \<open>
  C8: the loop implements the abstract hub: for every sequence of events and ticks there is a
  run of the hub with the same outputs, whose members are the registered sessions and whose
  complete logs end in the stored histories.
\<close>

theorem loop_refines_hub:
  assumes "0 < cfg_limit cfg"
  shows "\<exists>b. hub_run (unat (cfg_limit cfg)) hub_init is b (snd (loop_run cfg loop_init is)) \<and>
             hub_rel (unat (cfg_limit cfg)) (fst (loop_run cfg loop_init is)) b"
  using loop_run_refines [OF loop_inv_init hub_rel_init assms] .

theorem loop_refines_hub_witness:
  "\<exists>b. hub_run 2 hub_init [Event (Init 1 7 10 20 ''hello'') 4 5] b [Confirm 20 1] \<and>
       hub_rel 2 alice_joined b"
  using loop_refines_hub [of cfg2 "[Event (Init 1 7 10 20 ''hello'') 4 5]"]
  unfolding alice_joined_run by (simp add: loop_eval)

text \<open>
  What a subscriber receives. From its \<^verbatim>\<open>Init\<close> on, until it logs off, a session gets the
  stored history and then every message the other sessions post on its channel, each once, in
  the order the loop handles them, and nothing else.
\<close>

theorem subscriber_receives:
  assumes "loop_inv cfg s" and "member s ch h = None" and "\<forall>c x. member s c x \<noteq> Some tx"
    and "list_all (undisturbed h ch tx) is"
  shows "sent_to tx (snd (loop_run cfg s (Event (Init h ch tx e m) t1 t2 # is))) =
         history s ch @ live h ch is"
proof -
  obtain s' outs where run: "handle_init cfg t1 t2 h ch tx e m s = (s', outs)"
    by (cases "handle_init cfg t1 t2 h ch tx e m s")
  have "only_here s' ch h tx"
    using assms(2,3) by (auto simp: only_here_def member_handle_init [OF run])
  from subscriber_run [OF inv_handle_init [OF assms(1) run] this assms(4)]
  show ?thesis
    using run handle_init_new(1) [OF assms(2) run] by simp
qed

theorem subscriber_receives_witness:
  "sent_to 11 (snd (loop_run cfg2 alice_joined
     [Event (Init 2 7 11 21 ''hi'') 6 7, Event (Msg 1 7 ''news'') 8 8, Event (Msg 2 7 ''own'') 9 9])) =
   [''hello'', ''news'']"
  using subscriber_receives [OF alice_joined_inv, of 7 2 11
      "[Event (Msg 1 7 ''news'') 8 8, Event (Msg 2 7 ''own'') 9 9]" 21 "''hi''" 6 7]
  by (simp add: alice_joined_member) (simp add: history_def alice_joined_def hm_get_def)

text \<open>
  C14: channels are independent: an event on one channel leaves the sessions and the history
  of every other channel as they were, and everything it sends goes to sessions of its own
  channel.
\<close>

theorem channel_isolation:
  assumes "loop_inv cfg s" and "loop_step cfg s (Event ev t1 t2) = (s', outs)"
  shows "(c \<noteq> event_channel ev \<longrightarrow>
            members s' c = members s c \<and> hm_get (msg_db s') c = hm_get (msg_db s) c) \<and>
         (SendMsg tx m \<in> set outs \<longrightarrow> (\<exists>h. member s' (event_channel ev) h = Some tx))"
  using loop_step_target [OF assms] loop_step_isolation [of c ev cfg s t1 t2] assms(2) by simp

theorem channel_isolation_witness:
  "members (fst (loop_step cfg2 alice_joined (Event (Logoff 1 8) 0 0))) 7 = [(1, 10)]"
  using channel_isolation [OF alice_joined_inv prod.collapse [symmetric],
      where ev = "Logoff 1 8" and c = 7 and ?t1.0 = 0 and ?t2.0 = 0]
  by (simp add: members_def alice_joined_def hm_get_def)

text \<open>
  A second \<^verbatim>\<open>Init\<close> of a session that is already on the channel changes nothing: no map is
  touched, nothing is sent, and its confirmation channel is dropped.
\<close>

theorem duplicate_init_refused:
  assumes "member s ch h \<noteq> None"
  shows "loop_step cfg s (Event (Init h ch tx e m) t1 t2) = (s, [DropErr e])"
  using handle_init_dup [OF assms] by simp

theorem duplicate_init_refused_witness:
  "loop_step cfg2 alice_joined (Event (Init 1 7 11 21 ''again'') 6 6) = (alice_joined, [DropErr 21])"
  using duplicate_init_refused [of alice_joined 7 1] by (simp add: alice_joined_member)

text \<open>
  The first frame of a session is stored but not announced: handling an \<^verbatim>\<open>Init\<close> sends
  nothing to any session that was on the channel before.
\<close>

theorem init_not_announced:
  assumes "loop_step cfg s (Event (Init h ch tx e m) t1 t2) = (s', outs)" and "tx' \<noteq> tx"
  shows "sent_to tx' outs = []"
proof (cases "member s ch h")
  case None
  from assms(1) have "outs = Confirm e h # map (SendMsg tx) (history s ch)"
    by (intro handle_init_new(1) [OF None]) simp
  with assms(2) show ?thesis by simp
next
  case (Some v)
  with assms handle_init_dup [of s ch h] show ?thesis by auto
qed

theorem init_not_announced_witness:
  "sent_to 10 (snd (loop_step cfg2 alice_joined (Event (Init 2 7 11 21 ''hi'') 6 6))) = []"
  using init_not_announced [OF prod.collapse [symmetric], where tx' = 10 and tx = 11] by fastforce

text \<open>
  C23: the cleanup forgets a channel that still has sessions. After 30 days without a message a
  tick removes its history entry; until somebody joins again, messages are still delivered but
  never recorded, so the history stays empty.
\<close>

theorem cleanup_stops_recording:
  assumes "loop_inv cfg s" and "only_here s ch h tx" and "hm_get (msg_db s) ch = Some info"
    and "now - ci_last_activity info > cleanup_threshold"
    and "list_all (no_join ch) is" and "list_all (undisturbed h ch tx) is"
  shows "history (fst (loop_run cfg s (Tick now # is))) ch = [] \<and>
         sent_to tx (snd (loop_run cfg s (Tick now # is))) = live h ch is"
proof -
  have "0 \<le> cleanup_threshold" by (simp add: cleanup_threshold_def CHANNEL_CLEANUP_DAYS_def)
  with assms(3,4) have "hm_get (msg_db (handle_cleanup now s)) ch = None"
    by (simp add: handle_cleanup_get [OF loop_invD(1) [OF assms(1)]] keep_channel_def)
  from no_join_run [OF inv_handle_cleanup [OF assms(1)] this assms(5)]
  have "history (fst (loop_run cfg s (Tick now # is))) ch = []"
    by (simp add: history_def)
  moreover have "list_all (undisturbed h ch tx) (Tick now # is)" using assms(6) by simp
  from subscriber_run [OF assms(1,2) this] have
    "sent_to tx (snd (loop_run cfg s (Tick now # is))) = live h ch is" by simp
  ultimately show ?thesis by blast
qed

theorem cleanup_stops_recording_witness:
  "history (fst (loop_run cfg2 alice_joined
     [Tick (6 + cleanup_threshold), Event (Msg 2 7 ''lost'') (7 + cleanup_threshold) 0])) 7 = [] \<and>
   sent_to 10 (snd (loop_run cfg2 alice_joined
     [Tick (6 + cleanup_threshold), Event (Msg 2 7 ''lost'') (7 + cleanup_threshold) 0])) = [''lost'']"
proof -
  have "only_here alice_joined 7 1 10" by (simp add: only_here_def alice_joined_member)
  from cleanup_stops_recording [OF alice_joined_inv this, of _ "6 + cleanup_threshold"
      "[Event (Msg 2 7 ''lost'') (7 + cleanup_threshold) 0]"]
  show ?thesis by (simp add: alice_joined_def hm_get_def del: loop_run_Cons)
qed

end
