(* ===== verification/Ws_Conn.thy ===== *)
theory Ws_Conn
  imports Mles_Auth Event_Loop
begin

text \<open>
  One WebSocket connection (\<^verbatim>\<open>create_ws_handler\<close> of \<^verbatim>\<open>src/src/websocket.rs\<close>): its three tasks
  (message receiver, ping handler, message sender), the state they share, and the interleaving
  of their steps with the event loop and the client.

  A step runs one task from one \<^verbatim>\<open>.await\<close> to the next: \<^verbatim>\<open>main\<close> uses the current-thread runtime,
  on which nothing else runs in between. What the awaited operation answers is the action of the
  step. The message type of warp, the JSON parser and SipHash are parameters.
\<close>

section \<open>Parameters\<close>

record 'm msg_ops =
  is_text :: "'m \<Rightarrow> bool"
  to_str :: "'m \<Rightarrow> string option"
  is_close :: "'m \<Rightarrow> bool"
  is_pong :: "'m \<Rightarrow> bool"
  ping_msg :: 'm
  close_msg :: 'm

text \<open>
  The environment of a connection: message operations, \<^verbatim>\<open>serde_json::from_str\<close>, the hasher, the
  key, and the names of its queue and of its confirmation channel.
\<close>

record ('h, 'm) conn_env =
  env_msg :: "'m msg_ops"
  env_parse :: "string \<Rightarrow> mles_header option"
  env_sip :: "'h sip_ops"
  env_key :: "string option"
  env_tx2 :: sender
  env_err :: oneshot

definition WS_BUF :: nat where
  "WS_BUF = 128"

section \<open>State\<close>

text \<open>Where each task waits. A pending \<^verbatim>\<open>send\<close> carries what it sends.\<close>

datatype 'm rx_pc =
    RxFirst                   \<comment> \<open>\<^verbatim>\<open>ws_rx.next()\<close> for the first frame\<close>
  | RxSendInit "'m ws_event"  \<comment> \<open>\<^verbatim>\<open>tx.send(WsEvent::Init(..))\<close>\<close>
  | RxAwaitErr                \<comment> \<open>\<^verbatim>\<open>err_rx\<close>\<close>
  | RxSendClose               \<comment> \<open>\<^verbatim>\<open>tx2_spawn.send(Some(Ok(Message::close())))\<close>\<close>
  | RxNext                    \<comment> \<open>\<^verbatim>\<open>ws_rx.next()\<close> in the loop\<close>
  | RxSendMsg "'m ws_event"   \<comment> \<open>\<^verbatim>\<open>tx.send(WsEvent::Msg(..))\<close>\<close>
  | RxSendEnd                 \<comment> \<open>\<^verbatim>\<open>tx2_spawn.send(None)\<close>\<close>
  | RxDone

datatype ping_pc = PgStart | PgTick | PgSendPing | PgSendEnd | PgDone

datatype 'm tx_pc = TxNext | TxSend 'm | TxClose | TxLogoff u64 u64 | TxDone

text \<open>
  The sending half \<^verbatim>\<open>err_tx\<close> of the confirmation channel: owned by the receiver task, on its way
  to the event loop, used, or dropped.
\<close>

datatype err_half = ErrHeld | ErrInFlight | ErrConfirmed | ErrGone

text \<open>
  An item of the queue \<^verbatim>\<open>tx2\<close>/\<^verbatim>\<open>rx2\<close> is a message or None, the request to end.
  \<^verbatim>\<open>c_loop_tx\<close>: the event loop (or an event on its way) holds a clone of \<^verbatim>\<open>tx2\<close>.
\<close>

record 'm ws_conn =
  c_h :: u64
  c_ch :: u64
  c_ping :: u64
  c_closed :: bool
  c_err :: err_half
  c_queue :: "'m option list"
  c_loop_tx :: bool
  c_rx :: "'m rx_pc"
  c_pg :: ping_pc
  c_tx :: "'m tx_pc"

definition conn_init :: "'m ws_conn" where
  "conn_init =
     \<lparr>c_h = 0, c_ch = 0, c_ping = 0, c_closed = False, c_err = ErrHeld, c_queue = [],
      c_loop_tx = False, c_rx = RxFirst, c_pg = PgStart, c_tx = TxNext\<rparr>"

text \<open>What a step gives to the outside: an event for the event loop, a frame for the client.\<close>

datatype 'm conn_out = Emit "'m ws_event" | Frame 'm

text \<open>
  The actions: how the operation a task waits for was answered, and what the event loop does
  with the connection's queue and confirmation channel.
\<close>

datatype 'm conn_act =
    RxFrame 'm        \<comment> \<open>\<^verbatim>\<open>ws_rx.next()\<close>: a frame\<close>
  | RxEnd             \<comment> \<open>\<^verbatim>\<open>ws_rx.next()\<close>: an error or the end\<close>
  | RxEvent bool      \<comment> \<open>the receiver's event was taken, or the event channel is closed\<close>
  | RxErr             \<comment> \<open>\<^verbatim>\<open>err_rx\<close> resolves\<close>
  | RxQueue           \<comment> \<open>the receiver's send to the queue completes\<close>
  | PgFires           \<comment> \<open>the interval ticks\<close>
  | PgQueue           \<comment> \<open>the ping handler's send to the queue completes\<close>
  | TxTake            \<comment> \<open>\<^verbatim>\<open>rx2.next()\<close> resolves\<close>
  | TxSent bool       \<comment> \<open>\<^verbatim>\<open>ws_tx.send\<close> succeeds or fails\<close>
  | TxEvent bool      \<comment> \<open>the sender's event was taken, or the event channel is closed\<close>
  | LoopConfirm | LoopDrop | LoopForget | LoopSend 'm

section \<open>The receiver task\<close>

text \<open>Returning drops what the task owns, \<^verbatim>\<open>err_tx\<close> included if it still owns it.\<close>

definition rx_return :: "'m ws_conn \<Rightarrow> 'm ws_conn" where
  "rx_return s = s\<lparr>c_rx := RxDone, c_err := (if c_err s = ErrHeld then ErrGone else c_err s)\<rparr>"

definition rx_fail :: "'m ws_conn \<Rightarrow> 'm ws_conn" where
  "rx_fail s = rx_return (s\<lparr>c_closed := True\<rparr>)"

definition rx_finish :: "'m ws_conn \<Rightarrow> 'm ws_conn" where
  "rx_finish s = s\<lparr>c_closed := True, c_rx := RxSendEnd\<rparr>"

definition rx_first :: "('h, 'm) conn_env \<Rightarrow> 'm \<Rightarrow> 'm ws_conn \<Rightarrow> 'm ws_conn" where
  "rx_first env m s =
     (if \<not> is_text (env_msg env) m then rx_fail s
      else case to_str (env_msg env) m of
        None \<Rightarrow> rx_return s
      | Some txt \<Rightarrow>
          (case env_parse env txt of
             None \<Rightarrow> rx_fail s
           | Some msghdr \<Rightarrow>
               if \<not> is_ascii (uid msghdr) \<or> \<not> is_ascii (channel msghdr) then rx_fail s
               else if uid msghdr = [] \<or> channel msghdr = [] then rx_fail s
               else
                 let s = s\<lparr>c_h := hash_header (env_sip env) msghdr\<rparr>;
                     s = s\<lparr>c_ch := hash_channel (env_sip env) msghdr\<rparr>
                 in if \<not> verify_auth (env_sip env) (env_key env) (uid msghdr) (channel msghdr) (auth msghdr)
                    then rx_fail s
                    else s\<lparr>c_rx := RxSendInit (Init (c_h s) (c_ch s) (env_tx2 env) (env_err env) m)\<rparr>))"

definition rx_loop :: "('h, 'm) conn_env \<Rightarrow> 'm \<Rightarrow> 'm ws_conn \<Rightarrow> 'm ws_conn" where
  "rx_loop env m s =
     (if c_closed s then rx_finish s
      else if c_h s = 0 then rx_finish s
      else if is_close (env_msg env) m then rx_finish (s\<lparr>c_closed := True\<rparr>)
      else
        let s = s\<lparr>c_ping := 0\<rparr>
        in if is_pong (env_msg env) m then s
           else s\<lparr>c_rx := RxSendMsg (Msg (c_h s) (c_ch s) m)\<rparr>)"

definition rx_frame :: "('h, 'm) conn_env \<Rightarrow> 'm \<Rightarrow> 'm ws_conn \<Rightarrow> 'm ws_conn option" where
  "rx_frame env m s =
     (case c_rx s of
        RxFirst \<Rightarrow> Some (rx_first env m s)
      | RxNext \<Rightarrow> Some (rx_loop env m s)
      | _ \<Rightarrow> None)"

text \<open>
  No first frame: the \<^verbatim>\<open>if let\<close> is skipped and the task waits for \<^verbatim>\<open>err_rx\<close>, still owning \<^verbatim>\<open>err_tx\<close>.
\<close>

definition rx_end :: "'m ws_conn \<Rightarrow> 'm ws_conn option" where
  "rx_end s =
     (case c_rx s of
        RxFirst \<Rightarrow> Some (s\<lparr>c_rx := RxAwaitErr\<rparr>)
      | RxNext \<Rightarrow> Some (rx_finish s)
      | _ \<Rightarrow> None)"

definition rx_event :: "bool \<Rightarrow> 'm ws_conn \<Rightarrow> ('m ws_conn \<times> 'm conn_out list) option" where
  "rx_event ok s =
     (case c_rx s of
        RxSendInit e \<Rightarrow>
          if ok then Some (s\<lparr>c_rx := RxAwaitErr, c_err := ErrInFlight, c_loop_tx := True\<rparr>, [Emit e])
          else Some (rx_fail s, [])
      | RxSendMsg e \<Rightarrow>
          if ok then Some (s\<lparr>c_rx := RxNext\<rparr>, [Emit e]) else Some (rx_finish s, [])
      | _ \<Rightarrow> None)"

definition rx_err :: "'m ws_conn \<Rightarrow> 'm ws_conn option" where
  "rx_err s =
     (if c_rx s = RxAwaitErr
      then (case c_err s of
              ErrConfirmed \<Rightarrow> Some (s\<lparr>c_rx := RxNext\<rparr>)
            | ErrGone \<Rightarrow> Some (s\<lparr>c_closed := True, c_h := 0, c_ch := 0, c_rx := RxSendClose\<rparr>)
            | _ \<Rightarrow> None)
      else None)"

text \<open>
  A send to the queue: it waits while the queue is full, and fails once the sender task, which
  owns \<^verbatim>\<open>rx2\<close>, is gone. The result tells whether the item was queued.
\<close>

definition queue_send :: "'m option \<Rightarrow> 'm ws_conn \<Rightarrow> ('m ws_conn \<times> bool) option" where
  "queue_send item s =
     (if c_tx s = TxDone then Some (s, False)
      else if length (c_queue s) < WS_BUF then Some (s\<lparr>c_queue := c_queue s @ [item]\<rparr>, True)
      else None)"

definition rx_queue :: "('h, 'm) conn_env \<Rightarrow> 'm ws_conn \<Rightarrow> 'm ws_conn option" where
  "rx_queue env s =
     (case c_rx s of
        RxSendClose \<Rightarrow> map_option (rx_return \<circ> fst) (queue_send (Some (close_msg (env_msg env))) s)
      | RxSendEnd \<Rightarrow> map_option (rx_return \<circ> fst) (queue_send None s)
      | _ \<Rightarrow> None)"

section \<open>The ping handler\<close>

text \<open>The head of the \<^verbatim>\<open>while\<close> loop.\<close>

definition pg_head :: "'m ws_conn \<Rightarrow> 'm ws_conn" where
  "pg_head s = s\<lparr>c_pg := (if c_closed s then PgDone else PgTick)\<rparr>"

definition pg_fires :: "'m ws_conn \<Rightarrow> 'm ws_conn option" where
  "pg_fires s =
     (case c_pg s of
        PgStart \<Rightarrow> Some (pg_head s)
      | PgTick \<Rightarrow> Some (s\<lparr>c_pg := PgSendPing\<rparr>)
      | _ \<Rightarrow> None)"

definition pg_count :: "'m ws_conn \<Rightarrow> 'm ws_conn" where
  "pg_count s =
     (let ping_cnt = c_ping s;
          s = s\<lparr>c_ping := c_ping s + 1\<rparr>
      in if ping_cnt > 2 then s\<lparr>c_closed := True, c_pg := PgSendEnd\<rparr> else pg_head s)"

definition pg_queue :: "('h, 'm) conn_env \<Rightarrow> 'm ws_conn \<Rightarrow> 'm ws_conn option" where
  "pg_queue env s =
     (case c_pg s of
        PgSendPing \<Rightarrow>
          map_option (\<lambda>(s, sent). if sent then pg_count s else s\<lparr>c_pg := PgDone\<rparr>)
            (queue_send (Some (ping_msg (env_msg env))) s)
      | PgSendEnd \<Rightarrow> map_option (\<lambda>(s, sent). s\<lparr>c_pg := PgDone\<rparr>) (queue_send None s)
      | _ \<Rightarrow> None)"

section \<open>The sender task\<close>

definition senders_alive :: "'m ws_conn \<Rightarrow> bool" where
  "senders_alive s \<longleftrightarrow> c_rx s \<noteq> RxDone \<or> c_pg s \<noteq> PgDone \<or> c_loop_tx s"

definition tx_take :: "'m ws_conn \<Rightarrow> 'm ws_conn option" where
  "tx_take s =
     (if c_tx s = TxNext
      then (case c_queue s of
              [] \<Rightarrow> if senders_alive s then None else Some (s\<lparr>c_tx := TxClose\<rparr>)
            | None # q \<Rightarrow> Some (s\<lparr>c_queue := q, c_tx := TxClose\<rparr>)
            | Some m # q \<Rightarrow>
                Some (s\<lparr>c_queue := q, c_tx := (if c_closed s then TxClose else TxSend m)\<rparr>))
      else None)"

definition tx_cleanup :: "'m ws_conn \<Rightarrow> 'm ws_conn" where
  "tx_cleanup s =
     (if c_h s \<noteq> 0 \<and> c_ch s \<noteq> 0 then s\<lparr>c_tx := TxLogoff (c_h s) (c_ch s)\<rparr>
      else s\<lparr>c_tx := TxDone\<rparr>)"

definition tx_sent ::
  "('h, 'm) conn_env \<Rightarrow> bool \<Rightarrow> 'm ws_conn \<Rightarrow> ('m ws_conn \<times> 'm conn_out list) option" where
  "tx_sent env ok s =
     (case c_tx s of
        TxSend m \<Rightarrow>
          if ok then Some (s\<lparr>c_tx := TxNext\<rparr>, [Frame m])
          else Some (s\<lparr>c_closed := True, c_tx := TxClose\<rparr>, [])
      | TxClose \<Rightarrow> Some (tx_cleanup s, if ok then [Frame (close_msg (env_msg env))] else [])
      | _ \<Rightarrow> None)"

text \<open>
  The event channel serves waiting senders in the order they asked (as tokio documents); a send
  of the receiver that is still waiting was asked for before the sender's \<^verbatim>\<open>Logoff\<close>, since no
  message is sent once the connection is closed.
\<close>

definition rx_event_pending :: "'m ws_conn \<Rightarrow> bool" where
  "rx_event_pending s \<longleftrightarrow> (case c_rx s of RxSendInit e \<Rightarrow> True | RxSendMsg e \<Rightarrow> True | _ \<Rightarrow> False)"

definition tx_event :: "bool \<Rightarrow> 'm ws_conn \<Rightarrow> ('m ws_conn \<times> 'm conn_out list) option" where
  "tx_event ok s =
     (case c_tx s of
        TxLogoff hval chval \<Rightarrow>
          if rx_event_pending s then None
          else Some (s\<lparr>c_h := 0, c_ch := 0, c_tx := TxDone\<rparr>,
                     if ok then [Emit (Logoff hval chval)] else [])
      | _ \<Rightarrow> None)"

section \<open>The connection\<close>

definition quiet :: "'m ws_conn option \<Rightarrow> ('m ws_conn \<times> 'm conn_out list) option" where
  "quiet r = map_option (\<lambda>s. (s, [])) r"

text \<open>None: the action cannot happen in this state.\<close>

fun conn_step ::
  "('h, 'm) conn_env \<Rightarrow> 'm ws_conn \<Rightarrow> 'm conn_act \<Rightarrow> ('m ws_conn \<times> 'm conn_out list) option" where
  "conn_step env s (RxFrame m) = quiet (rx_frame env m s)"
| "conn_step env s RxEnd = quiet (rx_end s)"
| "conn_step env s (RxEvent ok) = rx_event ok s"
| "conn_step env s RxErr = quiet (rx_err s)"
| "conn_step env s RxQueue = quiet (rx_queue env s)"
| "conn_step env s PgFires = quiet (pg_fires s)"
| "conn_step env s PgQueue = quiet (pg_queue env s)"
| "conn_step env s TxTake = quiet (tx_take s)"
| "conn_step env s (TxSent ok) = tx_sent env ok s"
| "conn_step env s (TxEvent ok) = tx_event ok s"
| "conn_step env s LoopConfirm =
     quiet (if c_err s = ErrInFlight then Some (s\<lparr>c_err := ErrConfirmed\<rparr>) else None)"
| "conn_step env s LoopDrop =
     quiet (if c_err s = ErrInFlight then Some (s\<lparr>c_err := ErrGone, c_loop_tx := False\<rparr>) else None)"
| "conn_step env s LoopForget =
     quiet (if c_loop_tx s \<and> c_err s \<noteq> ErrInFlight then Some (s\<lparr>c_loop_tx := False\<rparr>) else None)"
| "conn_step env s (LoopSend m) =
     quiet (if c_loop_tx s then map_option fst (queue_send (Some m) s) else None)"

fun conn_run ::
  "('h, 'm) conn_env \<Rightarrow> 'm ws_conn \<Rightarrow> 'm conn_act list \<Rightarrow> ('m ws_conn \<times> 'm conn_out list) option" where
  "conn_run env s [] = Some (s, [])"
| "conn_run env s (a # as) =
     (case conn_step env s a of
        None \<Rightarrow> None
      | Some (s', out) \<Rightarrow>
          (case conn_run env s' as of
             None \<Rightarrow> None
           | Some (s'', out') \<Rightarrow> Some (s'', out @ out')))"

text \<open>The states reachable in a connection's life, with what it has given out so far.\<close>

inductive conn_reach :: "('h, 'm) conn_env \<Rightarrow> 'm ws_conn \<Rightarrow> 'm conn_out list \<Rightarrow> bool"
  for env :: "('h, 'm) conn_env" where
  start: "conn_reach env conn_init []"
| step: "conn_reach env s out \<Longrightarrow> conn_step env s a = Some (s', out') \<Longrightarrow>
         conn_reach env s' (out @ out')"

section \<open>The first frame\<close>

text \<open>A first frame the server takes for a header: text, JSON of a header, ASCII and not empty.\<close>

definition valid_first :: "('h, 'm) conn_env \<Rightarrow> 'm \<Rightarrow> mles_header \<Rightarrow> bool" where
  "valid_first env m hdr \<longleftrightarrow>
     is_text (env_msg env) m \<and>
     (case to_str (env_msg env) m of None \<Rightarrow> False | Some txt \<Rightarrow> env_parse env txt = Some hdr) \<and>
     is_ascii (uid hdr) \<and> is_ascii (channel hdr) \<and> uid hdr \<noteq> [] \<and> channel hdr \<noteq> []"

definition auth_ok :: "('h, 'm) conn_env \<Rightarrow> mles_header \<Rightarrow> bool" where
  "auth_ok env hdr \<longleftrightarrow>
     verify_auth (env_sip env) (env_key env) (uid hdr) (channel hdr) (auth hdr)"

definition init_of :: "('h, 'm) conn_env \<Rightarrow> 'm \<Rightarrow> mles_header \<Rightarrow> 'm ws_event" where
  "init_of env m hdr =
     Init (hash_header (env_sip env) hdr) (hash_channel (env_sip env) hdr)
       (env_tx2 env) (env_err env) m"

definition identify :: "('h, 'm) conn_env \<Rightarrow> mles_header \<Rightarrow> 'm ws_conn \<Rightarrow> 'm ws_conn" where
  "identify env hdr s =
     s\<lparr>c_h := hash_header (env_sip env) hdr, c_ch := hash_channel (env_sip env) hdr\<rparr>"

lemma rx_first_valid:
  "valid_first env m hdr \<Longrightarrow>
   rx_first env m s =
     (if auth_ok env hdr then (identify env hdr s)\<lparr>c_rx := RxSendInit (init_of env m hdr)\<rparr>
      else rx_fail (identify env hdr s))"
  by (auto simp: rx_first_def valid_first_def auth_ok_def init_of_def identify_def Let_def
      split: option.splits)

lemma rx_first_invalid:
  assumes "\<nexists>hdr. valid_first env m hdr"
  shows "rx_first env m s = rx_fail s \<or> rx_first env m s = rx_return s"
  using assms by (auto simp: rx_first_def valid_first_def split: option.splits)

lemma rx_first_cases:
  obtains (refused) "rx_first env m s = rx_fail s \<or> rx_first env m s = rx_return s"
    | (denied) hdr where "valid_first env m hdr" "\<not> auth_ok env hdr"
        "rx_first env m s = rx_fail (identify env hdr s)"
    | (accepted) hdr where "valid_first env m hdr" "auth_ok env hdr"
        "rx_first env m s = (identify env hdr s)\<lparr>c_rx := RxSendInit (init_of env m hdr)\<rparr>"
proof (cases "\<exists>hdr. valid_first env m hdr")
  case True
  then obtain hdr where "valid_first env m hdr" by blast
  then show thesis using denied [of hdr] accepted [of hdr] rx_first_valid [of env m hdr s]
    by (simp split: if_splits)
next
  case False
  then show thesis by (intro refused rx_first_invalid)
qed

section \<open>The transitions\<close>

text \<open>
  The steps as a relation, one rule per way a task can move on: the form in which invariants are
  proved.
\<close>

inductive conn_trans ::
  "('h, 'm) conn_env \<Rightarrow> 'm ws_conn \<Rightarrow> 'm conn_act \<Rightarrow> 'm ws_conn \<Rightarrow> 'm conn_out list \<Rightarrow> bool"
  for env :: "('h, 'm) conn_env" and s :: "'m ws_conn" where
  t_first: "c_rx s = RxFirst \<Longrightarrow> conn_trans env s (RxFrame m) (rx_first env m s) []"
| t_loop: "c_rx s = RxNext \<Longrightarrow> conn_trans env s (RxFrame m) (rx_loop env m s) []"
| t_no_first: "c_rx s = RxFirst \<Longrightarrow> conn_trans env s RxEnd (s\<lparr>c_rx := RxAwaitErr\<rparr>) []"
| t_loop_end: "c_rx s = RxNext \<Longrightarrow> conn_trans env s RxEnd (rx_finish s) []"
| t_init: "c_rx s = RxSendInit e \<Longrightarrow>
    conn_trans env s (RxEvent True)
      (s\<lparr>c_rx := RxAwaitErr, c_err := ErrInFlight, c_loop_tx := True\<rparr>) [Emit e]"
| t_init_err: "c_rx s = RxSendInit e \<Longrightarrow> conn_trans env s (RxEvent False) (rx_fail s) []"
| t_msg: "c_rx s = RxSendMsg e \<Longrightarrow> conn_trans env s (RxEvent True) (s\<lparr>c_rx := RxNext\<rparr>) [Emit e]"
| t_msg_err: "c_rx s = RxSendMsg e \<Longrightarrow> conn_trans env s (RxEvent False) (rx_finish s) []"
| t_confirmed: "c_rx s = RxAwaitErr \<Longrightarrow> c_err s = ErrConfirmed \<Longrightarrow>
    conn_trans env s RxErr (s\<lparr>c_rx := RxNext\<rparr>) []"
| t_refused: "c_rx s = RxAwaitErr \<Longrightarrow> c_err s = ErrGone \<Longrightarrow>
    conn_trans env s RxErr (s\<lparr>c_closed := True, c_h := 0, c_ch := 0, c_rx := RxSendClose\<rparr>) []"
| t_rx_queue: "c_rx s = RxSendClose \<and> item = Some (close_msg (env_msg env)) \<or>
      c_rx s = RxSendEnd \<and> item = None \<Longrightarrow>
    queue_send item s = Some (t, sent) \<Longrightarrow> conn_trans env s RxQueue (rx_return t) []"
| t_pg_start: "c_pg s = PgStart \<Longrightarrow> conn_trans env s PgFires (pg_head s) []"
| t_pg_tick: "c_pg s = PgTick \<Longrightarrow> conn_trans env s PgFires (s\<lparr>c_pg := PgSendPing\<rparr>) []"
| t_ping: "c_pg s = PgSendPing \<Longrightarrow>
    queue_send (Some (ping_msg (env_msg env))) s = Some (t, True) \<Longrightarrow>
    conn_trans env s PgQueue (pg_count t) []"
| t_ping_err: "c_pg s = PgSendPing \<Longrightarrow>
    queue_send (Some (ping_msg (env_msg env))) s = Some (t, False) \<Longrightarrow>
    conn_trans env s PgQueue (t\<lparr>c_pg := PgDone\<rparr>) []"
| t_pg_end: "c_pg s = PgSendEnd \<Longrightarrow> queue_send None s = Some (t, sent) \<Longrightarrow>
    conn_trans env s PgQueue (t\<lparr>c_pg := PgDone\<rparr>) []"
| t_drained: "c_tx s = TxNext \<Longrightarrow> c_queue s = [] \<Longrightarrow> \<not> senders_alive s \<Longrightarrow>
    conn_trans env s TxTake (s\<lparr>c_tx := TxClose\<rparr>) []"
| t_take_end: "c_tx s = TxNext \<Longrightarrow> c_queue s = None # q \<Longrightarrow>
    conn_trans env s TxTake (s\<lparr>c_queue := q, c_tx := TxClose\<rparr>) []"
| t_take: "c_tx s = TxNext \<Longrightarrow> c_queue s = Some m # q \<Longrightarrow> \<not> c_closed s \<Longrightarrow>
    conn_trans env s TxTake (s\<lparr>c_queue := q, c_tx := TxSend m\<rparr>) []"
| t_take_closed: "c_tx s = TxNext \<Longrightarrow> c_queue s = Some m # q \<Longrightarrow> c_closed s \<Longrightarrow>
    conn_trans env s TxTake (s\<lparr>c_queue := q, c_tx := TxClose\<rparr>) []"
| t_sent: "c_tx s = TxSend m \<Longrightarrow> conn_trans env s (TxSent True) (s\<lparr>c_tx := TxNext\<rparr>) [Frame m]"
| t_sent_err: "c_tx s = TxSend m \<Longrightarrow>
    conn_trans env s (TxSent False) (s\<lparr>c_closed := True, c_tx := TxClose\<rparr>) []"
| t_close: "c_tx s = TxClose \<Longrightarrow>
    conn_trans env s (TxSent ok) (tx_cleanup s)
      (if ok then [Frame (close_msg (env_msg env))] else [])"
| t_logoff: "c_tx s = TxLogoff hval chval \<Longrightarrow> \<not> rx_event_pending s \<Longrightarrow>
    conn_trans env s (TxEvent ok) (s\<lparr>c_h := 0, c_ch := 0, c_tx := TxDone\<rparr>)
      (if ok then [Emit (Logoff hval chval)] else [])"
| t_confirm: "c_err s = ErrInFlight \<Longrightarrow> conn_trans env s LoopConfirm (s\<lparr>c_err := ErrConfirmed\<rparr>) []"
| t_drop: "c_err s = ErrInFlight \<Longrightarrow>
    conn_trans env s LoopDrop (s\<lparr>c_err := ErrGone, c_loop_tx := False\<rparr>) []"
| t_forget: "c_loop_tx s \<Longrightarrow> c_err s \<noteq> ErrInFlight \<Longrightarrow>
    conn_trans env s LoopForget (s\<lparr>c_loop_tx := False\<rparr>) []"
| t_loop_send: "c_loop_tx s \<Longrightarrow> queue_send (Some m) s = Some (t, sent) \<Longrightarrow>
    conn_trans env s (LoopSend m) t []"

lemma queue_send_cases:
  assumes "queue_send item s = Some (t, sent)"
  obtains (dropped) "c_tx s = TxDone" "t = s" "\<not> sent"
    | (queued) "c_tx s \<noteq> TxDone" "length (c_queue s) < WS_BUF"
        "t = s\<lparr>c_queue := c_queue s @ [item]\<rparr>" "sent"
  using assms by (auto simp: queue_send_def split: if_splits)

lemma rx_step_trans:
  assumes "conn_step env s a = Some (s', out)" and "a \<in> {RxEnd, RxErr, RxQueue} \<or> (\<exists>m. a = RxFrame m) \<or> (\<exists>ok. a = RxEvent ok)"
  shows "conn_trans env s a s' out"
  using assms
  by (cases "c_rx s"; cases a)
     (auto simp: quiet_def rx_frame_def rx_end_def rx_event_def rx_err_def rx_queue_def
       intro: conn_trans.intros split: if_splits err_half.splits)

lemma pg_step_trans:
  assumes "conn_step env s a = Some (s', out)" and "a \<in> {PgFires, PgQueue}"
  shows "conn_trans env s a s' out"
proof (cases "c_pg s = PgSendPing \<and> a = PgQueue")
  case True
  then obtain t sent where "queue_send (Some (ping_msg (env_msg env))) s = Some (t, sent)"
    and "s' = (if sent then pg_count t else t\<lparr>c_pg := PgDone\<rparr>)" and "out = []"
    using assms(1) by (auto simp: quiet_def pg_queue_def)
  with True show ?thesis by (cases sent) (simp_all add: t_ping t_ping_err)
next
  case False
  with assms show ?thesis
    by (cases "c_pg s")
       (auto simp: quiet_def pg_fires_def pg_queue_def intro: t_pg_start t_pg_tick t_pg_end)
qed

lemma tx_step_trans:
  assumes "conn_step env s a = Some (s', out)" and "a = TxTake \<or> (\<exists>ok. a = TxSent ok) \<or> (\<exists>ok. a = TxEvent ok)"
  shows "conn_trans env s a s' out"
proof (cases a)
  case TxTake
  with assms(1) show ?thesis
    by (auto simp: quiet_def tx_take_def intro: t_drained t_take_end t_take t_take_closed
        split: if_splits list.splits option.splits)
next
  case (TxSent ok)
  with assms(1) show ?thesis
    by (cases "c_tx s"; cases ok)
       (auto simp: tx_sent_def intro: t_sent t_sent_err t_close [of _ _ True, simplified]
          t_close [of _ _ False, simplified])
next
  case (TxEvent ok)
  with assms(1) show ?thesis
    by (cases "c_tx s"; cases ok)
       (auto simp: tx_event_def intro: t_logoff [of _ _ _ _ True, simplified]
          t_logoff [of _ _ _ _ False, simplified] split: if_splits)
qed (use assms in auto)

lemma conn_step_trans: "conn_step env s a = Some (s', out) \<Longrightarrow> conn_trans env s a s' out"
  using rx_step_trans [of env s a s' out] pg_step_trans [of env s a s' out]
    tx_step_trans [of env s a s' out]
  by (cases a) (auto simp: quiet_def intro: t_confirm t_drop t_forget t_loop_send split: if_splits)

section \<open>Closing\<close>

text \<open>The sender task only leaves its loop on a closed connection, and everything that makes it
  leave, or ends the ping handler, has closed the connection before.\<close>

definition closing_inv :: "'m ws_conn \<Rightarrow> bool" where
  "closing_inv s \<longleftrightarrow>
     ((\<forall>m. c_tx s \<noteq> TxSend m) \<and> c_tx s \<noteq> TxNext \<longrightarrow> c_closed s) \<and>
     (None \<in> set (c_queue s) \<longrightarrow> c_closed s) \<and>
     (c_rx s = RxSendEnd \<longrightarrow> c_closed s) \<and>
     (c_pg s = PgSendEnd \<or> c_pg s = PgDone \<longrightarrow> c_closed s)"

lemma closing_rx_first:
  "closing_inv s \<Longrightarrow> closing_inv (rx_first env m s) \<and> (c_closed s \<longrightarrow> c_closed (rx_first env m s))"
  by (cases rule: rx_first_cases [of env m s])
     (auto simp: closing_inv_def rx_fail_def rx_return_def identify_def)

lemma closing_rx_loop:
  "closing_inv s \<Longrightarrow> closing_inv (rx_loop env m s) \<and> (c_closed s \<longrightarrow> c_closed (rx_loop env m s))"
  by (auto simp: closing_inv_def rx_loop_def rx_finish_def Let_def)

lemma closing_queue:
  assumes "closing_inv s" and "queue_send item s = Some (t, sent)" and "item = None \<Longrightarrow> c_closed s"
  shows "closing_inv t \<and> (c_closed s \<longrightarrow> c_closed t)"
  using assms(2) by (cases rule: queue_send_cases) (use assms in \<open>auto simp: closing_inv_def\<close>)

lemma queue_send_fields:
  assumes "queue_send item s = Some (t, sent)"
  shows "c_h t = c_h s" "c_ch t = c_ch s" "c_ping t = c_ping s" "c_closed t = c_closed s"
    "c_err t = c_err s" "c_rx t = c_rx s" "c_pg t = c_pg s" "c_tx t = c_tx s"
    "sent \<longleftrightarrow> c_tx s \<noteq> TxDone"
  using assms by (auto elim!: queue_send_cases)

lemma closing_pg_count:
  "closing_inv s \<Longrightarrow> closing_inv (pg_count s) \<and> (c_closed s \<longrightarrow> c_closed (pg_count s))"
  by (auto simp: closing_inv_def pg_count_def pg_head_def Let_def)

lemma closing_inv_trans:
  assumes "closing_inv s" and "conn_trans env s a s' out"
  shows "closing_inv s' \<and> (c_closed s \<longrightarrow> c_closed s')"
  using assms(2)
proof (cases rule: conn_trans.cases)
  case (t_first m)
  with closing_rx_first [OF assms(1), of env m] show ?thesis by simp
next
  case (t_loop m)
  with closing_rx_loop [OF assms(1), of env m] show ?thesis by simp
next
  case (t_rx_queue item t sent)
  with assms(1) have "closing_inv t \<and> (c_closed s \<longrightarrow> c_closed t)"
    by (intro closing_queue) (auto simp: closing_inv_def)
  with t_rx_queue show ?thesis by (auto simp: closing_inv_def rx_return_def)
next
  case (t_ping t)
  then have "closing_inv t \<and> (c_closed s \<longrightarrow> c_closed t)"
    using closing_queue [OF assms(1) t_ping(5)] by simp
  with closing_pg_count [of t] t_ping(2) show ?thesis by simp
next
  case (t_ping_err t)
  with assms(1) show ?thesis
    by (auto simp: closing_inv_def elim: queue_send_cases)
next
  case (t_pg_end t sent)
  with assms(1) show ?thesis by (auto simp: closing_inv_def elim!: queue_send_cases)
next
  case (t_loop_send m sent)
  with assms(1) show ?thesis by (auto simp: closing_inv_def elim!: queue_send_cases)
next
  case t_drained
  with assms(1) show ?thesis by (auto simp: closing_inv_def senders_alive_def)
qed (use assms(1) in \<open>auto simp: closing_inv_def rx_fail_def rx_return_def rx_finish_def pg_head_def
       tx_cleanup_def\<close>)

lemma closing_inv_reach: "conn_reach env s out \<Longrightarrow> closing_inv s"
proof (induction rule: conn_reach.induct)
  case start
  then show ?case by (simp add: closing_inv_def conn_init_def)
next
  case (step s out a s' out')
  then show ?case using closing_inv_trans [OF _ conn_step_trans] by blast
qed

section \<open>The events of a connection\<close>

fun events_of :: "'m conn_out list \<Rightarrow> 'm ws_event list" where
  "events_of [] = []"
| "events_of (Emit e # out) = e # events_of out"
| "events_of (Frame m # out) = events_of out"

lemma events_of_append [simp]: "events_of (a @ b) = events_of a @ events_of b"
  by (induction a rule: events_of.induct) simp_all

text \<open>After its Init a session posts messages under its own two hashes and logs off last.\<close>

fun msgs_then_logoff :: "u64 \<Rightarrow> u64 \<Rightarrow> 'm ws_event list \<Rightarrow> bool" where
  "msgs_then_logoff h ch [] \<longleftrightarrow> True"
| "msgs_then_logoff h ch (Msg h' ch' m # es) \<longleftrightarrow> h' = h \<and> ch' = ch \<and> h \<noteq> 0 \<and> msgs_then_logoff h ch es"
| "msgs_then_logoff h ch (Logoff h' ch' # es) \<longleftrightarrow> h' = h \<and> ch' = ch \<and> h \<noteq> 0 \<and> ch \<noteq> 0 \<and> es = []"
| "msgs_then_logoff h ch (Init _ _ _ _ _ # es) \<longleftrightarrow> False"

fun is_logoff :: "'m ws_event \<Rightarrow> bool" where
  "is_logoff (Logoff h ch) \<longleftrightarrow> True"
| "is_logoff _ \<longleftrightarrow> False"

definition logged_off :: "'m ws_event list \<Rightarrow> bool" where
  "logged_off es \<longleftrightarrow> list_ex is_logoff es"

lemma msgs_then_logoff_snoc:
  assumes "msgs_then_logoff h ch es" and "\<not> logged_off es" and "msgs_then_logoff h ch [e]"
  shows "msgs_then_logoff h ch (es @ [e])"
  using assms by (induction h ch es rule: msgs_then_logoff.induct) (auto simp: logged_off_def)

text \<open>
  What a connection may tell the event loop: nothing; or, for a valid first frame, a lone Logoff
  (it never joined), or an authenticated Init followed by messages and at most one Logoff.
\<close>

definition session_events :: "('h, 'm) conn_env \<Rightarrow> 'm \<Rightarrow> mles_header \<Rightarrow> 'm ws_event list \<Rightarrow> bool" where
  "session_events env m hdr es \<longleftrightarrow>
     (let h = hash_header (env_sip env) hdr; ch = hash_channel (env_sip env) hdr
      in es = [] \<or> (es = [Logoff h ch] \<and> h \<noteq> 0 \<and> ch \<noteq> 0) \<or>
         (auth_ok env hdr \<and> (\<exists>rest. es = init_of env m hdr # rest \<and> msgs_then_logoff h ch rest)))"

definition joined :: "('h, 'm) conn_env \<Rightarrow> 'm \<Rightarrow> mles_header \<Rightarrow> 'm ws_event list \<Rightarrow> bool" where
  "joined env m hdr es \<longleftrightarrow>
     auth_ok env hdr \<and>
     (\<exists>rest. es = init_of env m hdr # rest \<and>
       msgs_then_logoff (hash_header (env_sip env) hdr) (hash_channel (env_sip env) hdr) rest)"

lemma joined_session: "joined env m hdr es \<Longrightarrow> session_events env m hdr es"
  by (auto simp: joined_def session_events_def Let_def)

lemma joined_snoc:
  assumes "joined env m hdr es" and "\<not> logged_off es"
    and "msgs_then_logoff (hash_header (env_sip env) hdr) (hash_channel (env_sip env) hdr) [e]"
  shows "joined env m hdr (es @ [e])"
  using assms msgs_then_logoff_snoc [of _ _ _ e]
  by (auto simp: joined_def logged_off_def)

text \<open>Which events the receiver's position goes with.\<close>

fun rx_agrees ::
  "('h, 'm) conn_env \<Rightarrow> 'm \<Rightarrow> mles_header \<Rightarrow> 'm rx_pc \<Rightarrow> 'm ws_event list \<Rightarrow> bool" where
  "rx_agrees env m hdr RxFirst es \<longleftrightarrow> False"
| "rx_agrees env m hdr (RxSendInit e) es \<longleftrightarrow> auth_ok env hdr \<and> e = init_of env m hdr \<and> es = []"
| "rx_agrees env m hdr (RxSendMsg e) es \<longleftrightarrow>
     joined env m hdr es \<and> \<not> logged_off es \<and>
     (\<exists>m'. e = Msg (hash_header (env_sip env) hdr) (hash_channel (env_sip env) hdr) m') \<and>
     hash_header (env_sip env) hdr \<noteq> 0"
| "rx_agrees env m hdr RxDone es \<longleftrightarrow> session_events env m hdr es"
| "rx_agrees env m hdr _ es \<longleftrightarrow> joined env m hdr es"

definition identified :: "('h, 'm) conn_env \<Rightarrow> 'm ws_conn \<Rightarrow> 'm ws_event list \<Rightarrow> 'm \<Rightarrow> mles_header \<Rightarrow> bool" where
  "identified env s es m hdr \<longleftrightarrow>
     valid_first env m hdr \<and>
     (c_h s, c_ch s) \<in> {(hash_header (env_sip env) hdr, hash_channel (env_sip env) hdr), (0, 0)} \<and>
     rx_agrees env m hdr (c_rx s) es \<and>
     (\<forall>a b. c_tx s = TxLogoff a b \<longrightarrow>
        a = hash_header (env_sip env) hdr \<and> b = hash_channel (env_sip env) hdr \<and> a \<noteq> 0 \<and> b \<noteq> 0) \<and>
     (logged_off es \<longrightarrow> c_tx s = TxDone)"

definition unidentified :: "'m ws_conn \<Rightarrow> 'm ws_event list \<Rightarrow> bool" where
  "unidentified s es \<longleftrightarrow>
     es = [] \<and> c_h s = 0 \<and> c_ch s = 0 \<and> (\<forall>a b. c_tx s \<noteq> TxLogoff a b) \<and>
     c_err s \<in> {ErrHeld, ErrGone} \<and>
     (c_rx s = RxFirst \<and> c_err s = ErrHeld \<or> c_rx s = RxAwaitErr \<and> c_err s = ErrHeld \<or> c_rx s = RxDone)"

definition trace_inv :: "('h, 'm) conn_env \<Rightarrow> 'm ws_conn \<Rightarrow> 'm ws_event list \<Rightarrow> bool" where
  "trace_inv env s es \<longleftrightarrow> unidentified s es \<or> (\<exists>m hdr. identified env s es m hdr)"

lemma unidentified_first:
  assumes "unidentified s es" and "c_rx s = RxFirst"
  shows "unidentified (rx_first env m s) es \<or> (\<exists>hdr. identified env (rx_first env m s) es m hdr)"
proof (cases rule: rx_first_cases [of env m s])
  case refused
  with assms show ?thesis by (auto simp: unidentified_def rx_fail_def rx_return_def)
next
  case (denied hdr)
  with assms have "identified env (rx_first env m s) es m hdr"
    by (auto simp: unidentified_def identified_def rx_fail_def rx_return_def identify_def
        session_events_def logged_off_def)
  then show ?thesis by blast
next
  case (accepted hdr)
  with assms have "identified env (rx_first env m s) es m hdr"
    by (auto simp: unidentified_def identified_def identify_def logged_off_def)
  then show ?thesis by blast
qed

lemma unidentified_frame:
  assumes "unidentified s es" and "c_h t = c_h s" "c_ch t = c_ch s" "c_rx t = c_rx s"
    "c_err t = c_err s" and "c_tx t = c_tx s \<or> c_tx t \<in> {TxNext, TxClose, TxDone} \<or> (\<exists>m. c_tx t = TxSend m)"
  shows "unidentified t es"
  using assms by (auto simp: unidentified_def)

text \<open>A connection is identified by its first frame, and by nothing else.\<close>

lemma unidentified_trans:
  assumes "unidentified s es" and "conn_trans env s a s' out"
  shows "unidentified s' (es @ events_of out) \<or>
    (\<exists>m hdr. a = RxFrame m \<and> c_rx s = RxFirst \<and> identified env s' (es @ events_of out) m hdr)"
  using assms(2)
proof (cases rule: conn_trans.cases)
  case (t_first m)
  with unidentified_first [OF assms(1), of env m] show ?thesis by simp
next
  case t_no_first
  with assms(1) show ?thesis by (simp add: unidentified_def)
next
  case (t_rx_queue item t sent)
  with assms(1) show ?thesis by (auto simp: unidentified_def)
next
  case (t_ping t)
  with queue_send_fields [OF t_ping(5)] show ?thesis
    using unidentified_frame [OF assms(1), of s'] by (simp add: pg_count_def pg_head_def Let_def)
next
  case (t_ping_err t)
  with queue_send_fields [OF t_ping_err(5)] show ?thesis
    using unidentified_frame [OF assms(1), of s'] by simp
next
  case (t_pg_end t sent)
  with queue_send_fields [OF t_pg_end(5)] show ?thesis
    using unidentified_frame [OF assms(1), of s'] by simp
next
  case (t_loop_send m sent)
  with queue_send_fields [OF t_loop_send(4)] show ?thesis
    using unidentified_frame [OF assms(1), of s'] by simp
next
  case (t_close ok)
  then show ?thesis
    using assms(1) unidentified_frame [OF assms(1), of s']
    by (simp add: unidentified_def tx_cleanup_def)
next
  case (t_logoff hval chval ok)
  with assms(1) show ?thesis by (simp add: unidentified_def)
qed (use assms(1) unidentified_frame [OF assms(1), of s'] in
      \<open>simp_all add: unidentified_def pg_head_def\<close>)

text \<open>The receiver waits for its first frame only while it has got none.\<close>

lemma rx_first_kept:
  assumes "conn_trans env s a s' out" and "c_rx s' = RxFirst"
  shows "c_rx s = RxFirst \<and> (\<forall>m. a \<noteq> RxFrame m)"
  using assms(1)
proof (cases rule: conn_trans.cases)
  case (t_first m)
  with assms(2) show ?thesis
    by (cases rule: rx_first_cases [of env m s]) (auto simp: rx_fail_def rx_return_def identify_def)
next
  case (t_loop m)
  with assms(2) show ?thesis by (auto simp: rx_loop_def rx_finish_def Let_def split: if_splits)
next
  case (t_rx_queue item t sent)
  with assms(2) show ?thesis by (simp add: rx_return_def)
next
  case (t_ping t)
  with queue_send_fields [OF t_ping(5)] assms(2) show ?thesis by (simp add: pg_count_def pg_head_def Let_def split: if_splits)
next
  case (t_ping_err t)
  with queue_send_fields [OF t_ping_err(5)] assms(2) show ?thesis by simp
next
  case (t_pg_end t sent)
  with queue_send_fields [OF t_pg_end(5)] assms(2) show ?thesis by simp
next
  case (t_loop_send m sent)
  with queue_send_fields [OF t_loop_send(4)] assms(2) show ?thesis by simp
qed (use assms(2) in \<open>auto simp: rx_finish_def rx_fail_def rx_return_def pg_head_def tx_cleanup_def split: if_splits\<close>)

lemma identified_frame:
  assumes "c_h t = c_h s" "c_ch t = c_ch s" "c_rx t = c_rx s" "c_tx t = c_tx s"
  shows "identified env t es m hdr = identified env s es m hdr"
  using assms by (simp add: identified_def)

lemma identified_rx:
  assumes "identified env s es m hdr" and "rx_agrees env m hdr pc (es @ new)"
    and "c_h t = c_h s" "c_ch t = c_ch s" "c_rx t = pc" "c_tx t = c_tx s" and "\<not> logged_off new"
  shows "identified env t (es @ new) m hdr"
  using assms by (auto simp: identified_def logged_off_def)

lemma logged_off_append [simp]: "logged_off (a @ b) \<longleftrightarrow> logged_off a \<or> logged_off b"
  by (simp add: logged_off_def)

lemma logged_off_simps [simp]:
  "\<not> logged_off []" "logged_off (e # es) \<longleftrightarrow> is_logoff e \<or> logged_off es"
  by (simp_all add: logged_off_def)

lemma init_of_not_logoff [simp]: "\<not> is_logoff (init_of env m hdr)"
  by (simp add: init_of_def)

lemma joined_init: "auth_ok env hdr \<Longrightarrow> joined env m hdr [init_of env m hdr]"
  by (simp add: joined_def)

lemma session_logoff:
  assumes "session_events env m hdr es" and "\<not> logged_off es"
    and "hash_header (env_sip env) hdr \<noteq> 0" and "hash_channel (env_sip env) hdr \<noteq> 0"
  shows "session_events env m hdr
    (es @ [Logoff (hash_header (env_sip env) hdr) (hash_channel (env_sip env) hdr)])"
proof (cases "es = []")
  case False
  with assms have "joined env m hdr es"
    by (auto simp: session_events_def joined_def Let_def)
  then show ?thesis using assms by (intro joined_session joined_snoc) simp_all
qed (use assms in \<open>simp add: session_events_def Let_def\<close>)

lemma identified_loop:
  assumes "identified env s es m hdr" and "closing_inv s" and "c_rx s = RxNext"
  shows "identified env (rx_loop env m' s) es m hdr"
proof -
  have j: "joined env m hdr es" using assms(1,3) by (simp add: identified_def)
  show ?thesis
  proof (cases "\<not> c_closed s \<and> c_h s \<noteq> 0 \<and> \<not> is_close (env_msg env) m' \<and> \<not> is_pong (env_msg env) m'")
    case True
    then have "\<not> logged_off es"
      using assms(1,2) by (auto simp: identified_def closing_inv_def)
    with True j assms(1) show ?thesis
      by (auto simp: identified_def rx_loop_def)
  next
    case False
    with j assms(1,3) show ?thesis
      by (auto simp: identified_def rx_loop_def rx_finish_def Let_def)
  qed
qed

lemma identified_logoff:
  assumes "identified env s es m hdr" and "c_tx s = TxLogoff a b" and "\<not> rx_event_pending s"
  shows "identified env (s\<lparr>c_h := 0, c_ch := 0, c_tx := TxDone\<rparr>)
    (es @ (if ok then [Logoff a b] else [])) m hdr"
proof -
  have nl: "\<not> logged_off es"
    and ab: "a = hash_header (env_sip env) hdr" "b = hash_channel (env_sip env) hdr" "a \<noteq> 0" "b \<noteq> 0"
    and ag: "rx_agrees env m hdr (c_rx s) es"
    using assms(1,2) by (auto simp: identified_def)
  have j: "joined env m hdr es \<Longrightarrow> joined env m hdr (es @ [Logoff a b])"
    using nl ab by (intro joined_snoc) simp_all
  have "rx_agrees env m hdr (c_rx s) (es @ [Logoff a b])"
    using assms(3) ag j session_logoff [OF _ nl] ab
    by (cases "c_rx s") (simp_all add: rx_event_pending_def)
  with assms(1) ag show ?thesis by (simp add: identified_def)
qed

lemma identified_trans:
  assumes "identified env s es m hdr" and "closing_inv s" and "conn_trans env s a s' out"
  shows "identified env s' (es @ events_of out) m hdr"
  using assms(3)
proof (cases rule: conn_trans.cases)
  case (t_first m)
  with assms(1) show ?thesis by (simp add: identified_def)
next
  case (t_loop m)
  with identified_loop [OF assms(1,2)] show ?thesis by simp
next
  case (t_init e)
  with assms(1) have "e = init_of env m hdr" "auth_ok env hdr" "es = []"
    by (simp_all add: identified_def)
  with t_init assms(1) show ?thesis
    by (intro identified_rx [OF assms(1), of RxAwaitErr]) (simp_all add: joined_init)
next
  case (t_msg e)
  then have "rx_agrees env m hdr (RxSendMsg e) es" using assms(1) by (simp add: identified_def)
  with t_msg show ?thesis
    by (intro identified_rx [OF assms(1), of RxNext]) (auto intro!: joined_snoc)
next
  case (t_rx_queue item t sent)
  then have "joined env m hdr es" using assms(1) by (auto simp: identified_def)
  with t_rx_queue queue_send_fields [OF t_rx_queue(5)] show ?thesis
    by (intro identified_rx [OF assms(1), of RxDone]) (simp_all add: rx_return_def joined_session)
next
  case (t_logoff hval chval ok)
  with identified_logoff [OF assms(1), of hval chval ok] show ?thesis by (cases ok) simp_all
next
  case (t_ping t)
  with queue_send_fields [OF t_ping(5)] assms(1) show ?thesis
    by (subst identified_frame [of s' s]) (simp_all add: pg_count_def pg_head_def Let_def)
next
  case (t_ping_err t)
  with queue_send_fields [OF t_ping_err(5)] assms(1) show ?thesis
    by (subst identified_frame [of s' s]) simp_all
next
  case (t_pg_end t sent)
  with queue_send_fields [OF t_pg_end(5)] assms(1) show ?thesis
    by (subst identified_frame [of s' s]) simp_all
next
  case (t_loop_send m sent)
  with queue_send_fields [OF t_loop_send(4)] assms(1) show ?thesis
    by (subst identified_frame [of s' s]) simp_all
next
  case (t_close ok)
  with assms(1) show ?thesis by (auto simp: identified_def tx_cleanup_def)
qed (use assms(1) in \<open>auto simp: identified_def rx_finish_def rx_fail_def rx_return_def pg_head_def
       session_events_def\<close>)

lemma trace_inv_reach: "conn_reach env s out \<Longrightarrow> trace_inv env s (events_of out)"
proof (induction rule: conn_reach.induct)
  case start
  then show ?case by (simp add: trace_inv_def unidentified_def conn_init_def)
next
  case (step s out a s' out')
  note tr = conn_step_trans [OF step.hyps(2)] and cl = closing_inv_reach [OF step.hyps(1)]
  from step.IH consider "unidentified s (events_of out)"
    | m hdr where "identified env s (events_of out) m hdr"
    by (auto simp: trace_inv_def)
  then show ?case
  proof cases
    case 1
    from unidentified_trans [OF this tr] show ?thesis by (auto simp: trace_inv_def)
  next
    case 2
    from identified_trans [OF this cl tr] show ?thesis
      unfolding trace_inv_def events_of_append by blast
  qed
qed

end
