(* ===== verification/Ws_Session.thy ===== *)
theory Ws_Session
  imports Ws_Conn
begin

text \<open>
  What the connections of \<^verbatim>\<open>Ws_Conn\<close> guarantee: how a silent client is pinged and closed, how a closed
  connection winds down, and two ways in which a client's behaviour reaches beyond its own
  connection.
\<close>

section \<open>Runs\<close>

lemma conn_run_Cons:
  "conn_run env s (a # as) = Some (t, out) \<longleftrightarrow>
   (\<exists>s' out1 out2. conn_step env s a = Some (s', out1) \<and> conn_run env s' as = Some (t, out2) \<and>
      out = out1 @ out2)"
  by (auto split: option.splits)

lemma conn_run_reach:
  "conn_reach env s out \<Longrightarrow> conn_run env s as = Some (t, out') \<Longrightarrow> conn_reach env t (out @ out')"
proof (induction as arbitrary: s out out')
  case (Cons a as)
  then obtain s' out1 out2 where *: "conn_step env s a = Some (s', out1)"
    "conn_run env s' as = Some (t, out2)" "out' = out1 @ out2"
    using conn_run_Cons by blast
  with Cons.IH [OF conn_reach.step [OF Cons.prems(1) *(1)] *(2)] show ?case by simp
qed simp

lemmas conn_run_init_reach = conn_run_reach [OF conn_reach.start, simplified]

text \<open>A state property that every transition keeps is kept by every run.\<close>

lemma conn_run_stable:
  assumes "conn_run env s as = Some (t, out)" and "P s"
    and "\<And>s a s' out. P s \<Longrightarrow> a \<in> set as \<Longrightarrow> conn_trans env s a s' out \<Longrightarrow> P s'"
  shows "P t"
  using assms
proof (induction as arbitrary: s out)
  case (Cons a as)
  then obtain s' out1 out2 where *: "conn_step env s a = Some (s', out1)"
    "conn_run env s' as = Some (t, out2)"
    using conn_run_Cons by blast
  have ps: "P s'" using Cons.prems(3) [OF Cons.prems(2) _ conn_step_trans [OF *(1)]] by simp
  show ?case
  proof (rule Cons.IH [OF *(2) ps])
    fix u b u' out'
    assume "P u" "b \<in> set as" "conn_trans env u b u' out'"
    then show "P u'" by (rule_tac Cons.prems(3) [of u b u' out']) simp_all
  qed
qed simp

section \<open>A sample environment\<close>

text \<open>
  Frames are strings; control frames start with an exclamation mark. One header is understood.
  The hash is the length of what was hashed.
\<close>

definition demo_env :: "(string, string) conn_env" where
  "demo_env =
     \<lparr>env_msg =
        \<lparr>is_text = (\<lambda>m. m \<noteq> [] \<and> hd m \<noteq> CHR ''!''), to_str = Some, is_close = (\<lambda>m. m = ''!close''),
         is_pong = (\<lambda>m. m = ''!pong''), ping_msg = ''!ping'', close_msg = ''!close''\<rparr>,
      env_parse =
        (\<lambda>t. if t = ''join'' then Some \<lparr>uid = ''alice'', channel = ''room'', auth = None\<rparr> else None),
      env_sip =
        \<lparr>sip_new = [], sip_write = (\<lambda>st bs. st @ bs), sip_finish = (\<lambda>st. of_nat (length st)),
         sip_hash = (\<lambda>st bs. of_nat (length st + length bs))\<rparr>,
      env_key = None, env_tx2 = 11, env_err = 21\<rparr>"

definition demo_hdr :: mles_header where
  "demo_hdr = \<lparr>uid = ''alice'', channel = ''room'', auth = None\<rparr>"

lemma demo_hashes:
  "hash_header (env_sip demo_env) demo_hdr = 19" "hash_channel (env_sip demo_env) demo_hdr = 4"
  by code_simp+

lemma demo_valid: "valid_first demo_env ''join'' demo_hdr" "auth_ok demo_env demo_hdr"
  by code_simp+

section \<open>The events of a connection\<close>

lemma rx_agrees_session: "rx_agrees env m hdr pc es \<Longrightarrow> session_events env m hdr es"
  using joined_session [of env m hdr es]
  by (cases pc) (simp_all add: session_events_def [of _ _ _ "[]"] Let_def)

section \<open>A lost first frame\<close>

text \<open>The connection's stream, with its per-source permit, is dropped when both tasks that own a
  half of the socket have ended.\<close>

definition holds_stream :: "'m ws_conn \<Rightarrow> bool" where
  "holds_stream s \<longleftrightarrow> c_rx s \<noteq> RxDone \<or> c_tx s \<noteq> TxDone"

definition stuck :: "'m ws_conn \<Rightarrow> bool" where
  "stuck s \<longleftrightarrow> c_rx s = RxAwaitErr \<and> c_err s = ErrHeld"

lemma stuck_trans:
  assumes "stuck s" and "conn_trans env s a s' out"
  shows "stuck s'"
  using assms(2)
proof (cases rule: conn_trans.cases)
  case (t_ping t)
  with assms(1) queue_send_fields [OF t_ping(5)] show ?thesis
    by (simp add: stuck_def pg_count_def pg_head_def Let_def)
next
  case (t_ping_err t)
  with assms(1) queue_send_fields [OF t_ping_err(5)] show ?thesis by (simp add: stuck_def)
next
  case (t_pg_end t sent)
  with assms(1) queue_send_fields [OF t_pg_end(5)] show ?thesis by (simp add: stuck_def)
next
  case (t_loop_send m sent)
  with assms(1) queue_send_fields [OF t_loop_send(4)] show ?thesis by (simp add: stuck_def)
qed (use assms(1) in \<open>auto simp: stuck_def pg_head_def tx_cleanup_def\<close>)

lemma first_err_held: "conn_reach env s out \<Longrightarrow> c_rx s = RxFirst \<Longrightarrow> c_err s = ErrHeld"
  using trace_inv_reach [of env s out]
  by (auto simp: trace_inv_def unidentified_def identified_def)

text \<open>When the client's stream ends or fails before its first frame, the receiver task waits
  for a confirmation that only it could send. Whatever happens afterwards it never ends, so the
  stream and its per-source permit are held for ever.\<close>

theorem lost_first_frame_leaks:
  assumes "conn_run env conn_init as = Some (s, out)" and "c_rx s = RxFirst"
    and "conn_run env s (RxEnd # bs) = Some (t, out')"
  shows "holds_stream t \<and> conn_step env t RxErr = None \<and> c_rx t = RxAwaitErr"
proof -
  have "c_err s = ErrHeld"
    using first_err_held [OF conn_run_init_reach [OF assms(1)] assms(2)] .
  then have "stuck (s\<lparr>c_rx := RxAwaitErr\<rparr>)" by (simp add: stuck_def)
  moreover obtain out2 where "conn_run env (s\<lparr>c_rx := RxAwaitErr\<rparr>) bs = Some (t, out2)"
    using assms(2,3) by (auto simp: quiet_def rx_end_def split: option.splits)
  ultimately have "stuck t" by (rule_tac conn_run_stable [where P = stuck]) (auto intro: stuck_trans)
  then show ?thesis by (simp add: stuck_def holds_stream_def quiet_def rx_err_def)
qed

definition demo_leak :: "string conn_act list" where
  "demo_leak = [PgFires, PgFires, PgQueue, TxTake, TxSent False, TxSent False, PgFires, PgQueue]"

theorem lost_first_frame_leaks_witness:
  "map_option (\<lambda>(t, out). (holds_stream t, c_tx t, c_pg t)) (conn_run demo_env conn_init (RxEnd # demo_leak)) =
   Some (True, TxDone, PgDone)"
proof -
  have ends: "map_option (\<lambda>(t, out). (c_tx t, c_pg t)) (conn_run demo_env conn_init (RxEnd # demo_leak)) =
        Some (TxDone, PgDone)"
    by code_simp
  then obtain t out where run: "conn_run demo_env conn_init (RxEnd # demo_leak) = Some (t, out)"
    by (auto simp del: conn_run.simps)
  have "holds_stream t"
    using lost_first_frame_leaks [of demo_env "[]" conn_init "[]" demo_leak t out] run
    by (simp add: conn_init_def del: conn_run.simps(2))
  with ends run show ?thesis by (simp del: conn_run.simps)
qed

section \<open>Budgets\<close>

text \<open>
  A run's cost is what its actions and its outputs cost. If every transition pays its cost out of
  a budget of the state, so does the run.
\<close>

lemma conn_run_budget:
  assumes "conn_run env s as = Some (t, out)" and "P s"
    and "\<And>s a s' out. P s \<Longrightarrow> a \<in> set as \<Longrightarrow> conn_trans env s a s' out \<Longrightarrow>
           P s' \<and> B s' + ca a + sum_list (map co out) \<le> (B s :: nat)"
  shows "P t \<and> B t + sum_list (map ca as) + sum_list (map co out) \<le> B s"
  using assms
proof (induction as arbitrary: s out)
  case (Cons a as)
  then obtain s' out1 out2 where *: "conn_step env s a = Some (s', out1)"
    "conn_run env s' as = Some (t, out2)" "out = out1 @ out2"
    using conn_run_Cons by blast
  have now: "P s' \<and> B s' + ca a + sum_list (map co out1) \<le> B s"
    using Cons.prems(3) [OF Cons.prems(2) _ conn_step_trans [OF *(1)]] by simp
  have "P t \<and> B t + sum_list (map ca as) + sum_list (map co out2) \<le> B s'"
  proof (rule Cons.IH [OF *(2) now [THEN conjunct1]])
    fix u b u' out'
    assume "P u" "b \<in> set as" "conn_trans env u b u' out'"
    then show "P u' \<and> B u' + ca b + sum_list (map co out') \<le> B u"
      by (rule_tac Cons.prems(3) [of u b u' out']) simp_all
  qed
  with now *(3) show ?case by simp
qed simp

definition is_fire :: "'m conn_act \<Rightarrow> nat" where
  "is_fire a = (if a = PgFires then 1 else 0)"

section \<open>A silent client\<close>

definition live_pings :: "ping_pc set" where
  "live_pings = {PgStart, PgTick, PgSendPing}"

text \<open>The counter of unanswered pings stays below four while the handler is at work, and the connection
  is closed when it gets there.\<close>

definition ping_inv :: "'m ws_conn \<Rightarrow> bool" where
  "ping_inv s \<longleftrightarrow>
     (c_pg s \<in> live_pings \<longrightarrow> unat (c_ping s) \<le> 3) \<and> unat (c_ping s) \<le> 4 \<and>
     (unat (c_ping s) = 4 \<longrightarrow> c_closed s)"

text \<open>Whether a step puts a ping into the queue, whether the handler has still to start its interval, and
  whether it has a ping to send.\<close>

definition ping_out :: "'m ws_conn \<Rightarrow> 'm conn_act \<Rightarrow> nat" where
  "ping_out s a = (if a = PgQueue \<and> c_pg s = PgSendPing \<and> c_tx s \<noteq> TxDone then 1 else 0)"

definition unstarted :: "'m ws_conn \<Rightarrow> nat" where
  "unstarted s = (if c_pg s = PgStart then 1 else 0)"

definition ping_due :: "'m ws_conn \<Rightarrow> nat" where
  "ping_due s = (if c_pg s = PgSendPing then 1 else 0)"

fun pings_queued :: "('h, 'm) conn_env \<Rightarrow> 'm ws_conn \<Rightarrow> 'm conn_act list \<Rightarrow> nat" where
  "pings_queued env s [] = 0"
| "pings_queued env s (a # as) =
     ping_out s a + (case conn_step env s a of None \<Rightarrow> 0 | Some (s', out) \<Rightarrow> pings_queued env s' as)"

definition same_ping :: "'m ws_conn \<Rightarrow> 'm ws_conn \<Rightarrow> bool" where
  "same_ping s t \<longleftrightarrow> c_pg t = c_pg s \<and> c_ping t = c_ping s"

lemma same_ping_first: "same_ping s (rx_first env m s)"
  by (cases rule: rx_first_cases [of env m s])
     (auto simp: same_ping_def rx_fail_def rx_return_def identify_def)

text \<open>Only the ping handler and the receiver's reset touch the counter.\<close>

lemma same_ping_trans:
  assumes "conn_trans env s a s' out" and "a \<noteq> PgFires" and "a \<noteq> PgQueue" and "\<forall>m. a \<noteq> RxFrame m"
  shows "same_ping s s'"
  using assms(1)
proof (cases rule: conn_trans.cases)
  case (t_rx_queue item t sent)
  with queue_send_fields [OF t_rx_queue(5)] show ?thesis by (simp add: same_ping_def rx_return_def)
next
  case (t_loop_send m sent)
  with queue_send_fields [OF t_loop_send(4)] show ?thesis by (simp add: same_ping_def)
qed (use assms(2-4) in \<open>simp_all add: same_ping_def rx_finish_def rx_fail_def rx_return_def tx_cleanup_def\<close>)

lemma ping_count:
  assumes "ping_inv s" and "c_pg s = PgSendPing"
  shows "ping_inv (pg_count s)" "unat (c_ping (pg_count s)) = unat (c_ping s) + 1"
    "c_pg (pg_count s) = PgTick \<or> c_closed (pg_count s)"
proof -
  have le: "unat (c_ping s) \<le> 3" using assms by (simp add: ping_inv_def live_pings_def)
  then have inc: "unat (c_ping s + 1) = unat (c_ping s) + 1"
    by (intro unat_inc [of _ 4]) (simp add: word_less_nat_alt)
  have gt: "c_ping s > 2 \<longleftrightarrow> unat (c_ping s) > 2" by (simp add: word_less_nat_alt)
  show "ping_inv (pg_count s)"
    using le inc gt by (auto simp: pg_count_def pg_head_def ping_inv_def live_pings_def Let_def)
  show "unat (c_ping (pg_count s)) = unat (c_ping s) + 1"
    using inc by (simp add: pg_count_def pg_head_def Let_def)
  show "c_pg (pg_count s) = PgTick \<or> c_closed (pg_count s)"
    by (simp add: pg_count_def pg_head_def Let_def)
qed

text \<open>A step without a frame from the client counts the ping it sends, if any; and on an open
  connection a tick either starts the interval or makes a ping due.\<close>

lemma ping_trans:
  assumes "ping_inv s" and "closing_inv s" and "conn_trans env s a s' out" and "\<forall>m. a \<noteq> RxFrame m"
  shows "ping_inv s'" "unat (c_ping s') = unat (c_ping s) + ping_out s a"
    "\<not> c_closed s' \<Longrightarrow> is_fire a + ping_due s + unstarted s' = ping_out s a + ping_due s' + unstarted s"
proof -
  note cl = closing_inv_trans [OF assms(2,3)]
  have "ping_inv s' \<and> unat (c_ping s') = unat (c_ping s) + ping_out s a \<and>
    (\<not> c_closed s' \<longrightarrow> is_fire a + ping_due s + unstarted s' = ping_out s a + ping_due s' + unstarted s)"
  proof (cases "a = PgFires \<or> a = PgQueue")
    case False
    then have "same_ping s s'" using same_ping_trans [OF assms(3) _ _ assms(4)] by simp
    with False assms(1) cl show ?thesis
      by (auto simp: same_ping_def ping_inv_def ping_out_def is_fire_def ping_due_def unstarted_def)
  next
    case True
    from assms(3) show ?thesis
    proof (cases rule: conn_trans.cases)
      case (t_ping t)
      note f = queue_send_fields [OF t_ping(5)]
      have "ping_inv t" "c_pg t = PgSendPing" using f assms(1) t_ping by (simp_all add: ping_inv_def)
      with ping_count [of t] f t_ping show ?thesis
        by (auto simp: ping_out_def is_fire_def ping_due_def unstarted_def)
    next
      case (t_ping_err t)
      with queue_send_fields [OF t_ping_err(5)] assms(1) cl show ?thesis
        by (auto simp: ping_inv_def live_pings_def ping_out_def closing_inv_def)
    next
      case (t_pg_end t sent)
      with queue_send_fields [OF t_pg_end(5)] assms(1) cl show ?thesis
        by (auto simp: ping_inv_def live_pings_def ping_out_def closing_inv_def)
    next
      case t_pg_start
      with assms(1) show ?thesis
        by (auto simp: ping_inv_def live_pings_def ping_out_def is_fire_def ping_due_def unstarted_def pg_head_def)
    next
      case t_pg_tick
      with assms(1) show ?thesis
        by (auto simp: ping_inv_def live_pings_def ping_out_def is_fire_def ping_due_def unstarted_def)
    qed (use True in simp_all)
  qed
  then show "ping_inv s'" "unat (c_ping s') = unat (c_ping s) + ping_out s a"
    "\<not> c_closed s' \<Longrightarrow> is_fire a + ping_due s + unstarted s' = ping_out s a + ping_due s' + unstarted s"
    by simp_all
qed

lemma ping_inv_frame:
  assumes "ping_inv s" and "conn_trans env s (RxFrame m) s' out"
  shows "ping_inv s'"
  using assms(2)
proof (cases rule: conn_trans.cases)
  case t_first
  moreover have "c_closed s \<longrightarrow> c_closed (rx_first env m s)"
    by (cases rule: rx_first_cases [of env m s]) (auto simp: rx_fail_def rx_return_def identify_def)
  ultimately show ?thesis
    using same_ping_first [of s env m] assms(1) by (auto simp: ping_inv_def same_ping_def)
next
  case t_loop
  with assms(1) show ?thesis by (auto simp: ping_inv_def rx_loop_def rx_finish_def Let_def)
qed

lemma ping_inv_reach: "conn_reach env s out \<Longrightarrow> ping_inv s"
proof (induction rule: conn_reach.induct)
  case start
  then show ?case by (simp add: ping_inv_def conn_init_def)
next
  case (step s out a s' out')
  note tr = conn_step_trans [OF step.hyps(2)]
  show ?case
  proof (cases "\<exists>m. a = RxFrame m")
    case True
    with ping_inv_frame [OF step.IH] tr show ?thesis by blast
  next
    case False
    then show ?thesis using ping_trans(1) [OF step.IH closing_inv_reach [OF step.hyps(1)] tr] by simp
  qed
qed

lemma silent_run:
  assumes "conn_run env s bs = Some (t, out)" and "\<forall>m. RxFrame m \<notin> set bs"
    and "ping_inv s" and "closing_inv s"
  shows "ping_inv t \<and> closing_inv t \<and> unat (c_ping t) = unat (c_ping s) + pings_queued env s bs \<and>
    (\<not> c_closed t \<longrightarrow> sum_list (map is_fire bs) + ping_due s + unstarted t =
                       pings_queued env s bs + ping_due t + unstarted s)"
  using assms
proof (induction bs arbitrary: s out)
  case (Cons a bs)
  then obtain s' o1 o2 where st: "conn_step env s a = Some (s', o1)" and run: "conn_run env s' bs = Some (t, o2)"
    using conn_run_Cons by blast
  have nf: "\<forall>m. a \<noteq> RxFrame m" "\<forall>m. RxFrame m \<notin> set bs" using Cons.prems(2) by auto
  note tr = conn_step_trans [OF st]
  note p = ping_trans [OF Cons.prems(3,4) tr nf(1)] and c = closing_inv_trans [OF Cons.prems(4) tr]
  have ih: "ping_inv t \<and> closing_inv t \<and> unat (c_ping t) = unat (c_ping s') + pings_queued env s' bs \<and>
    (\<not> c_closed t \<longrightarrow> sum_list (map is_fire bs) + ping_due s' + unstarted t =
                       pings_queued env s' bs + ping_due t + unstarted s')"
    using Cons.IH [OF run nf(2) p(1)] c by blast
  have "\<not> c_closed s'" if "\<not> c_closed t"
    using conn_run_stable [where P = "\<lambda>u. closing_inv u \<and> c_closed u", OF run] closing_inv_trans c that by blast
  then show ?case using ih p(2,3) st by (cases "c_closed t") simp_all
qed simp

text \<open>C30: a client that falls silent is pinged at most four times. From any state of a connection on,
  as long as no frame comes from the client: every ping that is queued is counted, the count never
  exceeds four (so it does not wrap), and at four, counting the pings that were unanswered before,
  the connection is closed. And it gets there: while the connection is open, every tick of the
  interval but the one that starts it has queued its ping or is about to.\<close>

theorem silent_client_closed:
  assumes "conn_run env conn_init as = Some (s, out)" and "conn_run env s bs = Some (t, out')"
    and "\<forall>m. RxFrame m \<notin> set bs"
  shows "unat (c_ping t) = unat (c_ping s) + pings_queued env s bs \<and>
         unat (c_ping s) + pings_queued env s bs \<le> 4 \<and>
         (unat (c_ping s) + pings_queued env s bs = 4 \<longrightarrow> c_closed t) \<and>
         (\<not> c_closed t \<longrightarrow> sum_list (map is_fire bs) + ping_due s + unstarted t =
                            pings_queued env s bs + ping_due t + unstarted s)"
proof -
  have reach: "conn_reach env s out" using conn_run_init_reach [OF assms(1)] .
  show ?thesis
    using silent_run [OF assms(2,3) ping_inv_reach [OF reach] closing_inv_reach [OF reach]]
    by (auto simp: ping_inv_def)
qed

definition demo_silent :: "string conn_act list" where
  "demo_silent = PgFires # concat (replicate 4 [PgFires, PgQueue, TxTake, TxSent True])"

theorem silent_client_closed_witness:
  "map_option (\<lambda>(t, out). c_closed t) (conn_run demo_env conn_init (butlast (butlast demo_silent))) = Some True"
proof -
  have defined: "conn_run demo_env conn_init (butlast (butlast demo_silent)) \<noteq> None" by code_simp
  then obtain t out where run: "conn_run demo_env conn_init (butlast (butlast demo_silent)) = Some (t, out)"
    by (auto simp del: conn_run.simps)
  have "\<forall>m. RxFrame m \<notin> set (butlast (butlast demo_silent))"
    by (simp add: demo_silent_def numeral_eq_Suc)
  moreover have "unat (c_ping (conn_init :: string ws_conn)) + pings_queued demo_env conn_init (butlast (butlast demo_silent)) = 4"
    by code_simp
  ultimately have "c_closed t"
    using silent_client_closed [of demo_env "[]" conn_init "[]", OF _ run] by simp
  with run show ?thesis by (simp del: conn_run.simps)
qed

section \<open>A closed connection\<close>

definition is_frame :: "'m conn_out \<Rightarrow> nat" where
  "is_frame x = (case x of Frame m \<Rightarrow> 1 | Emit e \<Rightarrow> 0)"

text \<open>What a closed connection may still do: write the frame in flight and a Close, and let its
  ping interval tick once.\<close>

definition frames_left :: "'m ws_conn \<Rightarrow> nat" where
  "frames_left s =
     (case c_tx s of TxNext \<Rightarrow> 1 | TxSend m \<Rightarrow> 2 | TxClose \<Rightarrow> 1 | _ \<Rightarrow> 0)"

definition ticks_left :: "'m ws_conn \<Rightarrow> nat" where
  "ticks_left s = (case c_pg s of PgStart \<Rightarrow> 1 | PgTick \<Rightarrow> 1 | _ \<Rightarrow> 0)"

definition winding :: "'m ws_conn \<Rightarrow> bool" where
  "winding s \<longleftrightarrow> closing_inv s \<and> c_closed s"

lemma winding_trans: "winding s \<Longrightarrow> conn_trans env s a s' out \<Longrightarrow> winding s'"
  using closing_inv_trans [of s env a s' out] by (simp add: winding_def)

lemma frames_trans:
  assumes "winding s" and "conn_trans env s a s' out"
  shows "frames_left s' + sum_list (map is_frame out) \<le> frames_left s"
  using assms(2)
proof (cases rule: conn_trans.cases)
  case (t_first m)
  then show ?thesis
    by (cases rule: rx_first_cases [of env m s])
       (auto simp: frames_left_def rx_fail_def rx_return_def identify_def)
next
  case (t_loop m)
  then show ?thesis by (simp add: frames_left_def rx_loop_def rx_finish_def Let_def)
next
  case (t_rx_queue item t sent)
  with queue_send_fields [OF t_rx_queue(5)] show ?thesis by (simp add: frames_left_def rx_return_def)
next
  case (t_ping t)
  with queue_send_fields [OF t_ping(5)] show ?thesis
    by (simp add: frames_left_def pg_count_def pg_head_def Let_def)
next
  case (t_ping_err t)
  with queue_send_fields [OF t_ping_err(5)] show ?thesis by (simp add: frames_left_def)
next
  case (t_pg_end t sent)
  with queue_send_fields [OF t_pg_end(5)] show ?thesis by (simp add: frames_left_def)
next
  case (t_loop_send m sent)
  with queue_send_fields [OF t_loop_send(4)] show ?thesis by (simp add: frames_left_def)
qed (use assms(1) in \<open>simp_all add: winding_def frames_left_def is_frame_def rx_finish_def rx_fail_def
       rx_return_def pg_head_def tx_cleanup_def\<close>)

lemma ticks_trans:
  assumes "winding s" and "conn_trans env s a s' out"
  shows "ticks_left s' + is_fire a \<le> ticks_left s"
proof (cases "a = PgFires \<or> a = PgQueue \<or> (\<exists>m. a = RxFrame m)")
  case False
  then have "same_ping s s'" using same_ping_trans [OF assms(2)] by simp
  with False show ?thesis by (simp add: same_ping_def ticks_left_def is_fire_def)
next
  case True
  from assms(2) show ?thesis
  proof (cases rule: conn_trans.cases)
    case (t_first m)
    with same_ping_first [of s env m] show ?thesis
      by (simp add: same_ping_def ticks_left_def is_fire_def)
  next
    case (t_loop m)
    then show ?thesis by (simp add: ticks_left_def is_fire_def rx_loop_def rx_finish_def Let_def)
  next
    case (t_ping t)
    with queue_send_fields [OF t_ping(5)] assms(1) show ?thesis
      by (simp add: ticks_left_def is_fire_def pg_count_def pg_head_def Let_def winding_def)
  qed (use True assms(1) in \<open>simp_all add: ticks_left_def is_fire_def pg_head_def winding_def\<close>)
qed

text \<open>Once a connection is closed it stays closed and winds down: whatever happens, at most
  the frame in flight and one Close frame are still written to the client, and the ping interval
  fires at most once more.\<close>

theorem closed_winds_down:
  assumes "conn_run env conn_init as = Some (s, out)" and "c_closed s"
    and "conn_run env s bs = Some (t, out')"
  shows "c_closed t \<and> sum_list (map is_frame out') \<le> 2 \<and> sum_list (map is_fire bs) \<le> 1"
proof -
  have w: "winding s"
    using closing_inv_reach [OF conn_run_init_reach [OF assms(1)]] assms(2) by (simp add: winding_def)
  have f: "winding t \<and> frames_left t + sum_list (map (\<lambda>a. 0) bs) + sum_list (map is_frame out') \<le> frames_left s"
    by (rule conn_run_budget [where P = winding, OF assms(3) w]) (use winding_trans frames_trans in fastforce)
  have k: "winding t \<and> ticks_left t + sum_list (map is_fire bs) + sum_list (map (\<lambda>x. 0) out') \<le> ticks_left s"
    by (rule conn_run_budget [where P = winding, OF assms(3) w]) (use winding_trans ticks_trans in fastforce)
  have "frames_left s \<le> 2" "ticks_left s \<le> 1"
    by (simp_all add: frames_left_def ticks_left_def split: tx_pc.split ping_pc.split)
  with f k show ?thesis by (simp add: winding_def)
qed

definition demo_bad_header :: "string conn_act list" where
  "demo_bad_header = [PgFires, RxFrame ''nonsense'']"

theorem closed_winds_down_witness:
  "\<exists>t out. conn_run demo_env conn_init (demo_bad_header @ [PgFires, PgQueue, TxTake, TxSent True]) = Some (t, out) \<and>
     c_closed t \<and> sum_list (map is_frame out) \<le> 2"
proof -
  have "map_option (\<lambda>(s, out). (c_closed s, out)) (conn_run demo_env conn_init demo_bad_header) = Some (True, [])"
    by code_simp
  then obtain s where run: "conn_run demo_env conn_init demo_bad_header = Some (s, [])" and cl: "c_closed s"
    by (auto simp del: conn_run.simps)
  have "conn_run demo_env conn_init (demo_bad_header @ [PgFires, PgQueue, TxTake, TxSent True]) \<noteq> None"
    by code_simp
  moreover have "conn_run demo_env conn_init (demo_bad_header @ bs) = conn_run demo_env s bs" for bs
    using run by (auto simp: demo_bad_header_def split: option.splits prod.splits)
  ultimately obtain t out where "conn_run demo_env s [PgFires, PgQueue, TxTake, TxSent True] = Some (t, out)"
    by (auto simp del: conn_run.simps)
  with closed_winds_down [OF run cl this] \<open>\<And>bs. conn_run demo_env conn_init (demo_bad_header @ bs) = conn_run demo_env s bs\<close>
  show ?thesis by (simp del: conn_run.simps)
qed

section \<open>A client that stops reading\<close>

definition stalled :: "'m ws_conn \<Rightarrow> bool" where
  "stalled s \<longleftrightarrow> length (c_queue s) = WS_BUF \<and> (\<exists>m. c_tx s = TxSend m)"

lemma stalled_queue: "stalled s \<Longrightarrow> queue_send item s = None"
  by (auto simp: stalled_def queue_send_def)

lemma stalled_trans:
  assumes "stalled s" and "conn_trans env s a s' out" and "\<forall>ok. a \<noteq> TxSent ok"
  shows "stalled s'"
  using assms(2)
proof (cases rule: conn_trans.cases)
  case (t_first m)
  with assms(1) show ?thesis
    by (cases rule: rx_first_cases [of env m s])
       (auto simp: stalled_def rx_fail_def rx_return_def identify_def)
next
  case (t_loop m)
  with assms(1) show ?thesis by (auto simp: stalled_def rx_loop_def rx_finish_def Let_def)
next
  case (t_rx_queue item t sent)
  with stalled_queue [OF assms(1)] show ?thesis by simp
next
  case (t_ping t)
  with stalled_queue [OF assms(1)] show ?thesis by simp
next
  case (t_ping_err t)
  with stalled_queue [OF assms(1)] show ?thesis by simp
next
  case (t_pg_end t sent)
  with stalled_queue [OF assms(1)] show ?thesis by simp
next
  case (t_loop_send m sent)
  with stalled_queue [OF assms(1)] show ?thesis by simp
qed (use assms(1,3) in \<open>auto simp: stalled_def rx_fail_def rx_return_def rx_finish_def pg_head_def\<close>)

text \<open>A client that stops reading stops the event loop. While the write of one frame to it
  does not complete and its queue is full, no sequence of other steps makes room: the event
  loop's send into that queue, which it awaits before it serves anybody else, never completes,
  and neither does the ping handler's, so the pings that would close the connection are not
  counted.\<close>

theorem stalled_client_blocks_loop:
  assumes "length (c_queue s) = WS_BUF" and "c_tx s = TxSend m"
    and "conn_run env s bs = Some (t, out)" and "\<forall>ok. TxSent ok \<notin> set bs"
  shows "conn_step env t (LoopSend m') = None \<and> conn_step env t PgQueue = None \<and>
         length (c_queue t) = WS_BUF"
proof -
  have "stalled s" using assms(1,2) by (simp add: stalled_def)
  then have st: "stalled t"
  proof (rule conn_run_stable [where P = stalled, OF assms(3)])
    fix u a u' o1
    assume "stalled u" "a \<in> set bs" "conn_trans env u a u' o1"
    then show "stalled u'" using stalled_trans [of u env a u' o1] assms(4) by blast
  qed
  then show ?thesis
    using stalled_queue [OF st]
    by (auto simp: quiet_def pg_queue_def stalled_def split: ping_pc.split)
qed

text \<open>Such a state is reached: the client joins, 129 messages arrive, the first is being written.\<close>

lemma loop_sends:
  assumes "c_loop_tx s" and "c_tx s \<noteq> TxDone" and "length (c_queue s) + n \<le> WS_BUF"
  shows "conn_run env s (replicate n (LoopSend m)) =
    Some (s\<lparr>c_queue := c_queue s @ replicate n (Some m)\<rparr>, [])"
  using assms
proof (induction n arbitrary: s)
  case (Suc n)
  then show ?case by (simp add: quiet_def queue_send_def)
qed simp

definition demo_listener :: "string ws_conn" where
  "demo_listener =
     conn_init\<lparr>c_h := 19, c_ch := 4, c_err := ErrConfirmed, c_loop_tx := True, c_rx := RxNext,
               c_tx := TxSend ''m''\<rparr>"

lemma demo_listener_run:
  "conn_run demo_env conn_init [RxFrame ''join'', RxEvent True, LoopConfirm, RxErr, LoopSend ''m'', TxTake] =
   Some (demo_listener, [Emit (Init 19 4 11 21 ''join'')])"
  by code_simp

theorem stalled_client_blocks_loop_witness:
  "\<exists>s. conn_run demo_env demo_listener (replicate WS_BUF (LoopSend ''m'')) = Some (s, []) \<and>
     length (c_queue s) = WS_BUF \<and> conn_step demo_env s (LoopSend ''n'') = None"
proof -
  let ?s = "demo_listener\<lparr>c_queue := replicate WS_BUF (Some ''m'')\<rparr>"
  have run: "conn_run demo_env demo_listener (replicate WS_BUF (LoopSend ''m'')) = Some (?s, [])"
    using loop_sends [of demo_listener WS_BUF demo_env "''m''"]
    by (simp add: demo_listener_def conn_init_def)
  have "conn_step demo_env ?s (LoopSend ''n'') = None"
    using stalled_client_blocks_loop [of ?s "''m''" demo_env "[]" ?s "[]" "''n''"]
    by (simp add: demo_listener_def)
  with run show ?thesis by (intro exI [of _ ?s]) simp
qed

end
