(* ===== verification/Ws_System.thy ===== *)
theory Ws_System
  imports Ws_Session "HOL-Library.Sublist"
begin

text \<open>
  The running WebSocket service: any number of connections (\<^verbatim>\<open>Ws_Conn\<close>), the bounded event
  channel they all write to, and the event loop (\<^verbatim>\<open>Event_Loop\<close>) that reads it and answers into
  the connections' queues. Connections, the loop's turns and the loop's single sends interleave
  freely; a full channel and a full queue make the writer wait.

  The theorems follow a message from the client that posts it to the clients that get it. The last one says
  what a single connection tells the loop, by the frames it got.
\<close>

section \<open>The model\<close>

definition TASK_BUF :: nat where
  "TASK_BUF = 16"

text \<open>
  \<^verbatim>\<open>sy_todo\<close> is what the turn of the loop that is going on has still to send. The queue and the
  confirmation channel of a connection are named by its number.
\<close>

record 'm ws_system =
  sy_conns :: "'m ws_conn list"
  sy_chan :: "'m ws_event list"
  sy_loop :: "'m loop_state"
  sy_todo :: "'m loop_out list"

definition sys_init :: "'m ws_system" where
  "sys_init = \<lparr>sy_conns = [], sy_chan = [], sy_loop = loop_init, sy_todo = []\<rparr>"

definition env_at :: "('h, 'm) conn_env \<Rightarrow> nat \<Rightarrow> ('h, 'm) conn_env" where
  "env_at env i = env\<lparr>env_tx2 := i, env_err := i\<rparr>"

datatype 'm sys_act =
    Connect
  | Conn nat "'m conn_act"
  | Take system_time system_time
  | CleanUp system_time
  | Perform

text \<open>What a step shows: a frame from a client, what a connection gives out, a turn of the loop, and
  a send of the loop that was done.\<close>

datatype 'm sys_label =
    Got nat 'm
  | Out nat "'m conn_out"
  | Turn "'m loop_in"
  | Did "'m loop_out"

text \<open>The actions of a connection's own tasks. The loop never ends, so the event channel is never
  closed.\<close>

fun own_act :: "'m conn_act \<Rightarrow> bool" where
  "own_act LoopConfirm \<longleftrightarrow> False"
| "own_act LoopDrop \<longleftrightarrow> False"
| "own_act LoopForget \<longleftrightarrow> False"
| "own_act (LoopSend m) \<longleftrightarrow> False"
| "own_act (RxEvent ok) \<longleftrightarrow> ok"
| "own_act (TxEvent ok) \<longleftrightarrow> ok"
| "own_act _ \<longleftrightarrow> True"

fun gots :: "nat \<Rightarrow> 'm conn_act \<Rightarrow> 'm sys_label list" where
  "gots i (RxFrame m) = [Got i m]"
| "gots i _ = []"

definition poke ::
  "('h, 'm) conn_env \<Rightarrow> nat \<Rightarrow> 'm conn_act \<Rightarrow> 'm ws_system \<Rightarrow> ('m ws_system \<times> 'm conn_out list) option" where
  "poke env i a s =
     (if i < length (sy_conns s)
      then map_option (\<lambda>(c, out). (s\<lparr>sy_conns := (sy_conns s)[i := c]\<rparr>, out))
             (conn_step (env_at env i) (sy_conns s ! i) a)
      else None)"

text \<open>Removing a session from the loop's tables drops the clone of its queue's sender.\<close>

fun release :: "('h, 'm) conn_env \<Rightarrow> 'm ws_event \<Rightarrow> 'm ws_system \<Rightarrow> 'm ws_system option" where
  "release env (Logoff h ch) s =
     (case member (sy_loop s) ch h of
        None \<Rightarrow> Some s
      | Some tx \<Rightarrow> map_option fst (poke env tx LoopForget s))"
| "release env _ s = Some s"

fun out_act :: "'m loop_out \<Rightarrow> nat \<times> 'm conn_act" where
  "out_act (SendMsg tx m) = (tx, LoopSend m)"
| "out_act (Confirm e h) = (e, LoopConfirm)"
| "out_act (DropErr e) = (e, LoopDrop)"

fun sys_step ::
  "('h, 'm) conn_env \<Rightarrow> loop_cfg \<Rightarrow> 'm ws_system \<Rightarrow> 'm sys_act \<Rightarrow> ('m ws_system \<times> 'm sys_label list) option" where
  "sys_step env cfg s Connect = Some (s\<lparr>sy_conns := sy_conns s @ [conn_init]\<rparr>, [])"
| "sys_step env cfg s (Conn i a) =
     (if own_act a
      then (case poke env i a s of
              None \<Rightarrow> None
            | Some (s', out) \<Rightarrow>
                if length (sy_chan s) + length (events_of out) \<le> TASK_BUF
                then Some (s'\<lparr>sy_chan := sy_chan s @ events_of out\<rparr>, gots i a @ map (Out i) out)
                else None)
      else None)"
| "sys_step env cfg s (Take t1 t2) =
     (case sy_chan s of
        [] \<Rightarrow> None
      | e # chan \<Rightarrow>
          if sy_todo s = []
          then (case loop_step cfg (sy_loop s) (Event e t1 t2) of
                  (l, outs) \<Rightarrow>
                    map_option (\<lambda>s'. (s'\<lparr>sy_chan := chan, sy_loop := l, sy_todo := outs\<rparr>, [Turn (Event e t1 t2)]))
                      (release env e s))
          else None)"
| "sys_step env cfg s (CleanUp now) =
     (if sy_todo s = []
      then (case loop_step cfg (sy_loop s) (Tick now) of
              (l, outs) \<Rightarrow> Some (s\<lparr>sy_loop := l, sy_todo := outs\<rparr>, [Turn (Tick now)]))
      else None)"
| "sys_step env cfg s Perform =
     (case sy_todo s of
        [] \<Rightarrow> None
      | x # todo \<Rightarrow>
          map_option (\<lambda>(s', out). (s'\<lparr>sy_todo := todo\<rparr>, [Did x]))
            (poke env (fst (out_act x)) (snd (out_act x)) s))"

fun sys_run ::
  "('h, 'm) conn_env \<Rightarrow> loop_cfg \<Rightarrow> 'm ws_system \<Rightarrow> 'm sys_act list \<Rightarrow> ('m ws_system \<times> 'm sys_label list) option" where
  "sys_run env cfg s [] = Some (s, [])"
| "sys_run env cfg s (a # as) =
     (case sys_step env cfg s a of
        None \<Rightarrow> None
      | Some (s', tr) \<Rightarrow> map_option (\<lambda>(s'', tr'). (s'', tr @ tr')) (sys_run env cfg s' as))"

inductive sys_reach :: "('h, 'm) conn_env \<Rightarrow> loop_cfg \<Rightarrow> 'm ws_system \<Rightarrow> 'm sys_label list \<Rightarrow> bool"
  for env :: "('h, 'm) conn_env" and cfg :: loop_cfg where
  start: "sys_reach env cfg sys_init []"
| step: "sys_reach env cfg s tr \<Longrightarrow> sys_step env cfg s a = Some (s', tr') \<Longrightarrow> sys_reach env cfg s' (tr @ tr')"

lemma sys_run_reach:
  "sys_reach env cfg s tr \<Longrightarrow> sys_run env cfg s as = Some (t, tr') \<Longrightarrow> sys_reach env cfg t (tr @ tr')"
proof (induction as arbitrary: s tr tr')
  case (Cons a as)
  then obtain s1 tr1 tr2 where *: "sys_step env cfg s a = Some (s1, tr1)"
    "sys_run env cfg s1 as = Some (t, tr2)" "tr' = tr1 @ tr2"
    by (auto split: option.splits)
  with Cons.IH [OF sys_reach.step [OF Cons.prems(1) *(1)] *(2)] show ?case by simp
qed simp

lemmas sys_run_init_reach = sys_run_reach [OF sys_reach.start, simplified]

lemma sys_run_append:
  "sys_run env cfg s as = Some (s', tr) \<Longrightarrow> sys_run env cfg s' bs = Some (s'', tr') \<Longrightarrow>
   sys_run env cfg s (as @ bs) = Some (s'', tr @ tr')"
  by (induction as arbitrary: s tr) (auto split: option.splits)

section \<open>Reading a trace\<close>

fun outs_of :: "nat \<Rightarrow> 'm sys_label list \<Rightarrow> 'm conn_out list" where
  "outs_of i [] = []"
| "outs_of i (Out j x # tr) = (if j = i then x # outs_of i tr else outs_of i tr)"
| "outs_of i (_ # tr) = outs_of i tr"

fun got_by :: "nat \<Rightarrow> 'm sys_label list \<Rightarrow> 'm list" where
  "got_by i [] = []"
| "got_by i (Got j m # tr) = (if j = i then m # got_by i tr else got_by i tr)"
| "got_by i (_ # tr) = got_by i tr"

fun turns :: "'m sys_label list \<Rightarrow> 'm loop_in list" where
  "turns [] = []"
| "turns (Turn x # tr) = x # turns tr"
| "turns (_ # tr) = turns tr"

fun did :: "'m sys_label list \<Rightarrow> 'm loop_out list" where
  "did [] = []"
| "did (Did x # tr) = x # did tr"
| "did (_ # tr) = did tr"

fun emitted :: "'m sys_label list \<Rightarrow> 'm ws_event list" where
  "emitted [] = []"
| "emitted (Out i (Emit e) # tr) = e # emitted tr"
| "emitted (_ # tr) = emitted tr"

fun handled :: "'m loop_in list \<Rightarrow> 'm ws_event list" where
  "handled [] = []"
| "handled (Event e t1 t2 # is) = e # handled is"
| "handled (Tick t # is) = handled is"

named_theorems trace_simps

lemma outs_of_append [trace_simps]: "outs_of i (a @ b) = outs_of i a @ outs_of i b"
  by (induction i a rule: outs_of.induct) simp_all

lemma got_by_append [trace_simps]: "got_by i (a @ b) = got_by i a @ got_by i b"
  by (induction i a rule: got_by.induct) simp_all

lemma turns_append [trace_simps]: "turns (a @ b) = turns a @ turns b"
  by (induction a rule: turns.induct) simp_all

lemma did_append [trace_simps]: "did (a @ b) = did a @ did b"
  by (induction a rule: did.induct) simp_all

lemma emitted_append [trace_simps]: "emitted (a @ b) = emitted a @ emitted b"
  by (induction a rule: emitted.induct) simp_all

lemma handled_append [trace_simps]: "handled (a @ b) = handled a @ handled b"
  by (induction a rule: handled.induct) simp_all

lemma map_Out [trace_simps]:
  "outs_of i (map (Out j) out) = (if j = i then out else [])"
  "got_by i (map (Out j) out) = []" "turns (map (Out j) out) = []" "did (map (Out j) out) = []"
  by (induction out) auto

lemma emitted_map_Out [trace_simps]: "emitted (map (Out j) out) = events_of out"
  by (induction out rule: events_of.induct) simp_all

lemma gots_simps [trace_simps]:
  "outs_of i (gots j a) = []" "turns (gots j a) = []" "did (gots j a) = []" "emitted (gots j a) = []"
  by (cases a; simp)+

section \<open>Structure of a step\<close>

text \<open>A step changes one connection, by one step of it, or none.\<close>

lemma poke_Some:
  "poke env i a s = Some (s', out) \<longleftrightarrow>
   i < length (sy_conns s) \<and>
   (\<exists>c. conn_step (env_at env i) (sy_conns s ! i) a = Some (c, out) \<and> s' = s\<lparr>sy_conns := (sy_conns s)[i := c]\<rparr>)"
  by (auto simp: poke_def)

lemma release_cases:
  assumes "release env e s = Some s'"
  obtains (same) "s' = s" "\<And>h ch. e = Logoff h ch \<Longrightarrow> member (sy_loop s) ch h = None"
    | (forget) h ch i c out where "e = Logoff h ch" "member (sy_loop s) ch h = Some i" "i < length (sy_conns s)"
        "conn_step (env_at env i) (sy_conns s ! i) LoopForget = Some (c, out)"
        "s' = s\<lparr>sy_conns := (sy_conns s)[i := c]\<rparr>"
proof (cases "\<exists>h ch i. e = Logoff h ch \<and> member (sy_loop s) ch h = Some i")
  case True
  then obtain h ch i where e: "e = Logoff h ch" "member (sy_loop s) ch h = Some i" by blast
  with assms obtain out where "poke env i LoopForget s = Some (s', out)" by auto
  with e show thesis using forget by (auto simp: poke_Some)
next
  case False
  with assms have "s' = s" by (cases e) (auto split: option.splits)
  moreover have "\<And>h ch. e = Logoff h ch \<Longrightarrow> member (sy_loop s) ch h = None"
    using False by (metis option.exhaust)
  ultimately show thesis using same by blast
qed

lemma sys_step_cases:
  assumes "sys_step env cfg s act = Some (s', tr)"
  obtains (connect) "s' = s\<lparr>sy_conns := sy_conns s @ [conn_init]\<rparr>" "tr = []"
    | (conn) i a c out where "own_act a" "i < length (sy_conns s)"
        "conn_step (env_at env i) (sy_conns s ! i) a = Some (c, out)"
        "length (sy_chan s) + length (events_of out) \<le> TASK_BUF"
        "s' = s\<lparr>sy_conns := (sy_conns s)[i := c], sy_chan := sy_chan s @ events_of out\<rparr>"
        "tr = gots i a @ map (Out i) out"
    | (take) e chan t1 t2 r where "sy_chan s = e # chan" "sy_todo s = []"
        "release env e s = Some r"
        "s' = r\<lparr>sy_chan := chan, sy_loop := fst (loop_step cfg (sy_loop s) (Event e t1 t2)),
               sy_todo := snd (loop_step cfg (sy_loop s) (Event e t1 t2))\<rparr>"
        "tr = [Turn (Event e t1 t2)]"
    | (clean) now where "sy_todo s = []" "s' = s\<lparr>sy_loop := handle_cleanup now (sy_loop s), sy_todo := []\<rparr>"
        "tr = [Turn (Tick now)]"
    | (perform) x todo c out where "sy_todo s = x # todo" "fst (out_act x) < length (sy_conns s)"
        "conn_step (env_at env (fst (out_act x))) (sy_conns s ! fst (out_act x)) (snd (out_act x)) = Some (c, out)"
        "s' = s\<lparr>sy_conns := (sy_conns s)[fst (out_act x) := c], sy_todo := todo\<rparr>" "tr = [Did x]"
proof (cases act)
  case Connect
  with assms connect show thesis by auto
next
  case (Conn i a)
  with assms obtain s1 out where "own_act a" "poke env i a s = Some (s1, out)"
    "length (sy_chan s) + length (events_of out) \<le> TASK_BUF" "s' = s1\<lparr>sy_chan := sy_chan s @ events_of out\<rparr>"
    "tr = gots i a @ map (Out i) out"
    by (auto split: if_splits option.splits)
  then show thesis using conn by (auto simp: poke_Some)
next
  case (Take t1 t2)
  with assms obtain e chan r where "sy_chan s = e # chan" "sy_todo s = []" "release env e s = Some r"
    "s' = r\<lparr>sy_chan := chan, sy_loop := fst (loop_step cfg (sy_loop s) (Event e t1 t2)),
       sy_todo := snd (loop_step cfg (sy_loop s) (Event e t1 t2))\<rparr>" "tr = [Turn (Event e t1 t2)]"
    by (auto split: list.splits if_splits prod.splits)
  then show thesis by (rule take)
next
  case (CleanUp now)
  with assms clean show thesis by (auto split: if_splits)
next
  case Perform
  with assms obtain x todo s1 out where "sy_todo s = x # todo"
    "poke env (fst (out_act x)) (snd (out_act x)) s = Some (s1, out)" "s' = s1\<lparr>sy_todo := todo\<rparr>" "tr = [Did x]"
    by (auto split: list.splits)
  then show thesis using perform by (auto simp: poke_Some)
qed

text \<open>Only a connection's own actions give something out.\<close>

lemma loop_act_quiet: "conn_step env s a = Some (s', out) \<Longrightarrow> \<not> own_act a \<Longrightarrow> events_of out = [] \<and> (a \<notin> {RxEvent False, TxEvent False} \<longrightarrow> out = [])"
  by (cases a) (auto simp: quiet_def rx_event_def tx_event_def split: if_splits rx_pc.splits tx_pc.splits)

lemma out_act_loop: "\<not> own_act (snd (out_act x))" "snd (out_act x) \<notin> {RxEvent False, TxEvent False}"
  by (cases x; simp)+

section \<open>Connections, loop and channel along a run\<close>

text \<open>The history of one connection: its state, what it gave out, the frames it got from its client, and
  the messages it got from the loop.\<close>

fun frames_in :: "'m conn_act \<Rightarrow> 'm list" where
  "frames_in (RxFrame m) = [m]"
| "frames_in _ = []"

fun loop_sends_of :: "'m conn_act \<Rightarrow> 'm list" where
  "loop_sends_of (LoopSend m) = [m]"
| "loop_sends_of _ = []"

inductive conn_hist ::
  "('h, 'm) conn_env \<Rightarrow> 'm ws_conn \<Rightarrow> 'm conn_out list \<Rightarrow> 'm list \<Rightarrow> 'm list \<Rightarrow> bool"
  for env :: "('h, 'm) conn_env" where
  start: "conn_hist env conn_init [] [] []"
| step: "conn_hist env s out got sent \<Longrightarrow> conn_step env s a = Some (s', out') \<Longrightarrow>
         conn_hist env s' (out @ out') (got @ frames_in a) (sent @ loop_sends_of a)"

lemma conn_hist_reach: "conn_hist env s out got sent \<Longrightarrow> conn_reach env s out"
  by (induction rule: conn_hist.induct) (auto intro: conn_reach.intros)

lemmas conn_hist_closing = closing_inv_reach [OF conn_hist_reach]

definition hists :: "('h, 'm) conn_env \<Rightarrow> 'm ws_system \<Rightarrow> 'm sys_label list \<Rightarrow> bool" where
  "hists env s tr \<longleftrightarrow>
     (\<forall>i < length (sy_conns s).
        conn_hist (env_at env i) (sy_conns s ! i) (outs_of i tr) (got_by i tr) (sent_to i (did tr))) \<and>
     (\<forall>i \<ge> length (sy_conns s). outs_of i tr = [] \<and> got_by i tr = [] \<and> sent_to i (did tr) = [])"

lemma hists_update:
  assumes "hists env s tr" and "i < length (sy_conns s)"
    and "conn_step (env_at env i) (sy_conns s ! i) a = Some (c, out)"
    and "sy_conns s' = (sy_conns s)[i := c]"
    and "\<And>j. outs_of j tr' = (if j = i then out else [])"
    and "\<And>j. got_by j tr' = (if j = i then frames_in a else [])"
    and "\<And>j. sent_to j (did tr') = (if j = i then loop_sends_of a else [])"
  shows "hists env s' (tr @ tr')"
proof -
  have "conn_hist (env_at env i) c (outs_of i tr @ out) (got_by i tr @ frames_in a)
    (sent_to i (did tr) @ loop_sends_of a)"
    using assms(1-3) by (auto simp: hists_def intro: conn_hist.step)
  then show ?thesis
    using assms(1,2,4-7) by (auto simp: hists_def trace_simps nth_list_update)
qed

lemma gots_by: "got_by j (gots i a) = (if j = i then frames_in a else [])"
  by (cases a) simp_all

lemma own_act_sends: "own_act a \<Longrightarrow> loop_sends_of a = []"
  by (cases a) simp_all

lemma sent_to_loop_sends: "sent_to i [x] = (if fst (out_act x) = i then loop_sends_of (snd (out_act x)) else [])"
  by (cases x) simp_all

lemma out_act_frames: "frames_in (snd (out_act x)) = []"
  by (cases x) simp_all

lemma hists_step:
  assumes "hists env s tr" and "sys_step env cfg s act = Some (s', tr')"
  shows "hists env s' (tr @ tr')"
  using assms(2)
proof (cases rule: sys_step_cases)
  case connect
  with assms(1) show ?thesis
    by (auto simp: hists_def nth_append not_less_eq less_Suc_eq intro: conn_hist.start)
next
  case (conn i a c out)
  then show ?thesis
    by (intro hists_update [OF assms(1) conn(2,3)]) (simp_all add: trace_simps gots_by own_act_sends)
next
  case (take e chan t1 t2 r)
  from take(3) show ?thesis
  proof (cases rule: release_cases)
    case same
    with take assms(1) show ?thesis by (simp add: hists_def trace_simps)
  next
    case (forget h ch i c out)
    with take loop_act_quiet [OF forget(4)] show ?thesis
      by (intro hists_update [OF assms(1) forget(3,4)]) auto
  qed
next
  case (clean now)
  with assms(1) show ?thesis by (simp add: hists_def trace_simps)
next
  case (perform x todo c out)
  with loop_act_quiet [OF perform(3)] out_act_loop [of x] sent_to_loop_sends [of _ x] out_act_frames [of x] show ?thesis
    by (intro hists_update [OF assms(1) perform(2,3)]) auto
qed

lemma hists_reach: "sys_reach env cfg s tr \<Longrightarrow> hists env s tr"
proof (induction rule: sys_reach.induct)
  case start
  show ?case by (simp add: hists_def sys_init_def)
next
  case (step s tr a s' tr')
  show ?case by (rule hists_step [OF step.IH step.hyps(2)])
qed

text \<open>The loop has run on the inputs it took, in order; what it put out is done or still to do. The
  channel is first in, first out.\<close>

lemma loop_along:
  assumes "sys_reach env cfg s tr"
  shows "sy_loop s = fst (loop_run cfg loop_init (turns tr))"
    and "did tr @ sy_todo s = snd (loop_run cfg loop_init (turns tr))"
    and "handled (turns tr) @ sy_chan s = emitted tr"
    and "length (sy_chan s) \<le> TASK_BUF"
proof -
  have "sy_loop s = fst (loop_run cfg loop_init (turns tr)) \<and>
    did tr @ sy_todo s = snd (loop_run cfg loop_init (turns tr)) \<and>
    handled (turns tr) @ sy_chan s = emitted tr \<and> length (sy_chan s) \<le> TASK_BUF"
    using assms
  proof (induction rule: sys_reach.induct)
    case start
    show ?case by (simp add: sys_init_def)
  next
    case (step s tr a s' tr')
    have run: "loop_run cfg loop_init (turns tr) = (sy_loop s, did tr @ sy_todo s)"
      using step.IH by (simp add: prod_eq_iff)
    have fifo: "handled (turns tr) @ sy_chan s = emitted tr" "length (sy_chan s) \<le> TASK_BUF"
      using step.IH by simp_all
    from step.hyps(2) show ?case
    proof (cases rule: sys_step_cases)
      case (take e chan t1 t2 r)
      from take(3) have "sy_chan r = sy_chan s" by (cases rule: release_cases) auto
      with take fifo run show ?thesis
        by (auto simp: trace_simps loop_run_append split: prod.splits)
    next
      case (conn i a c out)
      with fifo run show ?thesis by (simp add: trace_simps flip: append_assoc)
    qed (use fifo run in \<open>auto simp: trace_simps loop_run_append\<close>)
  qed
  then show "sy_loop s = fst (loop_run cfg loop_init (turns tr))"
    and "did tr @ sy_todo s = snd (loop_run cfg loop_init (turns tr))"
    and "handled (turns tr) @ sy_chan s = emitted tr" and "length (sy_chan s) \<le> TASK_BUF"
    by simp_all
qed

section \<open>From the loop to the client\<close>

text \<open>
  Between the loop and the client a message is in the connection's queue or being written. Besides
  the loop's messages the queue carries the connection's own pings and close requests.
\<close>

fun frames_of :: "'m conn_out list \<Rightarrow> 'm list" where
  "frames_of [] = []"
| "frames_of (Frame m # out) = m # frames_of out"
| "frames_of (Emit e # out) = frames_of out"

lemma frames_of_append [simp]: "frames_of (a @ b) = frames_of a @ frames_of b"
  by (induction a rule: frames_of.induct) simp_all

definition user_msg :: "('h, 'm) conn_env \<Rightarrow> 'm \<Rightarrow> bool" where
  "user_msg env m \<longleftrightarrow> m \<noteq> ping_msg (env_msg env) \<and> m \<noteq> close_msg (env_msg env)"

definition user_msgs :: "('h, 'm) conn_env \<Rightarrow> 'm list \<Rightarrow> 'm list" where
  "user_msgs env ms = filter (user_msg env) ms"

definition writing :: "'m ws_conn \<Rightarrow> 'm list" where
  "writing c = (case c_tx c of TxSend m \<Rightarrow> [m] | _ \<Rightarrow> [])"

definition queued :: "'m ws_conn \<Rightarrow> 'm list" where
  "queued c = List.map_filter id (c_queue c)"

text \<open>
  Written frames are a prefix of what the loop sent, and as long as the connection is open the
  rest is on its way: nothing is lost, repeated or reordered.
\<close>

definition delivery :: "('h, 'm) conn_env \<Rightarrow> 'm ws_conn \<Rightarrow> 'm list \<Rightarrow> 'm list \<Rightarrow> bool" where
  "delivery env c written sent \<longleftrightarrow>
     prefix (user_msgs env (written @ writing c)) (user_msgs env sent) \<and>
     (\<not> c_closed c \<longrightarrow> user_msgs env sent = user_msgs env (written @ writing c @ queued c))"

lemma user_msgs_simps [simp]:
  "user_msgs env [] = []" "user_msgs env (a @ b) = user_msgs env a @ user_msgs env b"
  "user_msgs env [ping_msg (env_msg env)] = []" "user_msgs env [close_msg (env_msg env)] = []"
  by (simp_all add: user_msgs_def user_msg_def)

lemma queued_snoc:
  assumes "c_queue t = c_queue s @ [item]"
  shows "queued t = queued s @ (case item of None \<Rightarrow> [] | Some m \<Rightarrow> [m])"
  using assms by (cases item) (simp_all add: queued_def List.map_filter_def)

lemma delivery_prefix: "delivery env c written sent \<Longrightarrow> prefix (user_msgs env written) (user_msgs env sent)"
  unfolding delivery_def by (metis append_prefixD user_msgs_simps(2))

lemma delivery_frame:
  assumes "delivery env s F D" and "c_tx t = c_tx s" and "c_closed s \<Longrightarrow> c_closed t"
    and "user_msgs env (queued t) = user_msgs env (queued s)"
  shows "delivery env t F D"
  using assms by (auto simp: delivery_def writing_def)

text \<open>A message queued by the connection itself.\<close>

lemma delivery_own:
  assumes "delivery env s F D" and "queue_send item s = Some (t, sent)"
    and "item \<in> {None, Some (ping_msg (env_msg env)), Some (close_msg (env_msg env))}"
  shows "delivery env t F D"
  using assms(2)
proof (cases rule: queue_send_cases)
  case queued
  with assms(3) have "user_msgs env (queued t) = user_msgs env (queued s)"
    using queued_snoc [of t s item] by auto
  with queued show ?thesis by (intro delivery_frame [OF assms(1)]) auto
qed (use assms(1) in simp)

text \<open>A message queued by the loop.\<close>

lemma delivery_loop:
  assumes "delivery env s F D" and "closing_inv s" and "queue_send (Some m) s = Some (t, sent)"
  shows "delivery env t F (D @ [m])"
  using assms(3)
proof (cases rule: queue_send_cases)
  case dropped
  then have "c_closed s" using assms(2) by (simp add: closing_inv_def)
  with assms(1) dropped show ?thesis by (auto simp: delivery_def intro: prefix_prefix)
next
  case queued
  then have "queued t = queued s @ [m]" using queued_snoc [of t s "Some m"] by simp
  with assms(1) queued show ?thesis by (auto simp: delivery_def writing_def intro: prefix_prefix)
qed

lemma delivery_rx_first:
  assumes "delivery env s F D"
  shows "delivery env (rx_first env m s) F D"
  by (cases rule: rx_first_cases [of env m s])
     (auto simp: rx_fail_def rx_return_def identify_def queued_def intro!: delivery_frame [OF assms])

lemma delivery_trans:
  assumes "delivery env s F D" and "closing_inv s" and "conn_trans env s a s' out"
  shows "delivery env s' (F @ frames_of out) (D @ loop_sends_of a)"
  using assms(3)
proof (cases rule: conn_trans.cases)
  case (t_first m)
  with delivery_rx_first [OF assms(1)] show ?thesis by simp
next
  case (t_rx_queue item t sent)
  then have "delivery env t F D" by (intro delivery_own [OF assms(1) t_rx_queue(5)]) auto
  then have "delivery env (rx_return t) F D"
    by (rule delivery_frame) (simp_all add: rx_return_def queued_def)
  with t_rx_queue show ?thesis by simp
next
  case (t_ping t)
  then have "delivery env t F D" using delivery_own [OF assms(1) t_ping(5)] by simp
  then have "delivery env (pg_count t) F D"
    by (rule delivery_frame) (auto simp: pg_count_def pg_head_def queued_def Let_def)
  with t_ping show ?thesis by simp
next
  case (t_ping_err t)
  then have "delivery env t F D" using delivery_own [OF assms(1) t_ping_err(5)] by simp
  then have "delivery env (t\<lparr>c_pg := PgDone\<rparr>) F D" by (rule delivery_frame) (simp_all add: queued_def)
  with t_ping_err show ?thesis by simp
next
  case (t_pg_end t sent)
  then have "delivery env t F D" using delivery_own [OF assms(1) t_pg_end(5)] by simp
  then have "delivery env (t\<lparr>c_pg := PgDone\<rparr>) F D" by (rule delivery_frame) (simp_all add: queued_def)
  with t_pg_end show ?thesis by simp
next
  case (t_loop_send m sent)
  with delivery_loop [OF assms(1,2)] show ?thesis by auto
next
  case t_drained
  then have "c_closed s" using assms(2) by (simp add: closing_inv_def senders_alive_def)
  with t_drained assms(1) show ?thesis by (auto simp: delivery_def writing_def)
next
  case (t_take_end q)
  then have "c_closed s" using assms(2) by (simp add: closing_inv_def)
  with t_take_end assms(1) show ?thesis by (auto simp: delivery_def writing_def)
next
  case (t_take m q)
  with assms(1) show ?thesis
    by (auto simp: delivery_def writing_def queued_def List.map_filter_def user_msgs_def)
next
  case (t_take_closed m q)
  with assms(1) show ?thesis by (auto simp: delivery_def writing_def)
next
  case (t_sent m)
  with assms(1) show ?thesis by (auto simp: delivery_def writing_def queued_def)
next
  case (t_sent_err m)
  with assms(1) show ?thesis by (auto simp: delivery_def writing_def dest: append_prefixD)
next
  case (t_close ok)
  then have "c_closed s" using assms(2) by (simp add: closing_inv_def)
  with t_close assms(1) show ?thesis by (auto simp: delivery_def writing_def tx_cleanup_def)
next
  case (t_logoff h ch ok)
  then have "c_closed s" using assms(2) by (simp add: closing_inv_def)
  with t_logoff assms(1) show ?thesis by (auto simp: delivery_def writing_def)
qed (auto intro!: delivery_frame [OF assms(1)] simp: queued_def rx_loop_def rx_finish_def rx_fail_def
       rx_return_def pg_head_def Let_def)

lemma env_at_msg [simp]: "env_msg (env_at env i) = env_msg env" "env_sip (env_at env i) = env_sip env"
  "env_key (env_at env i) = env_key env" "env_parse (env_at env i) = env_parse env"
  "env_tx2 (env_at env i) = i" "env_err (env_at env i) = i"
  by (simp_all add: env_at_def)

lemma first_env_at [simp]: "valid_first (env_at env i) = valid_first env" "auth_ok (env_at env i) = auth_ok env"
  by (intro ext; simp add: valid_first_def auth_ok_def split: option.split)+

lemma user_msgs_env_at [simp]: "user_msgs (env_at env i) = user_msgs env"
proof -
  have "user_msg (env_at env i) = user_msg env" by (simp add: user_msg_def fun_eq_iff)
  then show ?thesis by (intro ext) (simp add: user_msgs_def)
qed

lemma delivery_env_at [simp]: "delivery (env_at env i) = delivery env"
  by (simp add: delivery_def fun_eq_iff)

lemma conn_hist_delivery: "conn_hist env s out got sent \<Longrightarrow> delivery env s (frames_of out) sent"
proof (induction rule: conn_hist.induct)
  case start
  show ?case by (simp add: delivery_def conn_init_def writing_def queued_def List.map_filter_def)
next
  case (step s out got sent a s' out')
  from delivery_trans [OF step.IH conn_hist_closing [OF step.hyps(1)] conn_step_trans [OF step.hyps(2)]]
  show ?case by simp
qed

section \<open>Where the loop's sessions and messages come from\<close>

fun payload :: "'m ws_event \<Rightarrow> 'm option" where
  "payload (Init h ch tx e m) = Some m"
| "payload (Msg h ch m) = Some m"
| "payload (Logoff h ch) = None"

text \<open>A session in the tables was registered by an Init, and a stored message was posted on its channel.\<close>

definition sourced :: "'m loop_state \<Rightarrow> 'm ws_event list \<Rightarrow> bool" where
  "sourced l es \<longleftrightarrow>
     (\<forall>ch h tx. member l ch h = Some tx \<longrightarrow> (\<exists>e m. Init h ch tx e m \<in> set es)) \<and>
     (\<forall>ch m. m \<in> set (history l ch) \<longrightarrow> (\<exists>ev \<in> set es. event_channel ev = ch \<and> payload ev = Some m))"

lemma sourced_mono: "sourced l es \<Longrightarrow> set es \<subseteq> set es' \<Longrightarrow> sourced l es'"
  unfolding sourced_def by blast

lemma set_push_hist: "set (push_hist n xs m) \<subseteq> insert m (set xs)"
  by (cases xs) (auto simp: push_hist_def)

lemma history_cleanup: "hm_wf (msg_db l) \<Longrightarrow> set (history (handle_cleanup now l) ch) \<subseteq> set (history l ch)"
  by (auto simp: history_def handle_cleanup_get split: option.splits if_splits)

lemma sourced_init:
  assumes "sourced l es" and "handle_init cfg t1 t2 h ch tx e m l = (l', outs)"
  shows "sourced l' (es @ [Init h ch tx e m])"
proof (cases "member l ch h")
  case None
  note new = handle_init_new(3) [OF None assms(2)]
  have "m' \<in> set (history l c) \<or> m' = m \<and> c = ch" if "m' \<in> set (history l' c)" for m' c
    using that set_push_hist [of _ "history l ch" m] unfolding new by (auto split: if_splits)
  then show ?thesis
    using assms(1) unfolding sourced_def member_handle_init [OF assms(2)] by (fastforce split: if_splits)
next
  case (Some v)
  with handle_init_dup [of l ch h] assms(2) have "l' = l" by simp
  with assms(1) show ?thesis by (auto intro: sourced_mono)
qed

lemma sourced_msg:
  assumes "sourced l es" and "handle_msg cfg t h ch m l = (l', outs)"
  shows "sourced l' (es @ [Msg h ch m])"
proof -
  have "m' \<in> set (history l c) \<or> m' = m \<and> c = ch" if "m' \<in> set (history l' c)" for m' c
    using that set_push_hist [of _ "history l ch" m] unfolding handle_msg_history [OF assms(2)]
    by (auto split: if_splits)
  moreover have "member l' = member l"
    using handle_msg_state(2) [OF assms(2)] by (simp add: member_def fun_eq_iff)
  ultimately show ?thesis using assms(1) unfolding sourced_def by fastforce
qed

lemma sourced_step:
  assumes "loop_inv cfg l" and "sourced l es"
  shows "sourced (fst (loop_step cfg l i)) (es @ handled [i])"
proof (cases i)
  case (Tick now)
  have "member (handle_cleanup now l) = member l" by (simp add: member_def fun_eq_iff)
  with Tick assms(2) history_cleanup [OF loop_invD(1) [OF assms(1)]] show ?thesis
    unfolding sourced_def by fastforce
next
  case (Event ev t1 t2)
  show ?thesis
  proof (cases ev)
    case (Init h ch tx e m)
    with Event sourced_init [OF assms(2) prod.collapse [symmetric]] show ?thesis by simp
  next
    case (Msg h ch m)
    with Event sourced_msg [OF assms(2) prod.collapse [symmetric]] show ?thesis by simp
  next
    case (Logoff h ch)
    have "history (handle_logoff h ch l) = history l" by (simp add: history_def fun_eq_iff)
    with Event Logoff assms(2) show ?thesis
      unfolding sourced_def by (fastforce simp: member_handle_logoff split: if_splits)
  qed
qed

lemma sourced_run: "sourced (fst (loop_run cfg loop_init is)) (handled is)"
proof (induction "is" rule: rev_induct)
  case Nil
  show ?case by (simp add: sourced_def loop_init_def member_def members_def history_def)
next
  case (snoc i "is")
  from sourced_step [OF loop_run_inv [OF loop_inv_init] snoc.IH] show ?case
    by (simp add: loop_run_append handled_append split: prod.splits)
qed

text \<open>What the loop sends to a queue was posted on the channel the queue is registered for.\<close>

lemma sent_step_source:
  assumes "loop_inv cfg l" and "sourced l es" and "SendMsg tx m \<in> set (snd (loop_step cfg l i))"
  shows "\<exists>h ch e m0 ev. Init h ch tx e m0 \<in> set (es @ handled [i]) \<and> ev \<in> set (es @ handled [i]) \<and>
           event_channel ev = ch \<and> payload ev = Some m"
proof -
  obtain ev t1 t2 where i: "i = Event ev t1 t2" using assms(3) by (cases i) auto
  note step = sourced_step [OF assms(1,2), of i]
  obtain h where "member (fst (loop_step cfg l i)) (event_channel ev) h = Some tx"
    using loop_step_target [OF assms(1) prod.collapse [symmetric]] assms(3) unfolding i by blast
  with step obtain e m0 where reg: "Init h (event_channel ev) tx e m0 \<in> set (es @ handled [i])"
    unfolding sourced_def by blast
  have "\<exists>ev' \<in> set (es @ handled [i]). event_channel ev' = event_channel ev \<and> payload ev' = Some m"
  proof (cases ev)
    case (Init h' ch tx' e' m')
    then have run: "SendMsg tx m \<in> set (snd (handle_init cfg t1 t2 h' ch tx' e' m' l))"
      using assms(3) i by simp
    then have "member l ch h' = None" using handle_init_dup [of l ch h'] by fastforce
    from handle_init_new(1) [OF this prod.collapse [symmetric]] run have "m \<in> set (history l ch)" by auto
    with assms(2) Init show ?thesis unfolding sourced_def by fastforce
  next
    case (Msg h' ch m')
    with assms(3) i show ?thesis by (auto simp: handle_msg_outs)
  next
    case (Logoff h' ch)
    with assms(3) i show ?thesis by simp
  qed
  with reg show ?thesis by blast
qed

lemma sent_source:
  assumes "SendMsg tx m \<in> set (snd (loop_run cfg loop_init is))"
  shows "\<exists>h ch e m0 ev. Init h ch tx e m0 \<in> set (handled is) \<and> ev \<in> set (handled is) \<and>
           event_channel ev = ch \<and> payload ev = Some m"
  using assms
proof (induction "is" rule: rev_induct)
  case (snoc i "is")
  show ?case
  proof (cases "SendMsg tx m \<in> set (snd (loop_run cfg loop_init is))")
    case True
    then show ?thesis using snoc.IH by (fastforce simp: handled_append)
  next
    case False
    then have "SendMsg tx m \<in> set (snd (loop_step cfg (fst (loop_run cfg loop_init is)) i))"
      using snoc.prems by (simp add: loop_run_append split: prod.splits)
    from sent_step_source [OF loop_run_inv [OF loop_inv_init] sourced_run this] show ?thesis
      by (simp add: handled_append)
  qed
qed simp

section \<open>From the client to the loop\<close>

text \<open>
  The messages a client posts: its first frame, then every frame but pongs and close frames. Those
  a connection has passed on, and the one it is passing on, are the first of these, and all of them
  as long as it reads.
\<close>

definition payloads :: "'m ws_event list \<Rightarrow> 'm list" where
  "payloads es = List.map_filter payload es"

definition posts :: "('h, 'm) conn_env \<Rightarrow> 'm list \<Rightarrow> 'm list" where
  "posts env got =
     (case got of
        [] \<Rightarrow> []
      | m # ms \<Rightarrow> m # filter (\<lambda>m. \<not> is_close (env_msg env) m \<and> \<not> is_pong (env_msg env) m) ms)"

fun pending :: "'m rx_pc \<Rightarrow> 'm list" where
  "pending (RxSendInit e) = payloads [e]"
| "pending (RxSendMsg e) = payloads [e]"
| "pending _ = []"

fun reading :: "'m rx_pc \<Rightarrow> bool" where
  "reading RxSendClose \<longleftrightarrow> False"
| "reading RxSendEnd \<longleftrightarrow> False"
| "reading RxDone \<longleftrightarrow> False"
| "reading _ \<longleftrightarrow> True"

fun started :: "'m rx_pc \<Rightarrow> bool" where
  "started (RxSendInit e) \<longleftrightarrow> True"
| "started (RxSendMsg e) \<longleftrightarrow> True"
| "started RxNext \<longleftrightarrow> True"
| "started _ \<longleftrightarrow> False"

definition posting :: "('h, 'm) conn_env \<Rightarrow> 'm ws_conn \<Rightarrow> 'm list \<Rightarrow> 'm list \<Rightarrow> bool" where
  "posting env c posted got \<longleftrightarrow>
     prefix (posted @ pending (c_rx c)) (posts env got) \<and>
     (reading (c_rx c) \<longrightarrow> posted @ pending (c_rx c) = posts env got) \<and>
     (c_rx c = RxFirst \<longrightarrow> got = []) \<and>
     (started (c_rx c) \<or> c_err c \<in> {ErrInFlight, ErrConfirmed} \<longrightarrow> got \<noteq> [])"

lemma posting_prefix: "posting env c posted got \<Longrightarrow> prefix posted (posts env got)"
  unfolding posting_def by (metis append_prefixD)

lemma payloads_simps [simp]:
  "payloads [] = []" "payloads (a @ b) = payloads a @ payloads b"
  "payloads [Msg h ch m] = [m]" "payloads [Init h ch tx e m] = [m]" "payloads [Logoff h ch] = []"
  by (simp_all add: payloads_def List.map_filter_def)

lemma posts_snoc:
  "posts env [m] = [m]"
  "got \<noteq> [] \<Longrightarrow> posts env (got @ [m]) =
     posts env got @ (if is_close (env_msg env) m \<or> is_pong (env_msg env) m then [] else [m])"
  by (simp_all add: posts_def split: list.splits)

lemma set_posts: "set (posts env got) \<subseteq> set got"
  by (cases got) (auto simp: posts_def)

lemma posts_prefix: "prefix (posts env got) (posts env (got @ ms))"
  by (cases got) (simp_all add: posts_def)

lemma posting_rx_first:
  assumes "posting env s P G" and "c_rx s = RxFirst"
  shows "posting env (rx_first env m s) P (G @ [m])"
proof -
  have "P = []" "G = []" using assms by (simp_all add: posting_def posts_def)
  then show ?thesis
    by (cases rule: rx_first_cases [of env m s])
       (auto simp: posting_def posts_snoc rx_fail_def rx_return_def identify_def init_of_def)
qed

lemma posting_rx_loop:
  assumes "posting env s P G" and "c_rx s = RxNext"
  shows "posting env (rx_loop env m s) P (G @ [m])"
  using assms posts_prefix [of env G "[m]"]
  by (auto simp: posting_def rx_loop_def rx_finish_def posts_snoc Let_def)

lemma pg_fields [simp]:
  "c_rx (pg_head s) = c_rx s" "c_err (pg_head s) = c_err s" "c_loop_tx (pg_head s) = c_loop_tx s"
  "c_rx (pg_count s) = c_rx s" "c_err (pg_count s) = c_err s" "c_loop_tx (pg_count s) = c_loop_tx s"
  by (simp_all add: pg_head_def pg_count_def Let_def)

lemma posting_frame:
  assumes "posting env s P G" and "c_rx t = c_rx s" and "c_err t \<in> {ErrInFlight, ErrConfirmed} \<Longrightarrow> c_err s \<in> {ErrInFlight, ErrConfirmed}"
  shows "posting env t P G"
  using assms by (auto simp: posting_def)

text \<open>The receiver gives up reading: what it was about to pass on may be lost.\<close>

lemma posting_stop:
  assumes "posting env s P G" and "\<not> reading (c_rx t)" and "c_err t \<in> {ErrInFlight, ErrConfirmed} \<Longrightarrow> c_err s \<in> {ErrInFlight, ErrConfirmed}"
  shows "posting env t P G"
  using assms by (cases "c_rx t") (auto simp: posting_def dest: append_prefixD)

lemma posting_trans:
  assumes "posting env s P G" and "conn_trans env s a s' out"
  shows "posting env s' (P @ payloads (events_of out)) (G @ frames_in a)"
  using assms(2)
proof (cases rule: conn_trans.cases)
  case (t_first m)
  with posting_rx_first [OF assms(1)] show ?thesis by simp
next
  case (t_loop m)
  with posting_rx_loop [OF assms(1)] show ?thesis by simp
next
  case (t_rx_queue item t sent)
  then have "posting env (rx_return t) P G"
    using queue_send_fields [OF t_rx_queue(5)]
    by (intro posting_stop [OF assms(1)]) (auto simp: rx_return_def split: if_splits)
  with t_rx_queue show ?thesis by simp
next
  case (t_ping t)
  have "posting env (pg_count t) P G"
    using queue_send_fields [OF t_ping(5)]
    by (intro posting_frame [OF assms(1)]) auto
  with t_ping show ?thesis by simp
next
  case (t_ping_err t)
  have "posting env (t\<lparr>c_pg := PgDone\<rparr>) P G"
    using queue_send_fields [OF t_ping_err(5)] by (intro posting_frame [OF assms(1)]) auto
  with t_ping_err show ?thesis by simp
next
  case (t_pg_end t sent)
  have "posting env (t\<lparr>c_pg := PgDone\<rparr>) P G"
    using queue_send_fields [OF t_pg_end(5)] by (intro posting_frame [OF assms(1)]) auto
  with t_pg_end show ?thesis by simp
next
  case (t_loop_send m sent)
  have "posting env s' P G"
    using queue_send_fields [OF t_loop_send(4)] by (intro posting_frame [OF assms(1)]) auto
  with t_loop_send show ?thesis by simp
next
  case (t_init e)
  with assms(1) show ?thesis by (simp add: posting_def)
next
  case (t_msg e)
  with assms(1) show ?thesis by (simp add: posting_def)
next
  case t_confirmed
  with assms(1) show ?thesis by (simp add: posting_def)
next
  case t_no_first
  with assms(1) show ?thesis by (auto simp: posting_def)
next
  case (t_logoff h ch ok)
  with assms(1) show ?thesis by (simp add: posting_def)
qed (use assms(1) in \<open>auto simp: rx_finish_def rx_fail_def rx_return_def pg_head_def tx_cleanup_def
       intro: posting_frame posting_stop\<close>)

lemma conn_hist_posting: "conn_hist env s out got sent \<Longrightarrow> posting env s (payloads (events_of out)) got"
proof (induction rule: conn_hist.induct)
  case start
  show ?case by (simp add: posting_def conn_init_def posts_def)
next
  case (step s out got sent a s' out')
  from posting_trans [OF step.IH conn_step_trans [OF step.hyps(2)]] show ?case by simp
qed

section \<open>Who sends an event\<close>

text \<open>The events of a connection that carry a message come from a client that identified itself.\<close>

lemma session_event_cases:
  assumes "session_events env m hdr es" and "ev \<in> set es" and "payload ev \<noteq> None"
  shows "auth_ok env hdr \<and> event_channel ev = hash_channel (env_sip env) hdr \<and>
         (ev = init_of env m hdr \<or> (\<exists>m'. ev = Msg (hash_header (env_sip env) hdr) (hash_channel (env_sip env) hdr) m'))"
proof -
  have "\<exists>m'. ev = Msg h ch m'" if "msgs_then_logoff h ch rest" "ev \<in> set rest" for h ch rest
    using that assms(3) by (induction h ch rest rule: msgs_then_logoff.induct) auto
  with assms show ?thesis by (fastforce simp: session_events_def Let_def init_of_def)
qed

lemma init_once:
  assumes "session_events env m hdr es" and "es = a @ Init h ch tx e m0 # b"
  shows "a = [] \<and> Init h ch tx e m0 = init_of env m hdr \<and> (\<forall>h' ch' tx' e' m'. Init h' ch' tx' e' m' \<notin> set b)"
proof -
  have none: "Init h' ch' tx' e' m' \<notin> set rest" if "msgs_then_logoff k c rest" for k c rest h' ch' tx' e' m'
    using that by (induction k c rest rule: msgs_then_logoff.induct) auto
  have "es \<noteq> []" "es \<noteq> [Logoff k c]" for k c using assms(2) by (cases a; simp)+
  with assms(1) obtain rest where r: "es = init_of env m hdr # rest"
    "msgs_then_logoff (hash_header (env_sip env) hdr) (hash_channel (env_sip env) hdr) rest"
    by (auto simp: session_events_def Let_def)
  have "a = []"
  proof (rule ccontr)
    assume "a \<noteq> []"
    with r(1) assms(2) have "Init h ch tx e m0 \<in> set rest" by (cases a) auto
    with none [OF r(2)] show False by blast
  qed
  with r assms(2) none [OF r(2)] show ?thesis by auto
qed

lemma conn_hist_session:
  assumes "conn_hist env s out got sent"
  shows "events_of out = [] \<or> (\<exists>m hdr. valid_first env m hdr \<and> session_events env m hdr (events_of out))"
  using trace_inv_reach [OF conn_hist_reach [OF assms]]
  by (auto simp: trace_inv_def unidentified_def identified_def dest: rx_agrees_session)

lemma emitted_by:
  "e \<in> set (emitted tr) \<Longrightarrow> \<exists>i. e \<in> set (events_of (outs_of i tr))"
proof (induction tr rule: emitted.induct)
  case (2 i e' tr)
  then show ?case by (metis emitted.simps(2) events_of.simps(2) list.set_intros outs_of.simps(2) set_ConsD)
qed auto

lemma sent_to_mem: "m \<in> set (sent_to tx xs) \<Longrightarrow> SendMsg tx m \<in> set xs"
  by (induction tx xs rule: sent_to.induct) (auto split: if_splits)

lemma frames_of_mem: "Out i (Frame m) \<in> set tr \<Longrightarrow> m \<in> set (frames_of (outs_of i tr))"
proof (induction i tr rule: outs_of.induct)
  case (2 i j x tr)
  then show ?case by (cases x) (auto split: if_splits)
qed auto

lemma mem_frames_of: "m \<in> set (frames_of (outs_of i tr)) \<Longrightarrow> Out i (Frame m) \<in> set tr"
proof (induction i tr rule: outs_of.induct)
  case (2 i j x tr)
  then show ?case by (cases x) (auto split: if_splits)
qed auto

lemma session_first:
  assumes "session_events env m0 hdr es" and "ev \<in> set es" and "payload ev \<noteq> None"
    and "prefix (payloads es) (posts env got)"
  shows "got \<noteq> [] \<and> hd got = m0"
proof -
  obtain rest where "es = init_of env m0 hdr # rest"
    using assms(1-3) by (auto simp: session_events_def Let_def)
  then have "payloads es = m0 # payloads rest"
    using payloads_simps(2) [of "[init_of env m0 hdr]" rest] by (simp add: init_of_def)
  with assms(4) show ?thesis by (auto simp: posts_def split: list.splits)
qed

lemma event_provenance:
  assumes "sys_reach env cfg s tr" and "ev \<in> set (handled (turns tr))" and "payload ev = Some m"
  obtains j hdr where "j < length (sy_conns s)" "valid_first env (hd (got_by j tr)) hdr" "auth_ok env hdr"
    "event_channel ev = hash_channel (env_sip env) hdr" "m \<in> set (got_by j tr)"
    "\<And>h ch tx e. ev = Init h ch tx e m \<Longrightarrow> tx = j \<and> e = j \<and> m = hd (got_by j tr) \<and> h = hash_header (env_sip env) hdr"
proof -
  have "ev \<in> set (emitted tr)" using assms(2) loop_along(3) [OF assms(1), symmetric] by simp
  then obtain j where j: "ev \<in> set (events_of (outs_of j tr))" using emitted_by by blast
  with hists_reach [OF assms(1)] have jn: "j < length (sy_conns s)"
    by (cases "j < length (sy_conns s)") (auto simp: hists_def)
  then have h: "conn_hist (env_at env j) (sy_conns s ! j) (outs_of j tr) (got_by j tr) (sent_to j (did tr))"
    using hists_reach [OF assms(1)] by (simp add: hists_def)
  obtain m0 hdr where v: "valid_first (env_at env j) m0 hdr"
    "session_events (env_at env j) m0 hdr (events_of (outs_of j tr))"
    using conn_hist_session [OF h] j by fastforce
  note ev = session_event_cases [OF v(2) j] assms(3)
  note pre = posting_prefix [OF conn_hist_posting [OF h]]
  have first: "hd (got_by j tr) = m0" using session_first [OF v(2) j _ pre] assms(3) by simp
  have "m \<in> set (payloads (events_of (outs_of j tr)))"
    using j assms(3) by (force simp: payloads_def List.map_filter_def)
  then have "m \<in> set (posts (env_at env j) (got_by j tr))" by (rule subsetD [OF set_mono_prefix [OF pre]])
  then have "m \<in> set (got_by j tr)" by (rule subsetD [OF set_posts])
  then show thesis using v(1) ev jn first by (intro that [of j hdr]) (auto simp: init_of_def)
qed

text \<open>
  C10: only authenticated clients of a channel read and write it. Every message that is written to
  a client (pings and close frames of the server apart) was received from a client; the first
  frames of both clients are valid headers that authenticate, and the two headers hash to the same
  channel. This holds whatever the clients send and however the tasks interleave.
\<close>

theorem system_authentic:
  assumes "sys_run env cfg sys_init as = Some (s, tr)"
    and "Out i (Frame m) \<in> set tr" and "user_msg env m"
  shows "\<exists>j hi hj. valid_first env (hd (got_by i tr)) hi \<and> auth_ok env hi \<and>
           m \<in> set (got_by j tr) \<and> valid_first env (hd (got_by j tr)) hj \<and> auth_ok env hj \<and>
           hash_channel (env_sip env) hi = hash_channel (env_sip env) hj"
proof -
  note r = sys_run_init_reach [OF assms(1)]
  have fr: "m \<in> set (frames_of (outs_of i tr))" using assms(2) by (rule frames_of_mem)
  then have "i < length (sy_conns s)"
    using hists_reach [OF r] by (cases "i < length (sy_conns s)") (auto simp: hists_def)
  then have "delivery env (sy_conns s ! i) (frames_of (outs_of i tr)) (sent_to i (did tr))"
    using hists_reach [OF r] conn_hist_delivery by (fastforce simp: hists_def)
  from set_mono_prefix [OF delivery_prefix [OF this]] fr assms(3) have "m \<in> set (sent_to i (did tr))"
    by (auto simp: user_msgs_def)
  then have "SendMsg i m \<in> set (did tr)" by (rule sent_to_mem)
  then have "SendMsg i m \<in> set (snd (loop_run cfg loop_init (turns tr)))"
    using loop_along(2) [OF r, symmetric] by simp
  from sent_source [OF this] obtain h ch e m0 ev where ev: "Init h ch i e m0 \<in> set (handled (turns tr))"
    "ev \<in> set (handled (turns tr))" "event_channel ev = ch" "payload ev = Some m" by blast
  obtain hi where "valid_first env (hd (got_by i tr)) hi" "auth_ok env hi" "ch = hash_channel (env_sip env) hi"
    using event_provenance [OF r ev(1), of m0] by auto
  moreover obtain j hj where "valid_first env (hd (got_by j tr)) hj" "auth_ok env hj"
    "ch = hash_channel (env_sip env) hj" "m \<in> set (got_by j tr)"
    using event_provenance [OF r ev(2,4)] ev(3) by metis
  ultimately show ?thesis by metis
qed

section \<open>End to end\<close>

fun init_for :: "nat \<Rightarrow> 'm ws_event \<Rightarrow> bool" where
  "init_for i (Init h ch tx e m) \<longleftrightarrow> tx = i"
| "init_for i _ \<longleftrightarrow> False"

lemma session_inits:
  assumes "session_events env m hdr es"
  shows "filter (init_for i) es = (if auth_ok env hdr \<and> es \<noteq> [] \<and> hd es = init_of env m hdr \<and> env_tx2 env = i
           then [init_of env m hdr] else [])"
proof -
  have "filter (init_for i) rest = []" if "msgs_then_logoff k c rest" for k c rest
    using that by (induction k c rest rule: msgs_then_logoff.induct) auto
  with assms show ?thesis by (auto simp: session_events_def Let_def init_of_def)
qed

lemma outs_step: "\<nexists>e. x = Out k (Emit e) \<Longrightarrow> events_of (outs_of k (x # tr)) = events_of (outs_of k tr)"
proof (cases x)
  case (Out j y)
  then show "\<nexists>e. x = Out k (Emit e) \<Longrightarrow> events_of (outs_of k (x # tr)) = events_of (outs_of k tr)"
    by (cases y) auto
qed simp_all

lemma emitted_step: "\<nexists>j e. x = Out j (Emit e) \<Longrightarrow> emitted (x # tr) = emitted tr"
proof (cases x)
  case (Out j y)
  then show "\<nexists>j e. x = Out j (Emit e) \<Longrightarrow> emitted (x # tr) = emitted tr" by (cases y) auto
qed simp_all

lemma filter_emitted:
  assumes "\<And>j. j \<noteq> i \<Longrightarrow> filter P (events_of (outs_of j tr)) = []"
  shows "filter P (emitted tr) = filter P (events_of (outs_of i tr))"
  using assms
proof (induction tr)
  case (Cons x tr)
  have rest: "filter P (events_of (outs_of k tr)) = []" if "k \<noteq> i" for k
  proof (cases "\<exists>e. x = Out k (Emit e)")
    case True
    with Cons.prems [OF that] show ?thesis by (auto split: if_splits)
  next
    case False
    then have "events_of (outs_of k (x # tr)) = events_of (outs_of k tr)" by (rule outs_step)
    with Cons.prems [OF that] show ?thesis by simp
  qed
  show ?case
  proof (cases "\<exists>j e. x = Out j (Emit e)")
    case True
    then obtain j e where x: "x = Out j (Emit e)" by blast
    have "\<not> P e" if "j \<noteq> i" using Cons.prems [OF that] by (simp add: x split: if_splits)
    with Cons.IH [OF rest] x show ?thesis by auto
  next
    case False
    then have "emitted (x # tr) = emitted tr" "events_of (outs_of i (x # tr)) = events_of (outs_of i tr)"
      using emitted_step [of x tr] outs_step [of x i tr] by blast+
    with Cons.IH [OF rest] show ?thesis by simp
  qed
qed simp

lemma conn_inits:
  assumes "sys_reach env cfg s tr"
  shows "length (filter (init_for i) (events_of (outs_of j tr))) \<le> (if j = i then 1 else 0)"
proof (cases "j < length (sy_conns s)")
  case True
  then have "conn_hist (env_at env j) (sy_conns s ! j) (outs_of j tr) (got_by j tr) (sent_to j (did tr))"
    using hists_reach [OF assms] by (simp add: hists_def)
  from conn_hist_session [OF this] session_inits [of "env_at env j" _ _ "events_of (outs_of j tr)" i]
  show ?thesis by auto
next
  case False
  then show ?thesis using hists_reach [OF assms] by (simp add: hists_def)
qed

lemma init_unique:
  assumes "sys_reach env cfg s tr" and "turns tr = pre @ Event (Init h ch i e m) t1 t2 # post"
  shows "filter (init_for i) (handled pre) = []" and "filter (init_for i) (handled post) = []"
    and "filter (init_for i) (sy_chan s) = []"
proof -
  have none: "filter (init_for i) (events_of (outs_of j tr)) = []" if "j \<noteq> i" for j
    using conn_inits [OF assms(1), of i j] that by simp
  have "length (filter (init_for i) (emitted tr)) \<le> 1"
    using conn_inits [OF assms(1), of i i] filter_emitted [OF none] by simp
  then have "length (filter (init_for i) (handled pre)) + length (filter (init_for i) (handled post)) +
      length (filter (init_for i) (sy_chan s)) = 0"
    unfolding loop_along(3) [OF assms(1), symmetric] assms(2) handled_append by simp
  then show "filter (init_for i) (handled pre) = []" and "filter (init_for i) (handled post) = []"
    and "filter (init_for i) (sy_chan s) = []"
    by simp_all
qed

lemma undisturbed_iff:
  "list_all (undisturbed h ch tx) is \<longleftrightarrow> Logoff h ch \<notin> set (handled is) \<and> filter (init_for tx) (handled is) = []"
proof (induction "is")
  case (Cons i "is")
  then show ?case
  proof (cases i)
    case (Event ev t1 t2)
    with Cons show ?thesis by (cases ev) auto
  qed auto
qed simp

text \<open>All the loop ever sends to connection \<open>i\<close>.\<close>

lemma sent_from_join:
  assumes "sys_reach env cfg s tr" and "turns tr = pre @ Event (Init h ch i e m) t1 t2 # post"
    and "member (fst (loop_run cfg loop_init pre)) ch h = None" and "Logoff h ch \<notin> set (handled post)"
  shows "sent_to i (did tr @ sy_todo s) = history (fst (loop_run cfg loop_init pre)) ch @ live h ch post"
proof -
  let ?l = "fst (loop_run cfg loop_init pre)"
  note once = init_unique [OF assms(1,2)]
  have "sent_to i (snd (loop_run cfg loop_init pre)) = []"
  proof (rule ccontr)
    assume "sent_to i (snd (loop_run cfg loop_init pre)) \<noteq> []"
    then obtain x where "x \<in> set (sent_to i (snd (loop_run cfg loop_init pre)))"
      by (cases "sent_to i (snd (loop_run cfg loop_init pre))") auto
    from sent_source [OF sent_to_mem [OF this]] once(1) show False by (auto simp: filter_empty_conv)
  qed
  moreover have "member ?l c x \<noteq> Some i" for c x
    using sourced_run [of cfg pre] once(1) unfolding sourced_def filter_empty_conv by (metis init_for.simps(1))
  then have here: "only_here (fst (handle_init cfg t1 t2 h ch i e m ?l)) ch h i"
    using assms(3) by (auto simp: only_here_def member_handle_init [OF prod.collapse [symmetric]])
  have "list_all (undisturbed h ch i) post" using once(2) assms(4) by (simp add: undisturbed_iff)
  note rest = subscriber_run [OF inv_handle_init [OF loop_run_inv [OF loop_inv_init] prod.collapse [symmetric]] here this]
  have "did tr @ sy_todo s = snd (loop_run cfg loop_init (pre @ Event (Init h ch i e m) t1 t2 # post))"
    using loop_along(2) [OF assms(1)] assms(2) by simp
  ultimately show ?thesis
    using rest handle_init_new(1) [OF assms(3) prod.collapse [symmetric], of cfg t1 t2 i e m]
    by (simp add: loop_run_append split: prod.splits)
qed

text \<open>
  C1: end-to-end delivery. Once the loop has handled the Init of connection \<open>i\<close> for a session that
  was not registered, and until it handles a Logoff of that session, the user messages written to
  the client are a prefix of: the channel's stored history at the join, then every message that other
  sessions posted on the channel, in the order the loop took them. As long as the connection is
  open nothing is lost: when its queue is drained and the loop's turn is over, the client has been
  written exactly these messages.
\<close>

theorem system_delivers:
  assumes "sys_run env cfg sys_init as = Some (s, tr)"
    and "turns tr = pre @ Event (Init h ch i e m) t1 t2 # post"
    and "member (fst (loop_run cfg loop_init pre)) ch h = None" and "Logoff h ch \<notin> set (handled post)"
  shows "prefix (user_msgs env (frames_of (outs_of i tr)))
           (user_msgs env (history (fst (loop_run cfg loop_init pre)) ch @ live h ch post)) \<and>
         (sy_todo s = [] \<and> \<not> c_closed (sy_conns s ! i) \<and> c_queue (sy_conns s ! i) = [] \<and>
          c_tx (sy_conns s ! i) = TxNext \<longrightarrow>
            user_msgs env (frames_of (outs_of i tr)) =
            user_msgs env (history (fst (loop_run cfg loop_init pre)) ch @ live h ch post))"
proof -
  note r = sys_run_init_reach [OF assms(1)]
  have "Init h ch i e m \<in> set (handled (turns tr))" by (simp add: assms(2) handled_append)
  then have "i < length (sy_conns s)" using event_provenance [OF r, of "Init h ch i e m" m] by auto
  then have d: "delivery env (sy_conns s ! i) (frames_of (outs_of i tr)) (sent_to i (did tr))"
    using hists_reach [OF r] conn_hist_delivery by (fastforce simp: hists_def)
  have all: "user_msgs env (history (fst (loop_run cfg loop_init pre)) ch @ live h ch post) =
      user_msgs env (sent_to i (did tr)) @ user_msgs env (sent_to i (sy_todo s))"
    using sent_from_join [OF r assms(2-4), symmetric] by (simp only: sent_to_append user_msgs_simps(2))
  show ?thesis
    unfolding all using delivery_prefix [OF d] d
    by (auto simp: delivery_def writing_def queued_def List.map_filter_def intro: prefix_prefix)
qed

section \<open>A run of two clients\<close>

text \<open>Bob joins the room and posts while Alice is there, then again after he has joined.\<close>

definition room_env :: "(string, string) conn_env" where
  "room_env = demo_env\<lparr>env_parse := (\<lambda>t.
     if t = ''join'' then Some \<lparr>uid = ''alice'', channel = ''room'', auth = None\<rparr>
     else if t = ''enter'' then Some \<lparr>uid = ''bob'', channel = ''room'', auth = None\<rparr> else None)\<rparr>"

definition join_acts :: "nat \<Rightarrow> string \<Rightarrow> string sys_act list" where
  "join_acts i m = [Connect, Conn i (RxFrame m), Conn i (RxEvent True), Take 1 1, Perform, Conn i RxErr]"

definition post_acts :: "nat \<Rightarrow> string \<Rightarrow> string sys_act list" where
  "post_acts i m = [Conn i (RxFrame m), Conn i (RxEvent True), Take 2 2]"

definition write_acts :: "nat \<Rightarrow> string sys_act list" where
  "write_acts i = [Perform, Conn i TxTake, Conn i (TxSent True)]"

definition room_acts :: "string sys_act list" where
  "room_acts = join_acts 0 ''join'' @ join_acts 1 ''enter'' @ write_acts 1 @
     post_acts 0 ''hello'' @ write_acts 1"

definition room_turns :: "string loop_in list" where
  "room_turns =
     [Event (Init 19 4 0 0 ''join'') 1 1, Event (Init 17 4 1 1 ''enter'') 1 1, Event (Msg 19 4 ''hello'') 2 2]"

lemma room_run:
  "map_option (\<lambda>(s, tr). (turns tr, frames_of (outs_of 1 tr), got_by 0 tr, events_of (outs_of 1 tr),
       length (sy_conns s), sy_chan s)) (sys_run room_env cfg2 sys_init room_acts) =
   Some (room_turns, [''join'', ''hello''], [''join'', ''hello''], [Init 17 4 1 1 ''enter''], 2, [])"
  by code_simp

theorem system_delivers_witness:
  "\<exists>s tr. sys_run room_env cfg2 sys_init room_acts = Some (s, tr) \<and>
     prefix (user_msgs room_env (frames_of (outs_of 1 tr))) [''join'', ''hello'']"
proof -
  obtain s tr where run: "sys_run room_env cfg2 sys_init room_acts = Some (s, tr)" and tn: "turns tr = room_turns"
    using room_run by auto
  let ?pre = "[Event (Init 19 4 0 0 ''join'') 1 1]" and ?post = "[Event (Msg 19 4 ''hello'') 2 2]"
  have "turns tr = ?pre @ Event (Init 17 4 1 1 ''enter'') 1 1 # ?post" by (simp add: tn room_turns_def)
  moreover have "member (fst (loop_run cfg2 loop_init ?pre)) 4 17 = None" by code_simp
  moreover have "history (fst (loop_run cfg2 loop_init ?pre)) 4 = [''join'']" by code_simp
  moreover have "user_msgs room_env [''join'', ''hello''] = [''join'', ''hello'']" by code_simp
  ultimately show ?thesis using system_delivers [OF run, of ?pre 17 4 1 1 "''enter''" 1 1 ?post] run by simp
qed

theorem system_authentic_witness:
  "\<exists>tr j hj. ''hello'' \<in> set (got_by j tr) \<and> valid_first room_env (hd (got_by j tr)) hj \<and>
     Out 1 (Frame ''hello'') \<in> set tr"
proof -
  obtain s tr where run: "sys_run room_env cfg2 sys_init room_acts = Some (s, tr)"
    and "frames_of (outs_of 1 tr) = [''join'', ''hello'']"
    using room_run by auto
  then have "Out 1 (Frame ''hello'') \<in> set tr" using mem_frames_of [of "''hello''" 1 tr] by simp
  moreover have "user_msg room_env ''hello''" by code_simp
  ultimately show ?thesis using system_authentic [OF run, of 1 "''hello''"] by blast
qed

section \<open>Posts in order\<close>

fun event_session :: "'m ws_event \<Rightarrow> u64" where
  "event_session (Init h ch tx e m) = h"
| "event_session (Msg h ch m) = h"
| "event_session (Logoff h ch) = h"

lemma valid_first_unique: "valid_first env m hdr \<Longrightarrow> valid_first env m hdr' \<Longrightarrow> hdr' = hdr"
  by (auto simp: valid_first_def split: option.splits)

lemma payloads_filter:
  "(\<And>ev. ev \<in> set es \<Longrightarrow> payload ev \<noteq> None \<Longrightarrow> P ev) \<Longrightarrow> payloads (filter P es) = payloads es"
proof (induction es)
  case (Cons e es)
  then have "payloads (filter P es) = payloads es" and "P e \<or> payload e = None" by auto
  then show ?case by (cases "payload e") (auto simp: payloads_def List.map_filter_def)
qed simp

text \<open>
  C11: a client's posts reach the event loop complete and in order. When no other connection
  speaks for the same session, the messages of the session that the loop has handled or finds in
  the channel are, in order, the first of what the client posted (its first frame, then every
  frame but pongs and close frames); and all of it, but for one message the receiver task is about
  to send, as long as that task reads.
\<close>

theorem system_posts_in_order:
  assumes "sys_run env cfg sys_init as = Some (s, tr)" and "j < length (sy_conns s)"
    and "valid_first env (hd (got_by j tr)) hdr"
    and "\<forall>k ev. k \<noteq> j \<longrightarrow> ev \<in> set (events_of (outs_of k tr)) \<longrightarrow> event_session ev \<noteq> hash_header (env_sip env) hdr"
  shows "let posted = payloads (filter (\<lambda>ev. event_session ev = hash_header (env_sip env) hdr)
                        (handled (turns tr) @ sy_chan s))
         in prefix posted (posts env (got_by j tr)) \<and>
            (reading (c_rx (sy_conns s ! j)) \<longrightarrow>
               posted @ pending (c_rx (sy_conns s ! j)) = posts env (got_by j tr))"
proof -
  note r = sys_run_init_reach [OF assms(1)]
  let ?h = "hash_header (env_sip env) hdr" and ?es = "events_of (outs_of j tr)"
  let ?P = "\<lambda>ev. event_session ev = ?h"
  have hist: "conn_hist (env_at env j) (sy_conns s ! j) (outs_of j tr) (got_by j tr) (sent_to j (did tr))"
    using hists_reach [OF r] assms(2) by (simp add: hists_def)
  note post = conn_hist_posting [OF hist]
  have mine: "?P ev" if ev: "ev \<in> set ?es" "payload ev \<noteq> None" for ev
  proof -
    obtain m0 hdr' where v: "valid_first (env_at env j) m0 hdr'" "session_events (env_at env j) m0 hdr' ?es"
      using conn_hist_session [OF hist] ev(1) by fastforce
    have "hd (got_by j tr) = m0" using session_first [OF v(2) ev posting_prefix [OF post]] by simp
    then have "hdr' = hdr" using v(1) assms(3) valid_first_unique [of env m0] by simp
    with session_event_cases [OF v(2) ev] show ?thesis by (auto simp: init_of_def)
  qed
  have "filter ?P (events_of (outs_of k tr)) = []" if "k \<noteq> j" for k
    using assms(4) that by (auto simp: filter_empty_conv)
  from filter_emitted [OF this] have "payloads (filter ?P (emitted tr)) = payloads (filter ?P ?es)" by simp
  also have "\<dots> = payloads ?es" by (rule payloads_filter) (rule mine)
  finally have "payloads (filter ?P (handled (turns tr) @ sy_chan s)) = payloads ?es"
    by (simp only: loop_along(3) [OF r])
  moreover have "posts (env_at env j) = posts env" by (intro ext) (simp add: posts_def split: list.split)
  ultimately show ?thesis using post posting_prefix [OF post] by (simp add: posting_def Let_def)
qed

theorem system_posts_in_order_witness:
  "prefix (payloads (filter (\<lambda>ev. event_session ev = 19) (handled room_turns))) (posts room_env [''join'', ''hello''])"
proof -
  obtain s tr where run: "sys_run room_env cfg2 sys_init room_acts = Some (s, tr)"
    and tr: "turns tr = room_turns" "got_by 0 tr = [''join'', ''hello'']" "events_of (outs_of 1 tr) = [Init 17 4 1 1 ''enter'']"
      "length (sy_conns s) = 2" "sy_chan s = []"
    using room_run by auto
  have hdr: "valid_first room_env ''join'' demo_hdr" "hash_header (env_sip room_env) demo_hdr = 19" by code_simp+
  have "event_session ev \<noteq> 19" if "k \<noteq> 0" "ev \<in> set (events_of (outs_of k tr))" for k ev
  proof (cases "k = 1")
    case True
    with that tr(3) show ?thesis by simp
  next
    case False
    then have "outs_of k tr = []"
      using that(1) tr(4) hists_reach [OF sys_run_init_reach [OF run]] by (simp add: hists_def)
    with that show ?thesis by simp
  qed
  then show ?thesis
    using system_posts_in_order [OF run, of 0 demo_hdr] hdr tr by (simp add: Let_def)
qed

section \<open>The events of a connection\<close>

text \<open>The frames a run's actions bring from the client.\<close>

definition frames_got :: "'m conn_act list \<Rightarrow> 'm list" where
  "frames_got as = concat (map frames_in as)"

lemma frames_got_simps [simp]: "frames_got [] = []" "frames_got (as @ [a]) = frames_got as @ frames_in a"
  by (simp_all add: frames_got_def)

lemma conn_run_snoc:
  "conn_run env s (as @ [a]) = Some (t, out) \<Longrightarrow>
   \<exists>u out1 out2. conn_run env s as = Some (u, out1) \<and> conn_step env u a = Some (t, out2) \<and> out = out1 @ out2"
proof (induction as arbitrary: s out)
  case Nil
  then show ?case by (auto split: option.splits)
next
  case (Cons b bs)
  then obtain s' o1 o2 where st: "conn_step env s b = Some (s', o1)"
    "conn_run env s' (bs @ [a]) = Some (t, o2)" "out = o1 @ o2"
    using Cons.prems unfolding append_Cons conn_run_Cons by blast
  then obtain u o3 o4 where "conn_run env s' bs = Some (u, o3)" "conn_step env u a = Some (t, o4)" "o2 = o3 @ o4"
    using Cons.IH by blast
  with st show ?case unfolding conn_run_Cons by (metis append.assoc)
qed

lemma conn_run_hist:
  "conn_run env conn_init as = Some (s, out) \<Longrightarrow> \<exists>sent. conn_hist env s out (frames_got as) sent"
proof (induction as arbitrary: s out rule: rev_induct)
  case Nil
  then show ?case using conn_hist.start by auto
next
  case (snoc a as)
  then obtain u o1 o2 where st: "conn_run env conn_init as = Some (u, o1)" "conn_step env u a = Some (s, o2)"
    "out = o1 @ o2"
    using conn_run_snoc by blast
  from snoc.IH [OF st(1)] obtain sent where "conn_hist env u o1 (frames_got as) sent" ..
  from conn_hist.step [OF this st(2)] st(3) show ?case by auto
qed

text \<open>A connection without a valid first frame has said nothing. One whose header authenticated has begun
  with its Init, or is about to, unless the event channel was closed.\<close>

definition told ::
  "('h, 'm) conn_env \<Rightarrow> 'm conn_act list \<Rightarrow> 'm ws_conn \<Rightarrow> 'm ws_event list \<Rightarrow> 'm \<Rightarrow> mles_header \<Rightarrow> bool" where
  "told env as s es m hdr \<longleftrightarrow>
     identified env s es m hdr \<and> (\<exists>rest. frames_got as = m # rest) \<and>
     (auth_ok env hdr \<and> RxEvent False \<notin> set as \<longrightarrow>
        es = [] \<and> c_rx s = RxSendInit (init_of env m hdr) \<or> (\<exists>r. es = init_of env m hdr # r))"

definition talk_inv :: "('h, 'm) conn_env \<Rightarrow> 'm conn_act list \<Rightarrow> 'm ws_conn \<Rightarrow> 'm ws_event list \<Rightarrow> bool" where
  "talk_inv env as s es \<longleftrightarrow>
     unidentified s es \<and> (c_rx s = RxFirst \<longrightarrow> frames_got as = []) \<or> (\<exists>m hdr. told env as s es m hdr)"

lemma told_first:
  assumes "frames_got as = []" and "c_rx s = RxFirst" and "es = []"
    and "identified env (rx_first env m s) es m hdr"
  shows "told env (as @ [RxFrame m]) (rx_first env m s) es m hdr"
proof -
  have "valid_first env m hdr" using assms(4) by (simp add: identified_def)
  then show ?thesis
    using assms by (auto simp: told_def rx_first_valid)
qed

lemma told_trans:
  assumes "told env as s es m hdr" and "closing_inv s" and "conn_trans env s a s' out"
  shows "told env (as @ [a]) s' (es @ events_of out) m hdr"
proof -
  have id: "identified env s es m hdr" and fr: "\<exists>rest. frames_got as = m # rest"
    using assms(1) by (simp_all add: told_def)
  note id' = identified_trans [OF id assms(2,3)]
  have "es @ events_of out = [] \<and> c_rx s' = RxSendInit (init_of env m hdr) \<or>
      (\<exists>r. es @ events_of out = init_of env m hdr # r)"
    if ok: "auth_ok env hdr" "RxEvent False \<notin> set (as @ [a])"
  proof (cases "es = [] \<and> c_rx s = RxSendInit (init_of env m hdr)")
    case False
    then show ?thesis using assms(1) ok by (auto simp: told_def)
  next
    case True
    from assms(3) show ?thesis
    proof (cases rule: conn_trans.cases)
      case (t_ping t)
      with queue_send_fields [OF t_ping(5)] True show ?thesis by (simp add: pg_count_def pg_head_def Let_def)
    next
      case (t_ping_err t)
      with queue_send_fields [OF t_ping_err(5)] True show ?thesis by simp
    next
      case (t_pg_end t sent)
      with queue_send_fields [OF t_pg_end(5)] True show ?thesis by simp
    next
      case (t_loop_send m' sent)
      with queue_send_fields [OF t_loop_send(4)] True show ?thesis by simp
    qed (use True ok in \<open>auto simp: rx_event_pending_def pg_head_def tx_cleanup_def\<close>)
  qed
  with id' fr show ?thesis by (auto simp: told_def)
qed

lemma talk_inv_run:
  "conn_run env conn_init as = Some (s, out) \<Longrightarrow> talk_inv env as s (events_of out)"
proof (induction as arbitrary: s out rule: rev_induct)
  case Nil
  then show ?case by (auto simp: talk_inv_def unidentified_def conn_init_def)
next
  case (snoc a as)
  then obtain u o1 o2 where st: "conn_run env conn_init as = Some (u, o1)" "conn_step env u a = Some (s, o2)"
    "out = o1 @ o2"
    using conn_run_snoc by blast
  note tr = conn_step_trans [OF st(2)] and cl = closing_inv_reach [OF conn_run_init_reach [OF st(1)]]
  from snoc.IH [OF st(1)] consider
      (new) "unidentified u (events_of o1)" "c_rx u = RxFirst \<longrightarrow> frames_got as = []"
    | (known) m hdr where "told env as u (events_of o1) m hdr"
    by (auto simp: talk_inv_def)
  then show ?case
  proof cases
    case known
    from told_trans [OF this cl tr] st(3) show ?thesis by (auto simp: talk_inv_def)
  next
    case new
    show ?thesis
    proof (cases "unidentified s (events_of out)")
      case True
      have "frames_got (as @ [a]) = []" if "c_rx s = RxFirst"
        using rx_first_kept [OF tr that] new(2) by (cases a) auto
      with True show ?thesis by (simp add: talk_inv_def)
    next
      case False
      then obtain m hdr where id: "a = RxFrame m" "c_rx u = RxFirst" "identified env s (events_of out) m hdr"
        using unidentified_trans [OF new(1) tr] st(3) by auto
      have es: "events_of out = []" "s = rx_first env m u"
        using new(1) st id(1,2) by (auto simp: unidentified_def quiet_def rx_frame_def)
      have "told env (as @ [RxFrame m]) (rx_first env m u) [] m hdr"
        using told_first [of as u "[]" env m hdr] new(2) id(2,3) es by simp
      then show ?thesis using es id(1) by (auto simp: talk_inv_def)
    qed
  qed
qed

lemma msgs_then_logoff_shape:
  "msgs_then_logoff h ch es \<Longrightarrow>
   \<exists>ms off. es = map (Msg h ch) ms @ off \<and> (off = [] \<or> off = [Logoff h ch] \<and> h \<noteq> 0 \<and> ch \<noteq> 0)"
proof (induction h ch es rule: msgs_then_logoff.induct)
  case (2 h ch h' ch' m es)
  then obtain ms off where "es = map (Msg h ch) ms @ off" "off = [] \<or> off = [Logoff h ch] \<and> h \<noteq> 0 \<and> ch \<noteq> 0"
    by auto
  with 2 show ?case by (intro exI [of _ "m # ms"]) auto
qed auto

lemma payloads_posts: "payloads (map (Msg h ch) ms) = ms"
  by (simp add: payloads_def List.map_filter_def comp_def)

text \<open>C28: what a connection tells the event loop is determined by the frames its client sent.
  Without a first frame that is a header with ASCII, non-empty uid and channel it says nothing. Otherwise
  the events go by the hashes of that very frame's header, and are one of two things. If the header
  authenticates: nothing yet, or one Init with that frame, then messages that are the first of the later
  frames (pongs and close frames apart) in order, then at most one Logoff. If the header does not
  authenticate, or the event channel was closed before the Init was taken: no Init and no message, at
  most a lone Logoff, because the hashes are stored before the token is checked.\<close>

theorem conn_events_discipline:
  assumes "conn_run env conn_init as = Some (s, out)"
  shows "events_of out = [] \<or>
    (\<exists>m rest hdr. frames_got as = m # rest \<and> valid_first env m hdr \<and>
      (let h = hash_header (env_sip env) hdr; ch = hash_channel (env_sip env) hdr
       in (\<not> auth_ok env hdr \<or> RxEvent False \<in> set as) \<and> events_of out = [Logoff h ch] \<and> h \<noteq> 0 \<and> ch \<noteq> 0 \<or>
          auth_ok env hdr \<and>
          (\<exists>ms off. events_of out = Init h ch (env_tx2 env) (env_err env) m # map (Msg h ch) ms @ off \<and>
             prefix ms (filter (\<lambda>m. \<not> is_close (env_msg env) m \<and> \<not> is_pong (env_msg env) m) rest) \<and>
             (off = [] \<or> off = [Logoff h ch] \<and> h \<noteq> 0 \<and> ch \<noteq> 0))))"
proof (cases "events_of out = []")
  case False
  with talk_inv_run [OF assms] obtain m hdr where t: "told env as s (events_of out) m hdr"
    by (auto simp: talk_inv_def unidentified_def)
  then obtain rest where fr: "frames_got as = m # rest" by (auto simp: told_def)
  define h ch where "h = hash_header (env_sip env) hdr" and "ch = hash_channel (env_sip env) hdr"
  have v: "valid_first env m hdr" and ses: "session_events env m hdr (events_of out)"
    using t by (auto simp: told_def identified_def dest: rx_agrees_session)
  from ses False consider (lone) "events_of out = [Logoff h ch]" "h \<noteq> 0" "ch \<noteq> 0"
    | (session) r where "auth_ok env hdr" "events_of out = init_of env m hdr # r" "msgs_then_logoff h ch r"
    by (auto simp: session_events_def Let_def h_def ch_def)
  then have "(\<not> auth_ok env hdr \<or> RxEvent False \<in> set as) \<and> events_of out = [Logoff h ch] \<and> h \<noteq> 0 \<and> ch \<noteq> 0 \<or>
      auth_ok env hdr \<and>
      (\<exists>ms off. events_of out = Init h ch (env_tx2 env) (env_err env) m # map (Msg h ch) ms @ off \<and>
         prefix ms (filter (\<lambda>m. \<not> is_close (env_msg env) m \<and> \<not> is_pong (env_msg env) m) rest) \<and>
         (off = [] \<or> off = [Logoff h ch] \<and> h \<noteq> 0 \<and> ch \<noteq> 0))"
  proof cases
    case lone
    then show ?thesis using t by (auto simp: told_def init_of_def)
  next
    case session
    obtain ms off where ms: "r = map (Msg h ch) ms @ off" "off = [] \<or> off = [Logoff h ch] \<and> h \<noteq> 0 \<and> ch \<noteq> 0"
      using msgs_then_logoff_shape [OF session(3)] by blast
    obtain sent where hist: "conn_hist env s out (m # rest) sent" using conn_run_hist [OF assms] fr by auto
    have "payloads (init_of env m hdr # r) = m # ms"
      using payloads_simps(2) [of "[init_of env m hdr]" r] ms by (auto simp: init_of_def payloads_posts)
    then have "prefix (m # ms) (posts env (m # rest))"
      using posting_prefix [OF conn_hist_posting [OF hist]] session(2) by simp
    then show ?thesis using session ms by (auto simp: posts_def init_of_def h_def ch_def)
  qed
  with fr v show ?thesis unfolding h_def ch_def Let_def by blast
qed simp

definition demo_chat :: "string conn_act list" where
  "demo_chat =
     [RxFrame ''join'', RxEvent True, LoopConfirm, RxErr, RxFrame ''hello'', RxEvent True,
      RxFrame ''!close'', RxQueue, TxTake, TxSent True, TxEvent True]"

lemma demo_chat_run:
  "map_option (events_of \<circ> snd) (conn_run demo_env conn_init demo_chat) =
     Some [Init 19 4 11 21 ''join'', Msg 19 4 ''hello'', Logoff 19 4]"
  by code_simp

theorem conn_events_discipline_witness:
  "\<exists>hdr ms off. valid_first demo_env ''join'' hdr \<and> auth_ok demo_env hdr \<and>
     [Init 19 4 11 21 ''join'', Msg 19 4 ''hello'', Logoff 19 4] =
       Init (hash_header (env_sip demo_env) hdr) (hash_channel (env_sip demo_env) hdr) 11 21 ''join'' #
       map (Msg (hash_header (env_sip demo_env) hdr) (hash_channel (env_sip demo_env) hdr)) ms @ off \<and>
     prefix ms [''hello'']"
proof -
  obtain s out where run: "conn_run demo_env conn_init demo_chat = Some (s, out)"
    and ev: "events_of out = [Init 19 4 11 21 ''join'', Msg 19 4 ''hello'', Logoff 19 4]"
    using demo_chat_run by auto
  have fr: "frames_got demo_chat = [''join'', ''hello'', ''!close'']" by code_simp
  have "filter (\<lambda>m. \<not> is_close (env_msg demo_env) m \<and> \<not> is_pong (env_msg demo_env) m) [''hello'', ''!close''] =
    [''hello'']" "env_tx2 demo_env = 11" "env_err demo_env = 21"
    by code_simp+
  with conn_events_discipline [OF run] show ?thesis
    unfolding ev fr Let_def by (auto simp del: filter.simps)
qed

end
