(* ===== verification/Front_Door.thy ===== *)
theory Front_Door
  imports Ip_Policy Ws_System
begin

text \<open>
  The two ports together (\<^verbatim>\<open>src/src/lib.rs\<close>, \<^verbatim>\<open>run\<close>): one arrival-rate limiter for both, which is swept
  once in a while (\<^verbatim>\<open>retain_recent\<close>), a connection cap for each, and the connections of the TLS
  port, which may be upgraded to WebSockets and hold their permit until the stream is dropped.

  The limiter of the governor crate is a parameter: the quota and the limiter it builds, its check, its
  sweep, and the passing of time on its clock. The contract \<open>keyed_limiter\<close> says what is documented
  of the sweep: the keys it drops are indistinguishable from fresh ones.

  Shown: the sweep changes no decision; without a rate limit the ports do not influence each
  other; and a source that has lost as many WebSocket connections before their first frame as the
  cap allows is refused for ever.
\<close>

section \<open>State and steps\<close>

record ('q, 'g) gov_ops =
  gv_per_minute :: "u32 \<Rightarrow> 'q"
  gv_keyed :: "'q \<Rightarrow> 'g"
  gv_check :: "'g \<Rightarrow> ip_addr \<Rightarrow> 'g \<times> bool"
  gv_retain :: "'g \<Rightarrow> 'g"
  gv_wait :: "nat \<Rightarrow> 'g \<Rightarrow> 'g"

definition create_rate_limiter :: "('q, 'g) gov_ops \<Rightarrow> u32 \<Rightarrow> 'g" where
  "create_rate_limiter gv per_minute = gv_keyed gv (gv_per_minute gv per_minute)"

text \<open>What a connection of the TLS port is used for: requests, or a WebSocket.\<close>

datatype 'm conn_use = Plain | Socket "'m ws_conn"

record ('g, 'm) front_state =
  fd_rate :: "'g option"
  fd_tls_limiter :: per_ip_limiter
  fd_tls :: "(permitted_stream \<times> 'm conn_use) list"
  fd_http_limiter :: per_ip_limiter
  fd_http :: "permitted_stream list"

definition front_init :: "('q, 'g) gov_ops \<Rightarrow> u32 \<Rightarrow> u32 option \<Rightarrow> ('g, 'm) front_state" where
  "front_init gv per_ip_conn_limit rate_limit =
     \<lparr>fd_rate = map_option (create_rate_limiter gv) rate_limit,
      fd_tls_limiter = limiter_new per_ip_conn_limit, fd_tls = [],
      fd_http_limiter = limiter_new per_ip_conn_limit, fd_http = []\<rparr>"

text \<open>The policy on one item of a listener, with the limiter of its port.\<close>

definition admit ::
  "('g \<Rightarrow> ip_addr \<Rightarrow> 'g \<times> bool) \<Rightarrow> 'g option \<Rightarrow> per_ip_limiter \<Rightarrow> 'e + tcp_stream \<Rightarrow>
   'g option \<times> per_ip_limiter \<times> permitted_stream list" where
  "admit check_key rate lim conn =
     (case enforce_ip_policy check_key \<lparr>po_limiter = lim, po_rate = rate\<rparr> conn of
        (st, r) \<Rightarrow> (po_rate st, po_limiter st, case r of Some (Inr ps) \<Rightarrow> [ps] | _ \<Rightarrow> []))"

text \<open>The stream of a connection is dropped when its requests are over, and the stream of a WebSocket when
  both tasks that own a half of it have ended.\<close>

fun may_end :: "'m conn_use \<Rightarrow> bool" where
  "may_end Plain = True"
| "may_end (Socket c) = (\<not> holds_stream c)"

text \<open>
  What can happen: an item of the TLS listener, the end of a TLS connection, its upgrade, a step of its
  tasks, an item of the listener of port 80, the end of such a connection, the sweep, and
  the passing of time. A step of the tasks names the connection by its place among the open ones and by
  the number of its queue and confirmation channel. An action that cannot happen changes nothing.
\<close>

datatype ('e, 'm) front_act =
    TlsItem "'e + tcp_stream"
  | TlsEnds nat
  | Upgrades nat
  | WsAct nat nat "'m conn_act"
  | HttpItem "'e + tcp_stream"
  | HttpEnds nat
  | Retain
  | Wait nat

definition ws_act :: "('h, 'm) conn_env \<Rightarrow> 'm conn_act \<Rightarrow> 'm conn_use \<Rightarrow> 'm conn_use" where
  "ws_act env a u =
     (case u of
        Plain \<Rightarrow> Plain
      | Socket c \<Rightarrow> (case conn_step env c a of None \<Rightarrow> Socket c | Some (c', out) \<Rightarrow> Socket c'))"

fun upgrade :: "'m conn_use \<Rightarrow> 'm conn_use" where
  "upgrade Plain = Socket conn_init"
| "upgrade (Socket c) = Socket c"

definition change_use :: "nat \<Rightarrow> ('m conn_use \<Rightarrow> 'm conn_use) \<Rightarrow>
    (permitted_stream \<times> 'm conn_use) list \<Rightarrow> (permitted_stream \<times> 'm conn_use) list" where
  "change_use i f xs = (if i < length xs then xs[i := (fst (xs ! i), f (snd (xs ! i)))] else xs)"

fun front_step ::
  "('q, 'g) gov_ops \<Rightarrow> ('h, 'm) conn_env \<Rightarrow> ('g, 'm) front_state \<Rightarrow>
   ('e, 'm) front_act \<Rightarrow> ('g, 'm) front_state" where
  "front_step gv env st (TlsItem conn) =
     (case admit (gv_check gv) (fd_rate st) (fd_tls_limiter st) conn of
        (rate, lim, new) \<Rightarrow>
          st\<lparr>fd_rate := rate, fd_tls_limiter := lim, fd_tls := fd_tls st @ map (\<lambda>ps. (ps, Plain)) new\<rparr>)"
| "front_step gv env st (TlsEnds i) =
     (if i < length (fd_tls st) \<and> may_end (snd (fd_tls st ! i))
      then st\<lparr>fd_tls_limiter := permit_drop (fd_tls_limiter st) (ps_permit (fst (fd_tls st ! i))),
              fd_tls := take i (fd_tls st) @ drop (Suc i) (fd_tls st)\<rparr>
      else st)"
| "front_step gv env st (Upgrades i) = st\<lparr>fd_tls := change_use i upgrade (fd_tls st)\<rparr>"
| "front_step gv env st (WsAct i j a) =
     st\<lparr>fd_tls := change_use i (ws_act (env_at env j) a) (fd_tls st)\<rparr>"
| "front_step gv env st (HttpItem conn) =
     (case admit (gv_check gv) (fd_rate st) (fd_http_limiter st) conn of
        (rate, lim, new) \<Rightarrow>
          st\<lparr>fd_rate := rate, fd_http_limiter := lim, fd_http := fd_http st @ new\<rparr>)"
| "front_step gv env st (HttpEnds i) =
     (if i < length (fd_http st)
      then st\<lparr>fd_http_limiter := permit_drop (fd_http_limiter st) (ps_permit (fd_http st ! i)),
              fd_http := take i (fd_http st) @ drop (Suc i) (fd_http st)\<rparr>
      else st)"
| "front_step gv env st Retain = st\<lparr>fd_rate := map_option (gv_retain gv) (fd_rate st)\<rparr>"
| "front_step gv env st (Wait n) = st\<lparr>fd_rate := map_option (gv_wait gv n) (fd_rate st)\<rparr>"

definition front_run ::
  "('q, 'g) gov_ops \<Rightarrow> ('h, 'm) conn_env \<Rightarrow> ('g, 'm) front_state \<Rightarrow>
   ('e, 'm) front_act list \<Rightarrow> ('g, 'm) front_state" where
  "front_run gv env = foldl (front_step gv env)"

lemma front_run_simps [simp]:
  "front_run gv env st [] = st"
  "front_run gv env st (a # as) = front_run gv env (front_step gv env st a) as"
  by (simp_all add: front_run_def)

lemma front_run_append: "front_run gv env st (as @ bs) = front_run gv env (front_run gv env st as) bs"
  by (simp add: front_run_def)

lemma admit_no_rate: "fst (admit check_key None lim conn) = None"
  by (cases conn) (simp_all add: admit_def enforce_ip_policy_def Let_def split: prod.split bool.split)

lemma admit_None: "admit check_key None lim conn = (r, x) \<Longrightarrow> r = None"
  using admit_no_rate [of check_key lim conn] by simp

lemma admit_stream:
  "admit check_key rate lim (Inr s) =
     (if conforms check_key \<lparr>po_limiter = lim, po_rate = rate\<rparr> s
      then case try_acquire lim (stream_key s) of
             (l, q) \<Rightarrow> (rate_after check_key \<lparr>po_limiter = lim, po_rate = rate\<rparr> s, l,
                        if q then [admitted_as s] else [])
      else (rate_after check_key \<lparr>po_limiter = lim, po_rate = rate\<rparr> s, lim, []))"
  by (simp add: admit_def enforce_conforming enforce_over_rate split: prod.split)

section \<open>The sweep of the rate limiter\<close>

text \<open>
  What the sweep promises: it leaves a state that cannot be told apart from the one before by any
  later checks, however much time passes in between.
\<close>

locale keyed_limiter =
  fixes gv :: "('q, 'g) gov_ops" and alike :: "'g \<Rightarrow> 'g \<Rightarrow> bool"
  assumes alike_refl: "alike g g"
    and alike_check: "alike g h \<Longrightarrow>
      snd (gv_check gv g k) = snd (gv_check gv h k) \<and> alike (fst (gv_check gv g k)) (fst (gv_check gv h k))"
    and alike_wait: "alike g h \<Longrightarrow> alike (gv_wait gv n g) (gv_wait gv n h)"
    and alike_retain: "alike g h \<Longrightarrow> alike (gv_retain gv g) h"
begin

definition same_front :: "('g, 'm) front_state \<Rightarrow> ('g, 'm) front_state \<Rightarrow> bool" where
  "same_front st su \<longleftrightarrow>
     rel_option alike (fd_rate st) (fd_rate su) \<and> st\<lparr>fd_rate := None\<rparr> = su\<lparr>fd_rate := None\<rparr>"

lemma same_front_fields:
  "same_front st su \<longleftrightarrow>
     rel_option alike (fd_rate st) (fd_rate su) \<and> fd_tls_limiter st = fd_tls_limiter su \<and> fd_tls st = fd_tls su \<and>
     fd_http_limiter st = fd_http_limiter su \<and> fd_http st = fd_http su"
  by (cases st; cases su) (auto simp: same_front_def)

lemma admit_alike:
  assumes "rel_option alike r r'"
  shows "rel_option alike (fst (admit (gv_check gv) r lim conn)) (fst (admit (gv_check gv) r' lim conn)) \<and>
    snd (admit (gv_check gv) r lim conn) = snd (admit (gv_check gv) r' lim conn)"
proof (cases conn)
  case (Inl e)
  then show ?thesis using assms by (simp add: admit_def enforce_ip_policy_def)
next
  case (Inr s)
  show ?thesis
  proof (cases r)
    case None
    then show ?thesis using assms admit_no_rate [of "gv_check gv" lim conn] by simp
  next
    case (Some g)
    then obtain h where h: "r' = Some h" "alike g h" using assms by (cases r') auto
    obtain g' ok where g': "gv_check gv g (stream_key s) = (g', ok)" by fastforce
    obtain h' where h': "gv_check gv h (stream_key s) = (h', ok)" "alike g' h'"
      using alike_check [OF h(2), of "stream_key s"] g' by (cases "gv_check gv h (stream_key s)") auto
    obtain l q where lq: "try_acquire lim (stream_key s) = (l, q)" by fastforce
    show ?thesis
      using Some h g' h' lq Inr
      by (cases ok; cases q) (simp_all add: admit_def enforce_ip_policy_def)
  qed
qed

lemma same_front_step:
  assumes "same_front st su" and "a \<noteq> Retain"
  shows "same_front (front_step gv env st a) (front_step gv env su a)"
proof (cases a)
  case (TlsItem conn)
  have r: "rel_option alike (fd_rate st) (fd_rate su)" using assms(1) by (simp add: same_front_fields)
  show ?thesis
    using assms(1) admit_alike [OF r, of "fd_tls_limiter su" conn] TlsItem
    by (auto simp: same_front_fields split: prod.splits)
next
  case (HttpItem conn)
  have r: "rel_option alike (fd_rate st) (fd_rate su)" using assms(1) by (simp add: same_front_fields)
  show ?thesis
    using assms(1) admit_alike [OF r, of "fd_http_limiter su" conn] HttpItem
    by (auto simp: same_front_fields split: prod.splits)
next
  case (Wait n)
  then show ?thesis
    using assms(1) alike_wait by (auto simp: same_front_fields elim!: option.rel_cases)
qed (use assms in \<open>auto simp: same_front_fields\<close>)

lemma same_front_retain: "same_front st su \<Longrightarrow> same_front (front_step gv env st Retain) su"
  using alike_retain by (auto simp: same_front_fields elim!: option.rel_cases)

lemma same_front_run:
  "same_front st su \<Longrightarrow>
   same_front (front_run gv env st as) (front_run gv env su (filter (\<lambda>a. a \<noteq> Retain) as))"
proof (induction as arbitrary: st su)
  case (Cons a as)
  show ?case
  proof (cases "a = Retain")
    case True
    then show ?thesis using Cons.IH [OF same_front_retain [OF Cons.prems]] by simp
  next
    case False
    then show ?thesis using Cons.IH [OF same_front_step [OF Cons.prems False]] by simp
  qed
qed simp

lemma same_front_start: "same_front st st"
  using alike_refl by (cases "fd_rate st") (simp_all add: same_front_fields)

end

text \<open>
  The limiter that governor documents (GCRA): for every key the theoretical arrival time of its next
  cell, on a clock. A cell conforms when that time is at most the burst tolerance ahead. The sweep drops
  the keys whose time has passed.
\<close>

record gcra =
  gc_now :: int
  gc_cell :: int
  gc_burst :: int
  gc_tats :: "ip_addr \<rightharpoonup> int"

definition gc_tat :: "gcra \<Rightarrow> ip_addr \<Rightarrow> int" where
  "gc_tat g k = (case gc_tats g k of None \<Rightarrow> gc_now g | Some t \<Rightarrow> max (gc_now g) t)"

definition gcra_ops :: "(int \<times> int, gcra) gov_ops" where
  "gcra_ops =
     \<lparr>gv_per_minute = (\<lambda>n. (60000000000 div uint n, 60000000000)),
      gv_keyed = (\<lambda>(cell, burst). \<lparr>gc_now = 0, gc_cell = cell, gc_burst = burst - cell, gc_tats = (\<lambda>k. None)\<rparr>),
      gv_check = (\<lambda>g k.
        if gc_tat g k \<le> gc_now g + gc_burst g
        then (g\<lparr>gc_tats := (gc_tats g)(k \<mapsto> gc_tat g k + gc_cell g)\<rparr>, True)
        else (g, False)),
      gv_retain = (\<lambda>g. g\<lparr>gc_tats := (\<lambda>k.
        case gc_tats g k of None \<Rightarrow> None | Some t \<Rightarrow> if gc_now g < t then Some t else None)\<rparr>),
      gv_wait = (\<lambda>n g. g\<lparr>gc_now := gc_now g + int n\<rparr>)\<rparr>"

definition gc_alike :: "gcra \<Rightarrow> gcra \<Rightarrow> bool" where
  "gc_alike g h \<longleftrightarrow>
     gc_now g = gc_now h \<and> gc_cell g = gc_cell h \<and> gc_burst g = gc_burst h \<and> (\<forall>k. gc_tat g k = gc_tat h k)"

lemma gc_tat_simps:
  "gc_tat (g\<lparr>gc_tats := (gc_tats g)(k \<mapsto> t)\<rparr>) k' = (if k' = k then max (gc_now g) t else gc_tat g k')"
  "gc_now g \<le> m \<Longrightarrow> gc_tat (g\<lparr>gc_now := m\<rparr>) k = max m (gc_tat g k)"
  "gc_tat (g\<lparr>gc_tats := (\<lambda>k. case gc_tats g k of None \<Rightarrow> None | Some t \<Rightarrow>
     if gc_now g < t then Some t else None)\<rparr>) k = gc_tat g k"
  by (auto simp: gc_tat_def split: option.split)

interpretation gc: keyed_limiter gcra_ops gc_alike
  by unfold_locales (auto simp: gcra_ops_def gc_alike_def gc_tat_simps)

text \<open>Sweeping the rate limiter is invisible. Two histories of the server that differ only in when
  the sweep ran, if at all, admit and refuse the same connections on both ports and end with the same
  connections and counters. Dropping cold keys opens no way around the limit.\<close>

theorem sweep_invisible:
  assumes "keyed_limiter gv alike" and "filter (\<lambda>a. a \<noteq> Retain) as = filter (\<lambda>a. a \<noteq> Retain) bs"
    and "front_run gv env (front_init gv n rate) as = st" and "front_run gv env (front_init gv n rate) bs = su"
  shows "fd_tls st = fd_tls su \<and> fd_http st = fd_http su \<and>
    fd_tls_limiter st = fd_tls_limiter su \<and> fd_http_limiter st = fd_http_limiter su"
proof -
  let ?i = "front_init gv n rate"
  have "fd_tls (front_run gv env ?i xs) = fd_tls (front_run gv env ?i (filter (\<lambda>a. a \<noteq> Retain) xs)) \<and>
    fd_http (front_run gv env ?i xs) = fd_http (front_run gv env ?i (filter (\<lambda>a. a \<noteq> Retain) xs)) \<and>
    fd_tls_limiter (front_run gv env ?i xs) = fd_tls_limiter (front_run gv env ?i (filter (\<lambda>a. a \<noteq> Retain) xs)) \<and>
    fd_http_limiter (front_run gv env ?i xs) = fd_http_limiter (front_run gv env ?i (filter (\<lambda>a. a \<noteq> Retain) xs))"
    for xs
    using keyed_limiter.same_front_run [OF assms(1) keyed_limiter.same_front_start [OF assms(1)], of env ?i xs]
    by (simp add: keyed_limiter.same_front_fields [OF assms(1)])
  from this [of as] this [of bs] show ?thesis unfolding assms(2-4) by simp
qed

text \<open>Three arrivals of one client in a minute with a quota of two; the sweep runs in one history.\<close>

definition demo_rush :: "(string, string) front_act list" where
  "demo_rush = [TlsItem (Inr client_v4), HttpItem (Inr client_mapped), TlsItem (Inr client_v4)]"

definition demo_rush_swept :: "(string, string) front_act list" where
  "demo_rush_swept =
     [TlsItem (Inr client_v4), Retain, HttpItem (Inr client_mapped), Retain, TlsItem (Inr client_v4)]"

theorem sweep_invisible_witness:
  "length (fd_tls (front_run gcra_ops demo_env (front_init gcra_ops 5 (Some 2)) demo_rush_swept)) = 1 \<and>
   length (fd_http (front_run gcra_ops demo_env (front_init gcra_ops 5 (Some 2)) demo_rush_swept)) = 1"
proof -
  have "filter (\<lambda>a. a \<noteq> Retain) demo_rush_swept = filter (\<lambda>a. a \<noteq> Retain) demo_rush"
    by (simp add: demo_rush_swept_def demo_rush_def)
  from sweep_invisible [OF gc.keyed_limiter_axioms this refl refl, of demo_env 5 "Some 2"]
  have "fd_tls (front_run gcra_ops demo_env (front_init gcra_ops 5 (Some 2)) demo_rush_swept) =
      fd_tls (front_run gcra_ops demo_env (front_init gcra_ops 5 (Some 2)) demo_rush) \<and>
    fd_http (front_run gcra_ops demo_env (front_init gcra_ops 5 (Some 2)) demo_rush_swept) =
      fd_http (front_run gcra_ops demo_env (front_init gcra_ops 5 (Some 2)) demo_rush)"
    by simp
  moreover have
    "length (fd_tls (front_run gcra_ops demo_env (front_init gcra_ops 5 (Some 2)) demo_rush)) = 1"
    "length (fd_http (front_run gcra_ops demo_env (front_init gcra_ops 5 (Some 2)) demo_rush)) = 1"
    by code_simp+
  ultimately show ?thesis by simp
qed

section \<open>Independent ports\<close>

fun of_tls :: "('e, 'm) front_act \<Rightarrow> bool" where
  "of_tls (TlsItem c) = True" | "of_tls (TlsEnds i) = True" | "of_tls (Upgrades i) = True"
| "of_tls (WsAct i j a) = True" | "of_tls (HttpItem c) = False" | "of_tls (HttpEnds i) = False"
| "of_tls Retain = False" | "of_tls (Wait n) = False"

fun of_http :: "('e, 'm) front_act \<Rightarrow> bool" where
  "of_http (HttpItem c) = True" | "of_http (HttpEnds i) = True" | "of_http a = False"

definition tls_part :: "('g, 'm) front_state \<Rightarrow> per_ip_limiter \<times> (permitted_stream \<times> 'm conn_use) list" where
  "tls_part st = (fd_tls_limiter st, fd_tls st)"

definition http_part :: "('g, 'm) front_state \<Rightarrow> per_ip_limiter \<times> permitted_stream list" where
  "http_part st = (fd_http_limiter st, fd_http st)"

lemma no_rate_step: "fd_rate st = None \<Longrightarrow> fd_rate (front_step gv env st a) = None"
  by (cases a) (auto simp: admit_None split: prod.splits)

lemma tls_part_step:
  assumes "fd_rate st = None" and "fd_rate su = None" and "tls_part st = tls_part su"
  shows "of_tls a \<Longrightarrow> tls_part (front_step gv env st a) = tls_part (front_step gv env su a)"
    and "\<not> of_tls a \<Longrightarrow> tls_part (front_step gv env st a) = tls_part st"
  using assms by (cases a; auto simp: tls_part_def split: prod.splits)+

lemma http_part_step:
  assumes "fd_rate st = None" and "fd_rate su = None" and "http_part st = http_part su"
  shows "of_http a \<Longrightarrow> http_part (front_step gv env st a) = http_part (front_step gv env su a)"
    and "\<not> of_http a \<Longrightarrow> http_part (front_step gv env st a) = http_part st"
  using assms by (cases a; auto simp: http_part_def split: prod.splits)+

text \<open>A part of the state that some actions change by themselves, and the others not at all, is what
  the former make of it.\<close>

lemma front_run_filter:
  assumes "\<And>st su a. fd_rate st = None \<Longrightarrow> fd_rate su = None \<Longrightarrow> part st = part su \<Longrightarrow> mine a \<Longrightarrow>
      part (front_step gv env st a) = part (front_step gv env su a)"
    and "\<And>st su a. fd_rate st = None \<Longrightarrow> fd_rate su = None \<Longrightarrow> part st = part su \<Longrightarrow> \<not> mine a \<Longrightarrow>
      part (front_step gv env st a) = part st"
  shows "fd_rate st = None \<Longrightarrow> fd_rate su = None \<Longrightarrow> part st = part su \<Longrightarrow>
    part (front_run gv env st as) = part (front_run gv env su (filter mine as))"
proof (induction as arbitrary: st su)
  case (Cons a as)
  show ?case
  proof (cases "mine a")
    case True
    have "part (front_step gv env st a) = part (front_step gv env su a)"
      using assms(1) [OF Cons.prems True] .
    from Cons.IH [OF no_rate_step no_rate_step this] show ?thesis using Cons.prems(1,2) True by simp
  next
    case False
    have "part (front_step gv env st a) = part su" using assms(2) [OF Cons.prems False] Cons.prems(3) by simp
    then show ?thesis using Cons.IH [OF no_rate_step Cons.prems(2)] Cons.prems(1) False by simp
  qed
qed simp

text \<open>The ports do not influence each other. Without a rate limit, the connections and counters of
  each port after any history are those of a server that only sees the events of that port: a flood on
  port 80 takes nothing of the quota of the TLS port, and the other way round.\<close>

theorem ports_independent:
  "tls_part (front_run gv env (front_init gv n None) as) =
     tls_part (front_run gv env (front_init gv n None) (filter of_tls as)) \<and>
   http_part (front_run gv env (front_init gv n None) as) =
     http_part (front_run gv env (front_init gv n None) (filter of_http as))"
proof
  have r: "fd_rate (front_init gv n None) = None" by (simp add: front_init_def)
  show "tls_part (front_run gv env (front_init gv n None) as) =
      tls_part (front_run gv env (front_init gv n None) (filter of_tls as))"
    by (rule front_run_filter [OF tls_part_step(1) tls_part_step(2) r r refl])
  show "http_part (front_run gv env (front_init gv n None) as) =
      http_part (front_run gv env (front_init gv n None) (filter of_http as))"
    by (rule front_run_filter [OF http_part_step(1) http_part_step(2) r r refl])
qed

section \<open>Permits that never come back\<close>

definition tls_permits :: "('g, 'm) front_state \<Rightarrow> ip_addr list" where
  "tls_permits st = permits (map fst (fd_tls st))"

definition tls_accounts :: "nat \<Rightarrow> ('g, 'm) front_state \<Rightarrow> bool" where
  "tls_accounts n st \<longleftrightarrow> pl.accounts (fd_tls_limiter st) (tls_permits st) \<and> limiter_cap (fd_tls_limiter st) = n"

lemma permits_append [simp]: "permits (xs @ ys) = permits xs @ permits ys"
  by (simp add: permits_def)

lemma admit_accounts:
  assumes "pl.accounts lim ks" and "limiter_cap lim = n" and "admit check_key rate lim conn = (rate', lim', new)"
  shows "pl.accounts lim' (ks @ permits new) \<and> limiter_cap lim' = n"
proof (cases conn)
  case (Inl e)
  then show ?thesis using assms by (auto simp: admit_def enforce_ip_policy_def permits_def)
next
  case (Inr s)
  obtain l q where lq: "try_acquire lim (stream_key s) = (l, q)" by fastforce
  have acc: "pl.accounts l (if q then ks @ [stream_key s] else ks)" "limiter_cap l = n"
    using pl.accounts_acquire [OF assms(1) lq] pl.cap_acquire [OF pl.accounts_ok [OF assms(1)], of "stream_key s"]
      assms(2) lq by simp_all
  then show ?thesis
    using assms unfolding Inr admit_stream lq
    by (auto simp: permits_def admitted_as_def split: if_splits)
qed

lemma change_use_fst [simp]: "map fst (change_use i f xs) = map fst xs"
  by (simp add: change_use_def list_eq_iff_nth_eq nth_list_update)

lemma tls_accounts_step:
  assumes "tls_accounts n st"
  shows "tls_accounts n (front_step gv env st a)"
proof (cases a)
  case (TlsItem conn)
  obtain rate lim new where ad: "admit (gv_check gv) (fd_rate st) (fd_tls_limiter st) conn = (rate, lim, new)"
    by (cases "admit (gv_check gv) (fd_rate st) (fd_tls_limiter st) conn")
  have "pl.accounts (fd_tls_limiter st) (tls_permits st)" "limiter_cap (fd_tls_limiter st) = n"
    using assms by (simp_all add: tls_accounts_def)
  from admit_accounts [OF this ad] show ?thesis
    by (simp add: TlsItem ad tls_accounts_def tls_permits_def comp_def)
next
  case (TlsEnds i)
  show ?thesis
  proof (cases "i < length (fd_tls st) \<and> may_end (snd (fd_tls st ! i))")
    case True
    then have i: "i < length (fd_tls st)" by simp
    have "tls_permits st = permits (map fst (take i (fd_tls st))) @ ps_permit (fst (fd_tls st ! i)) #
        permits (map fst (drop (Suc i) (fd_tls st)))"
      using arg_cong [OF id_take_nth_drop [OF i], of "map (ps_permit \<circ> fst)"]
      by (simp add: tls_permits_def permits_def)
    then have "pl.accounts (permit_drop (fd_tls_limiter st) (ps_permit (fst (fd_tls st ! i))))
        (permits (map fst (take i (fd_tls st))) @ permits (map fst (drop (Suc i) (fd_tls st))))"
      using assms pl.accounts_release by (auto simp: tls_accounts_def)
    then show ?thesis
      using True assms by (simp add: TlsEnds tls_accounts_def tls_permits_def limiter_cap_drop)
  qed (use assms TlsEnds in auto)
qed (use assms in \<open>auto simp: tls_accounts_def tls_permits_def split: prod.split\<close>)

lemma tls_accounts_run: "tls_accounts n st \<Longrightarrow> tls_accounts n (front_run gv env st as)"
  by (induction as arbitrary: st) (simp_all add: tls_accounts_step)

lemma tls_accounts_init: "0 < n \<Longrightarrow> tls_accounts (unat n) (front_init gv n rate)"
  using policy_accounts_init [of n None]
  by (simp add: tls_accounts_def tls_permits_def front_init_def policy_accounts_def policy_init_def)

text \<open>The WebSockets of a source that were lost before their first frame.\<close>

fun is_stuck :: "'m conn_use \<Rightarrow> bool" where
  "is_stuck Plain = False"
| "is_stuck (Socket c) = stuck c"

definition leaked :: "ip_addr \<Rightarrow> ('g, 'm) front_state \<Rightarrow> nat" where
  "leaked k st = length (filter (\<lambda>(ps, u). ps_permit ps = k \<and> is_stuck u) (fd_tls st))"

lemma stuck_not_ends: "is_stuck u \<Longrightarrow> \<not> may_end u"
  by (cases u) (simp_all add: stuck_def holds_stream_def)

lemma stuck_stays: "is_stuck u \<Longrightarrow> is_stuck (ws_act env a u)" "is_stuck u \<Longrightarrow> is_stuck (upgrade u)"
  using stuck_trans conn_step_trans by (cases u; fastforce simp: ws_act_def split: option.split)+


lemma filter_update_le:
  assumes "P (xs ! i) \<Longrightarrow> P y"
  shows "length (filter P xs) \<le> length (filter P (xs[i := y]))"
proof (cases "i < length xs")
  case True
  have "filter P xs = filter P (take i xs @ xs ! i # drop (Suc i) xs)"
    using id_take_nth_drop [OF True] by metis
  then show ?thesis using assms by (simp add: upd_conv_take_nth_drop [OF True])
next
  case False
  then show ?thesis by (simp add: list_update_beyond)
qed

lemma leaked_change_use:
  assumes "\<And>u. is_stuck u \<Longrightarrow> is_stuck (f u)"
  shows "leaked k st \<le> leaked k (st\<lparr>fd_tls := change_use i f (fd_tls st)\<rparr>)"
  unfolding leaked_def change_use_def
  by (cases "i < length (fd_tls st)") (auto intro!: filter_update_le assms simp: case_prod_unfold)

lemma leaked_step: "leaked k st \<le> leaked k (front_step gv env st a)"
proof (cases a)
  case (TlsEnds i)
  show ?thesis
  proof (cases "i < length (fd_tls st) \<and> may_end (snd (fd_tls st ! i))")
    case True
    then have i: "i < length (fd_tls st)" and ns: "\<not> is_stuck (snd (fd_tls st ! i))"
      using stuck_not_ends by auto
    let ?P = "\<lambda>(ps, u). ps_permit ps = k \<and> is_stuck u"
    have "filter ?P (fd_tls st) = filter ?P (take i (fd_tls st) @ fd_tls st ! i # drop (Suc i) (fd_tls st))"
      using id_take_nth_drop [OF i] by metis
    then show ?thesis using True ns by (simp add: TlsEnds leaked_def case_prod_unfold)
  qed (use TlsEnds in auto)
next
  case (Upgrades i)
  then show ?thesis using leaked_change_use [of upgrade k st i, OF stuck_stays(2)] by simp
next
  case (WsAct i j b)
  then show ?thesis using leaked_change_use [of "ws_act (env_at env j) b" k st i, OF stuck_stays(1)] by simp
qed (auto simp: leaked_def split: prod.split)

lemma leaked_run: "leaked k st \<le> leaked k (front_run gv env st as)"
proof (induction as arbitrary: st)
  case (Cons a as)
  then show ?case using order_trans [OF leaked_step Cons.IH] by simp
qed simp

lemma leaked_le_held: "leaked k st \<le> count_list (tls_permits st) k"
proof -
  have "length (filter (\<lambda>(ps, u). ps_permit ps = k \<and> is_stuck u) xs) \<le> count_list (permits (map fst xs)) k"
    for xs :: "(permitted_stream \<times> 'b conn_use) list"
    by (induction xs) (auto simp: permits_def)
  then show ?thesis by (simp add: leaked_def tls_permits_def)
qed

lemma admit_at_cap:
  assumes "limiter_ok lim" and "limiter_cap lim \<le> limiter_held lim (stream_key s)"
  shows "snd (snd (admit check_key rate lim (Inr s))) = []"
  using pl.acquire_grants [OF assms(1), of "stream_key s"] assms(2)
  by (cases "try_acquire lim (stream_key s)") (simp add: admit_stream)

text \<open>C27: a source can be locked out for good. Once as many WebSockets of a source (an IPv4 address or an
  IPv6 /64 network) as its cap allows were lost before their first frame, their permits never
  come back: whatever happens afterwards on either port, however long one waits, every further connection
  of that source to the TLS port is refused.\<close>

theorem lost_sockets_lock_out:
  assumes "0 < n" and "front_run gv env (front_init gv n rate) as = st"
    and "unat n \<le> leaked (stream_key s) st" and "front_run gv env st bs = su"
  shows "fd_tls (front_step gv env su (TlsItem (Inr s) :: ('e, 'm) front_act)) = fd_tls su"
proof -
  have "tls_accounts (unat n) st" using tls_accounts_run [OF tls_accounts_init [OF assms(1)]] assms(2) by metis
  then have acc: "tls_accounts (unat n) su" using tls_accounts_run assms(4) by metis
  then have ok: "limiter_ok (fd_tls_limiter su)" and cap: "limiter_cap (fd_tls_limiter su) = unat n"
    and held: "limiter_held (fd_tls_limiter su) (stream_key s) = count_list (tls_permits su) (stream_key s)"
    using pl.accounts_ok pl.accounts_held by (auto simp: tls_accounts_def)
  have "unat n \<le> leaked (stream_key s) su"
    using assms(3,4) leaked_run [of "stream_key s" st gv env bs] by simp
  then have full: "limiter_cap (fd_tls_limiter su) \<le> limiter_held (fd_tls_limiter su) (stream_key s)"
    using leaked_le_held [of "stream_key s" su] cap held by simp
  have "snd (snd (admit (gv_check gv) (fd_rate su) (fd_tls_limiter su) (Inr s :: 'e + tcp_stream))) = []"
    by (rule admit_at_cap [OF ok full])
  then show ?thesis by (auto split: prod.split)
qed

text \<open>One connection, upgraded and lost, with a cap of one; then its client goes, and an hour passes.\<close>

definition demo_loss :: "(string, string) front_act list" where
  "demo_loss = [TlsItem (Inr client_v4), Upgrades 0, WsAct 0 0 RxEnd]"

definition demo_after :: "(string, string) front_act list" where
  "demo_after = map (WsAct 0 0) demo_leak @ [TlsEnds 0, Retain, Wait 3600000000000]"

lemma demo_loss_leaks:
  "leaked (stream_key client_mapped)
     (front_run gcra_ops demo_env (front_init gcra_ops 1 (Some 60)) demo_loss) = 1"
  by code_simp

theorem lost_sockets_lock_out_witness:
  "fd_tls (front_step gcra_ops demo_env
      (front_run gcra_ops demo_env (front_init gcra_ops 1 (Some 60)) (demo_loss @ demo_after))
      (TlsItem (Inr client_mapped) :: (string, string) front_act)) =
   fd_tls (front_run gcra_ops demo_env (front_init gcra_ops 1 (Some 60)) (demo_loss @ demo_after))"
proof -
  have pos: "0 < (1 :: u32)" by simp
  have "unat (1 :: u32) \<le> leaked (stream_key client_mapped)
     (front_run gcra_ops demo_env (front_init gcra_ops 1 (Some 60)) demo_loss)"
    using demo_loss_leaks by simp
  then show ?thesis
    unfolding front_run_append by (rule lost_sockets_lock_out [OF pos refl _ refl])
qed


end
