(* ===== verification/Http_Headers.thy ===== *)
theory Http_Headers
  imports Rust_Str
begin

text \<open>
  The interface to the header maps of the \<^verbatim>\<open>http\<close> crate: the operations the proxy and the file
  server call, and what they rely on. A header name is its lower-case form, a header value its
  bytes.
\<close>

record 'h header_ops =
  hdr_new :: 'h
  hdr_get_all :: "'h \<Rightarrow> string \<Rightarrow> string list"
  hdr_insert :: "string \<Rightarrow> string \<Rightarrow> 'h \<Rightarrow> 'h"
  hdr_append :: "string \<Rightarrow> string \<Rightarrow> 'h \<Rightarrow> 'h"
  hdr_iter :: "'h \<Rightarrow> (string \<times> string) list"
  hv_to_str :: "string \<Rightarrow> string option"
  hv_from_str :: "string \<Rightarrow> string option"

text \<open>The characters a value may have to be read as text: visible ASCII, space and tab.\<close>

definition value_char :: "char \<Rightarrow> bool" where
  "value_char c \<longleftrightarrow> (let b = (of_char c :: nat) in 32 \<le> b \<and> b < 127 \<or> b = 9)"

text \<open>The values an iteration yields for a name.\<close>

definition values_of :: "string \<Rightarrow> (string \<times> string) list \<Rightarrow> string list" where
  "values_of n kvs = map snd (filter (\<lambda>kv. fst kv = n) kvs)"

lemma values_of_simps [simp]:
  "values_of n [] = []"
  "values_of n (kv # kvs) = (if fst kv = n then snd kv # values_of n kvs else values_of n kvs)"
  "values_of n (xs @ ys) = values_of n xs @ values_of n ys"
  by (simp_all add: values_of_def)

lemma values_of_filter:
  "values_of n (filter (\<lambda>(k, v). k \<noteq> x) kvs) = (if n = x then [] else values_of n kvs)"
  by (induction kvs) auto

locale header_map =
  fixes ops :: "'h header_ops"
  assumes get_new: "hdr_get_all ops (hdr_new ops) n = []"
    and get_insert: "hdr_get_all ops (hdr_insert ops n v h) n' =
          (if n' = n then [v] else hdr_get_all ops h n')"
    and get_append: "hdr_get_all ops (hdr_append ops n v h) n' =
          (if n' = n then hdr_get_all ops h n @ [v] else hdr_get_all ops h n')"
    and get_iter: "values_of n (hdr_iter ops h) = hdr_get_all ops h n"
    and to_str_iff: "hv_to_str ops v = (if list_all value_char v then Some v else None)"
    and from_str_text: "list_all value_char s \<Longrightarrow> hv_from_str ops s = Some s"
begin

text \<open>Appending a list of headers one by one keeps every value, in order.\<close>

lemma get_append_all:
  "hdr_get_all ops (foldl (\<lambda>h (n, v). hdr_append ops n v h) h kvs) n =
   hdr_get_all ops h n @ values_of n kvs"
  by (induction kvs arbitrary: h) (auto simp: get_append)

text \<open>Inserting them one by one keeps the last value of each name.\<close>

lemma get_insert_all:
  "hdr_get_all ops (foldl (\<lambda>h (n, v). hdr_insert ops n v h) h kvs) n =
   (if values_of n kvs = [] then hdr_get_all ops h n else [last (values_of n kvs)])"
  by (induction kvs arbitrary: h) (auto simp: get_insert)

lemma to_str_Some: "hv_to_str ops v = Some s \<longleftrightarrow> list_all value_char v \<and> s = v"
  by (auto simp: to_str_iff)

end

text \<open>The reference instance: a list of headers.\<close>

definition list_headers :: "(string \<times> string) list header_ops" where
  "list_headers =
     \<lparr>hdr_new = [],
      hdr_get_all = (\<lambda>h n. values_of n h),
      hdr_insert = (\<lambda>n v h. filter (\<lambda>(k, w). k \<noteq> n) h @ [(n, v)]),
      hdr_append = (\<lambda>n v h. h @ [(n, v)]),
      hdr_iter = (\<lambda>h. h),
      hv_to_str = (\<lambda>v. if list_all value_char v then Some v else None),
      hv_from_str = (\<lambda>s. if list_all value_char s then Some s else None)\<rparr>"

interpretation lh: header_map list_headers
  by unfold_locales (auto simp: list_headers_def values_of_filter)

text \<open>A response: status, headers, body.\<close>

record 'h reply =
  rp_status :: nat
  rp_headers :: 'h
  rp_body :: bytes

end
