(* ===== verification/Mles_Cache.thy ===== *)
theory Mles_Cache
  imports Mles_Prelude
begin

text \<open>
  The compression cache (\<^verbatim>\<open>cache.rs\<close>): a byte-bounded cache of compressed files over the
  \<^verbatim>\<open>lru\<close> crate. The crate's \<^verbatim>\<open>LruCache\<close> is a record of operations every definition takes as an
  argument; its documented behaviour is the locale \<open>lru_cache\<close>. Sizes are 64-bit words, and
  the eviction loop is a \<^theory_text>\<open>partial_function\<close>, so that it terminates is a theorem. Most results are for
  configured sizes whose bytes fit into a word (\<open>mb_ok\<close>); the last section is about those that do not.
\<close>

section \<open>Keys, entries, constants\<close>

definition MB :: usize where "MB = 1024 * 1024"

definition DEFAULT_FILE_SIZE_MB :: usize where "DEFAULT_FILE_SIZE_MB = 12"

definition MAX_FILE_SIZE :: usize where "MAX_FILE_SIZE = DEFAULT_FILE_SIZE_MB * MB"

record cache_key =
  ck_path :: string
  ck_compression :: string
  ck_modified :: system_time

record cache_entry =
  ce_data :: bytes
  ce_size :: usize

definition CacheEntry_new :: "bytes \<Rightarrow> cache_entry" where
  "CacheEntry_new d = (let sz = of_nat (length d) in \<lparr>ce_data = d, ce_size = sz\<rparr>)"

type_synonym lru_items = "(cache_key \<times> cache_entry) list"

text \<open>
  The operations of \<^verbatim>\<open>lru::LruCache\<close> the code calls, and three observers: \<open>lru_items\<close> is
  what \<^verbatim>\<open>iter()\<close> visits (most recently used first), \<open>lru_cap\<close> is \<^verbatim>\<open>cap()\<close>, \<open>lru_ok\<close> says that
  a value was built by the crate's operations.
\<close>

record 'c lru_ops =
  lru_new :: "usize \<Rightarrow> 'c"
  lru_get :: "'c \<Rightarrow> cache_key \<Rightarrow> cache_entry option \<times> 'c"
  lru_pop :: "'c \<Rightarrow> cache_key \<Rightarrow> cache_entry option \<times> 'c"
  lru_pop_lru :: "'c \<Rightarrow> (cache_key \<times> cache_entry) option \<times> 'c"
  lru_put :: "'c \<Rightarrow> cache_key \<Rightarrow> cache_entry \<Rightarrow> 'c"
  lru_len :: "'c \<Rightarrow> usize"
  lru_clear :: "'c \<Rightarrow> 'c"
  lru_items :: "'c \<Rightarrow> lru_items"
  lru_cap :: "'c \<Rightarrow> nat"
  lru_ok :: "'c \<Rightarrow> bool"

section \<open>The cache\<close>

record 'c compression_cache =
  cc_cache :: "'c option"
  cc_current_size :: usize
  cc_max_size :: usize

definition cache_new :: "'c lru_ops \<Rightarrow> usize \<Rightarrow> 'c compression_cache" where
  "cache_new ops max_size_mb =
     (if max_size_mb = 0
      then \<lparr>cc_cache = None, cc_current_size = 0, cc_max_size = 0\<rparr>
      else (let estimated_entries = max (max_size_mb * 4) 100
            in \<lparr>cc_cache = Some (lru_new ops estimated_entries), cc_current_size = 0,
                cc_max_size = max_size_mb * MB\<rparr>))"

text \<open>\<open>None\<close> stands for a loop that never ends.\<close>

partial_function (option) evict_loop ::
  "'c lru_ops \<Rightarrow> usize \<Rightarrow> usize \<Rightarrow> 'c \<Rightarrow> usize \<Rightarrow> ('c \<times> usize) option" where
  "evict_loop ops required_size max_size c current_size =
     (if current_size + required_size > max_size
      then (case lru_pop_lru ops c of (r, c') \<Rightarrow>
              (case r of
                 Some ke \<Rightarrow>
                   evict_loop ops required_size max_size c' (current_size - ce_size (snd ke))
               | None \<Rightarrow> Some (c', current_size)))
      else Some (c, current_size))"

definition make_space ::
  "'c lru_ops \<Rightarrow> usize \<Rightarrow> 'c compression_cache \<Rightarrow> 'c compression_cache option" where
  "make_space ops required_size cc =
     (case cc_cache cc of
        None \<Rightarrow> Some cc
      | Some c \<Rightarrow>
          if cc_max_size cc = 0 \<or> required_size > MAX_FILE_SIZE then Some cc
          else map_option (\<lambda>(c', cur). cc\<lparr>cc_cache := Some c', cc_current_size := cur\<rparr>)
                 (evict_loop ops required_size (cc_max_size cc) c (cc_current_size cc)))"

definition mk_key :: "string \<Rightarrow> string \<Rightarrow> system_time \<Rightarrow> cache_key" where
  "mk_key path compression modified =
     \<lparr>ck_path = path, ck_compression = compression, ck_modified = modified\<rparr>"

definition cache_get ::
  "'c lru_ops \<Rightarrow> string \<Rightarrow> string \<Rightarrow> system_time \<Rightarrow> 'c compression_cache \<Rightarrow>
   bytes option \<times> 'c compression_cache" where
  "cache_get ops path compression modified cc =
     (case cc_cache cc of
        None \<Rightarrow> (None, cc)
      | Some c \<Rightarrow>
          (case lru_get ops c (mk_key path compression modified) of
             (r, c') \<Rightarrow> (map_option ce_data r, cc\<lparr>cc_cache := Some c'\<rparr>)))"

text \<open>The first half of \<^verbatim>\<open>insert\<close>: an entry under the same key leaves the cache and its account.\<close>

definition remove_existing ::
  "'c lru_ops \<Rightarrow> cache_key \<Rightarrow> 'c compression_cache \<Rightarrow> 'c compression_cache" where
  "remove_existing ops key cc =
     (case cc_cache cc of
        None \<Rightarrow> cc
      | Some c \<Rightarrow>
          (case lru_pop ops c key of
             (Some old_entry, c') \<Rightarrow>
               cc\<lparr>cc_cache := Some c', cc_current_size := cc_current_size cc - ce_size old_entry\<rparr>
           | (None, c') \<Rightarrow> cc\<lparr>cc_cache := Some c'\<rparr>))"

definition cache_insert ::
  "'c lru_ops \<Rightarrow> string \<Rightarrow> string \<Rightarrow> system_time \<Rightarrow> bytes \<Rightarrow> 'c compression_cache \<Rightarrow>
   'c compression_cache option" where
  "cache_insert ops path compression modified d cc =
     (if cc_cache cc = None then Some cc
      else (let sz = of_nat (length d) in
        if sz > MAX_FILE_SIZE then Some cc
        else (let key = mk_key path compression modified in
          case make_space ops sz (remove_existing ops key cc) of
            None \<Rightarrow> None
          | Some cc2 \<Rightarrow>
              (case cc_cache cc2 of
                 Some c \<Rightarrow>
                   if cc_max_size cc2 > 0 \<and> cc_current_size cc2 + sz \<le> cc_max_size cc2
                   then Some (cc2\<lparr>cc_current_size := cc_current_size cc2 + sz,
                                  cc_cache := Some (lru_put ops c key (CacheEntry_new d))\<rparr>)
                   else Some cc2
               | None \<Rightarrow> Some cc2))))"

definition cache_len :: "'c lru_ops \<Rightarrow> 'c compression_cache \<Rightarrow> usize" where
  "cache_len ops cc = (case cc_cache cc of None \<Rightarrow> 0 | Some c \<Rightarrow> lru_len ops c)"

definition cache_current_size :: "'c compression_cache \<Rightarrow> usize" where
  "cache_current_size cc = cc_current_size cc"

definition cache_clear :: "'c lru_ops \<Rightarrow> 'c compression_cache \<Rightarrow> 'c compression_cache" where
  "cache_clear ops cc =
     (case cc_cache cc of
        None \<Rightarrow> cc
      | Some c \<Rightarrow> cc\<lparr>cc_cache := Some (lru_clear ops c), cc_current_size := 0\<rparr>)"

text \<open>The callers' operations in sequence: the write lock of \<^verbatim>\<open>SharedCache\<close> makes each atomic.\<close>

datatype cache_op =
    CGet string string system_time
  | CInsert string string system_time bytes

fun cache_run ::
  "'c lru_ops \<Rightarrow> cache_op list \<Rightarrow> 'c compression_cache \<Rightarrow> 'c compression_cache option" where
  "cache_run ops [] cc = Some cc"
| "cache_run ops (CGet p z t # xs) cc = cache_run ops xs (snd (cache_get ops p z t cc))"
| "cache_run ops (CInsert p z t d # xs) cc =
     (case cache_insert ops p z t d cc of None \<Rightarrow> None | Some cc' \<Rightarrow> cache_run ops xs cc')"

section \<open>What is stored, what is accounted\<close>

definition bytes_of :: "lru_items \<Rightarrow> nat" where
  "bytes_of xs = sum_list (map (\<lambda>ke. unat (ce_size (snd ke))) xs)"

definition cache_items :: "'c lru_ops \<Rightarrow> 'c compression_cache \<Rightarrow> lru_items" where
  "cache_items ops cc = (case cc_cache cc of None \<Rightarrow> [] | Some c \<Rightarrow> lru_items ops c)"

definition cache_lookup :: "'c lru_ops \<Rightarrow> 'c compression_cache \<Rightarrow> cache_key \<Rightarrow> bytes option" where
  "cache_lookup ops cc k = map_option ce_data (map_of (cache_items ops cc) k)"

text \<open>The bytes \<^verbatim>\<open>current_size\<close> counts that no entry holds.\<close>

definition cache_leak :: "'c lru_ops \<Rightarrow> 'c compression_cache \<Rightarrow> nat" where
  "cache_leak ops cc = unat (cc_current_size cc) - bytes_of (cache_items ops cc)"

definition entries_ok :: "lru_items \<Rightarrow> bool" where
  "entries_ok xs \<longleftrightarrow>
     list_all (\<lambda>ke. unat (ce_size (snd ke)) = length (ce_data (snd ke)) \<and>
                    ce_size (snd ke) \<le> MAX_FILE_SIZE) xs"

definition cache_inv :: "'c lru_ops \<Rightarrow> 'c compression_cache \<Rightarrow> bool" where
  "cache_inv ops cc \<longleftrightarrow>
     (case cc_cache cc of
        None \<Rightarrow> cc_current_size cc = 0 \<and> cc_max_size cc = 0
      | Some c \<Rightarrow>
          lru_ok ops c \<and> entries_ok (lru_items ops c) \<and>
          bytes_of (lru_items ops c) \<le> unat (cc_current_size cc) \<and>
          cc_current_size cc \<le> cc_max_size cc \<and> 0 < cc_max_size cc \<and>
          unat (cc_max_size cc) + unat MAX_FILE_SIZE < 2 ^ 64)"

lemma bytes_of_simps [simp]:
  "bytes_of [] = 0"
  "bytes_of (x # xs) = unat (ce_size (snd x)) + bytes_of xs"
  "bytes_of (xs @ ys) = bytes_of xs + bytes_of ys"
  by (simp_all add: bytes_of_def)

lemma bytes_of_delete:
  "distinct (map fst xs) \<Longrightarrow>
   bytes_of xs = bytes_of (AList.delete k xs) +
     (case map_of xs k of None \<Rightarrow> 0 | Some e \<Rightarrow> unat (ce_size e))"
proof (induction xs)
  case (Cons x xs)
  obtain k' e where x: "x = (k', e)" by (cases x)
  show ?case
  proof (cases "k' = k")
    case True
    with Cons.prems have "AList.delete k xs = xs"
      by (simp add: x delete_idem)
    with True show ?thesis by (simp add: x)
  next
    case False
    with Cons show ?thesis by (simp add: x)
  qed
qed simp

lemma bytes_of_delete_le: "bytes_of (AList.delete k xs) \<le> bytes_of xs"
  by (induction xs) (auto split: prod.splits)

lemma entries_ok_delete: "entries_ok xs \<Longrightarrow> entries_ok (AList.delete k xs)"
  by (induction xs) (auto simp: entries_ok_def)

lemma entries_ok_mem: "entries_ok xs \<Longrightarrow> x \<in> set xs \<Longrightarrow> entries_ok [x]"
  by (simp add: entries_ok_def list_all_iff)

lemma entries_ok_take: "entries_ok xs \<Longrightarrow> entries_ok (take n xs)"
  by (auto simp: entries_ok_def list_all_iff dest: in_set_takeD)

lemma entries_ok_butlast: "entries_ok xs \<Longrightarrow> entries_ok (butlast xs)"
  by (auto simp: entries_ok_def list_all_iff dest: in_set_butlastD)

lemma entries_ok_Cons: "entries_ok (x # xs) \<longleftrightarrow> entries_ok [x] \<and> entries_ok xs"
  by (simp add: entries_ok_def)

lemma MAX_FILE_SIZE_val: "unat MAX_FILE_SIZE = 12582912"
  by (simp add: MAX_FILE_SIZE_def DEFAULT_FILE_SIZE_MB_def MB_def)

text \<open>
  The reference for the eviction loop: the longest prefix of the recency order that fits into
  a budget of bytes, and what an insertion makes of the entries under other keys.
\<close>

fun fit_prefix :: "nat \<Rightarrow> lru_items \<Rightarrow> lru_items" where
  "fit_prefix b [] = []"
| "fit_prefix b (x # xs) =
     (let n = unat (ce_size (snd x)) in if n \<le> b then x # fit_prefix (b - n) xs else [])"

definition insert_spec ::
  "nat \<Rightarrow> nat \<Rightarrow> nat \<Rightarrow> cache_key \<Rightarrow> bytes \<Rightarrow> lru_items \<Rightarrow> lru_items" where
  "insert_spec entries_cap max_bytes leak key d others =
     (if leak + length d \<le> max_bytes
      then (let kept = fit_prefix (max_bytes - (leak + length d)) others
            in (key, CacheEntry_new d) # (if length kept = entries_cap then butlast kept else kept))
      else [])"

lemma fit_prefix_prefix: "\<exists>m. fit_prefix b xs = take m xs"
proof (induction b xs rule: fit_prefix.induct)
  case (2 b x xs)
  show ?case
  proof (cases "unat (ce_size (snd x)) \<le> b")
    case True
    with 2 obtain m where "fit_prefix (b - unat (ce_size (snd x))) xs = take m xs" by auto
    with True show ?thesis by (intro exI [of _ "Suc m"]) simp
  qed (auto intro: exI [of _ 0])
qed simp

lemma fit_prefix_bytes: "bytes_of (fit_prefix b xs) \<le> b"
  by (induction b xs rule: fit_prefix.induct) (auto simp: Let_def)

lemma fit_prefix_all: "bytes_of xs \<le> b \<Longrightarrow> fit_prefix b xs = xs"
  by (induction b xs rule: fit_prefix.induct) (auto simp: Let_def)

lemma take_is_fit_prefix:
  assumes "m \<le> length xs" and "bytes_of (take m xs) \<le> b"
    and "m < length xs \<longrightarrow> b < bytes_of (take (Suc m) xs)"
  shows "take m xs = fit_prefix b xs"
  using assms
proof (induction b xs arbitrary: m rule: fit_prefix.induct)
  case (2 b x xs)
  show ?case
  proof (cases m)
    case 0
    with 2 show ?thesis by simp
  next
    case (Suc k)
    let ?n = "unat (ce_size (snd x))"
    have n: "?n \<le> b" using "2.prems"(2) Suc by simp
    have "take k xs = fit_prefix (b - ?n) xs"
      using "2.prems" Suc n by (intro "2.IH" [OF refl n]) auto
    with n Suc show ?thesis by simp
  qed
qed simp

lemma bytes_of_take_drop: "bytes_of (take k xs) + bytes_of (drop k xs) = bytes_of xs"
  unfolding bytes_of_simps(3) [symmetric] by simp

text \<open>
  What the eviction loop leaves: a prefix of the recency order with room for \<open>req\<close> bytes or
  nothing at all, the account less the evicted bytes, and no eviction that was not needed.
\<close>

definition evict_post ::
  "lru_items \<Rightarrow> nat \<Rightarrow> nat \<Rightarrow> nat \<Rightarrow> lru_items \<Rightarrow> nat \<Rightarrow> nat \<Rightarrow> bool" where
  "evict_post xs cur mx req xs' cur' m \<longleftrightarrow>
     m \<le> length xs \<and> xs' = take m xs \<and> cur' = cur - bytes_of (drop m xs) \<and>
     (cur' + req \<le> mx \<or> m = 0) \<and>
     (m < length xs \<longrightarrow> mx < cur - bytes_of (drop (Suc m) xs) + req)"

lemma evict_post_none: "xs = [] \<or> cur + req \<le> mx \<Longrightarrow> evict_post xs cur mx req xs cur (length xs)"
  by (auto simp: evict_post_def)

lemma evict_post_step:
  assumes "evict_post xs (cur - unat (ce_size (snd x))) mx req xs' cur' m"
    and "mx < cur + req"
  shows "evict_post (xs @ [x]) cur mx req xs' cur' m"
proof (cases "m = length xs")
  case True
  with assms show ?thesis by (auto simp: evict_post_def)
next
  case False
  with assms show ?thesis by (auto simp: evict_post_def Suc_le_eq)
qed

lemma evict_post_fit:
  assumes "evict_post xs (l + bytes_of xs) mx req xs' cur' m"
  shows "xs' = (if l + req \<le> mx then fit_prefix (mx - (l + req)) xs else []) \<and>
         cur' = l + bytes_of xs'"
proof -
  note split = bytes_of_take_drop [of _ xs]
  have cur: "cur' = l + bytes_of (take m xs)" "xs' = take m xs"
    using assms split [of m] by (auto simp: evict_post_def)
  have "take m xs = fit_prefix (mx - (l + req)) xs" if "l + req \<le> mx"
    using assms split [of m] split [of "Suc m"] that
    by (intro take_is_fit_prefix) (auto simp: evict_post_def)
  moreover have "m = 0" if "\<not> l + req \<le> mx"
    using assms cur that by (auto simp: evict_post_def)
  ultimately show ?thesis using cur by auto
qed

lemma fit_prefix_room:
  assumes "xs = (if l + n \<le> mx then fit_prefix (mx - (l + n)) ys else [])" and "l \<le> mx"
  shows "l + bytes_of xs \<le> mx" and "l + bytes_of xs + n \<le> mx \<longleftrightarrow> l + n \<le> mx"
  using assms fit_prefix_bytes [of "mx - (l + n)" ys] by auto

lemma fit_prefix_subset: "set (fit_prefix b xs) \<subseteq> set xs"
  by (metis fit_prefix_prefix set_take_subset)

lemma unat_length:
  assumes "length d \<le> unat MAX_FILE_SIZE"
  shows "unat (of_nat (length d) :: usize) = length d" and "(of_nat (length d) :: usize) \<le> MAX_FILE_SIZE"
proof -
  have "length d < 2 ^ 64" using assms MAX_FILE_SIZE_val by simp
  then show "unat (of_nat (length d) :: usize) = length d"
    by (simp add: unat_of_nat)
  with assms show "(of_nat (length d) :: usize) \<le> MAX_FILE_SIZE"
    by (simp add: word_le_nat_alt)
qed

section \<open>The laws of the crate\<close>

text \<open>The documented behaviour of \<^verbatim>\<open>LruCache\<close>, in terms of the order \<^verbatim>\<open>iter()\<close> visits.\<close>

locale lru_cache =
  fixes ops :: "'c lru_ops"
  assumes new_law:
      "n \<noteq> 0 \<Longrightarrow> lru_ok ops (lru_new ops n) \<and> lru_items ops (lru_new ops n) = [] \<and>
                 lru_cap ops (lru_new ops n) = unat n"
    and ok_law:
      "lru_ok ops c \<Longrightarrow> distinct (map fst (lru_items ops c)) \<and>
                       length (lru_items ops c) \<le> lru_cap ops c \<and> 0 < lru_cap ops c"
    and get_law:
      "lru_ok ops c \<Longrightarrow> lru_get ops c k = (r, c') \<Longrightarrow>
         lru_ok ops c' \<and> lru_cap ops c' = lru_cap ops c \<and> r = map_of (lru_items ops c) k \<and>
         lru_items ops c' =
           (case r of None \<Rightarrow> lru_items ops c
                    | Some e \<Rightarrow> (k, e) # AList.delete k (lru_items ops c))"
    and pop_law:
      "lru_ok ops c \<Longrightarrow> lru_pop ops c k = (r, c') \<Longrightarrow>
         lru_ok ops c' \<and> lru_cap ops c' = lru_cap ops c \<and> r = map_of (lru_items ops c) k \<and>
         lru_items ops c' = AList.delete k (lru_items ops c)"
    and pop_lru_law:
      "lru_ok ops c \<Longrightarrow> lru_pop_lru ops c = (q, c') \<Longrightarrow>
         lru_ok ops c' \<and> lru_cap ops c' = lru_cap ops c \<and>
         (case q of None \<Rightarrow> lru_items ops c = [] \<and> lru_items ops c' = []
                  | Some ke \<Rightarrow> lru_items ops c = lru_items ops c' @ [ke])"
    and put_law:
      "lru_ok ops c \<Longrightarrow>
         lru_ok ops (lru_put ops c k e) \<and> lru_cap ops (lru_put ops c k e) = lru_cap ops c \<and>
         lru_items ops (lru_put ops c k e) =
           (k, e) # (if k \<in> fst ` set (lru_items ops c) then AList.delete k (lru_items ops c)
                     else if length (lru_items ops c) = lru_cap ops c then butlast (lru_items ops c)
                     else lru_items ops c)"
    and clear_law:
      "lru_ok ops c \<Longrightarrow> lru_ok ops (lru_clear ops c) \<and>
         lru_cap ops (lru_clear ops c) = lru_cap ops c \<and> lru_items ops (lru_clear ops c) = []"
    and len_law: "lru_ok ops c \<Longrightarrow> lru_len ops c = of_nat (length (lru_items ops c))"
begin

text \<open>
  The loop ends, keeps a prefix of the recency order, leaves the account's excess as it was,
  makes room or empties the cache, and evicts no more entries than it must.
\<close>

lemma evict_loop_result:
  assumes "lru_ok ops c" and "bytes_of (lru_items ops c) \<le> unat cur" and "cur \<le> mx"
    and "unat mx + unat req < 2 ^ 64"
  shows "\<exists>c' cur' m. evict_loop ops req mx c cur = Some (c', cur') \<and> lru_ok ops c' \<and>
           lru_cap ops c' = lru_cap ops c \<and>
           evict_post (lru_items ops c) (unat cur) (unat mx) (unat req)
             (lru_items ops c') (unat cur') m"
  using assms
proof (induction "length (lru_items ops c)" arbitrary: c cur)
  case 0
  obtain q c' where pop: "lru_pop_lru ops c = (q, c')" by (cases "lru_pop_lru ops c")
  have nil: "lru_items ops c = []" using "0.hyps" by simp
  have q: "q = None \<and> lru_items ops c' = [] \<and> lru_ok ops c' \<and> lru_cap ops c' = lru_cap ops c"
    using pop_lru_law [OF "0.prems"(1) pop] nil by (cases q) simp_all
  let ?c = "if mx < cur + req then c' else c"
  have "evict_loop ops req mx c cur = Some (?c, cur)"
    by (subst evict_loop.simps) (simp add: pop q)
  moreover have "lru_ok ops ?c" "lru_cap ops ?c = lru_cap ops c" "lru_items ops ?c = lru_items ops c"
    using q "0.prems"(1) nil by auto
  ultimately show ?case
    using evict_post_none [of "lru_items ops c" "unat cur" "unat req" "unat mx"] nil by metis
next
  case (Suc n)
  have le: "unat cur \<le> unat mx" using Suc.prems(3) by (simp add: word_le_nat_alt)
  with Suc.prems(4) have fits: "unat (cur + req) = unat cur + unat req"
    by (intro unat_add_fits) simp
  show ?case
  proof (cases "unat mx < unat cur + unat req")
    case False
    then have "evict_loop ops req mx c cur = Some (c, cur)"
      by (subst evict_loop.simps) (simp add: word_less_nat_alt fits)
    moreover from False
    have "evict_post (lru_items ops c) (unat cur) (unat mx) (unat req) (lru_items ops c) (unat cur)
            (length (lru_items ops c))"
      by (intro evict_post_none) simp
    ultimately show ?thesis using Suc.prems(1) by blast
  next
    case True
    obtain q d where pop: "lru_pop_lru ops c = (q, d)" by (cases "lru_pop_lru ops c")
    have "lru_items ops c \<noteq> []" using Suc.hyps(2) by auto
    with pop_lru_law [OF Suc.prems(1) pop] obtain ke where q: "q = Some ke"
      and items: "lru_items ops c = lru_items ops d @ [ke]"
      and d: "lru_ok ops d" "lru_cap ops d = lru_cap ops c"
      by (cases q) auto
    let ?cur = "cur - ce_size (snd ke)"
    have ke: "unat (ce_size (snd ke)) \<le> unat cur"
      using Suc.prems(2) by (simp add: items)
    then have cur: "unat ?cur = unat cur - unat (ce_size (snd ke))"
      by (simp add: unat_sub word_le_nat_alt)
    have step: "evict_loop ops req mx c cur = evict_loop ops req mx d ?cur"
      using True by (subst evict_loop.simps) (simp add: word_less_nat_alt fits pop q)
    have "n = length (lru_items ops d)" "bytes_of (lru_items ops d) \<le> unat ?cur" "?cur \<le> mx"
      using Suc.hyps(2) Suc.prems le cur ke by (auto simp: items word_le_nat_alt)
    from Suc.hyps(1) [OF this(1) d(1) this(2,3) Suc.prems(4)] step d True cur
    show ?thesis by (auto simp: items intro: evict_post_step)
  qed
qed

lemma remove_existing_result:
  assumes inv: "cache_inv ops cc" and c: "cc_cache cc = Some c"
  shows "\<exists>c'. cc_cache (remove_existing ops k cc) = Some c' \<and> lru_ok ops c' \<and>
              lru_cap ops c' = lru_cap ops c \<and>
              lru_items ops c' = AList.delete k (lru_items ops c) \<and>
              cc_max_size (remove_existing ops k cc) = cc_max_size cc \<and>
              unat (cc_current_size (remove_existing ops k cc)) =
                cache_leak ops cc + bytes_of (AList.delete k (lru_items ops c))"
proof -
  have ok: "lru_ok ops c" and le: "bytes_of (lru_items ops c) \<le> unat (cc_current_size cc)"
    using inv c by (auto simp: cache_inv_def)
  obtain r c' where pop: "lru_pop ops c k = (r, c')" by (cases "lru_pop ops c k")
  note law = pop_law [OF ok pop]
  have del: "bytes_of (lru_items ops c) = bytes_of (AList.delete k (lru_items ops c)) +
               (case r of None \<Rightarrow> 0 | Some e \<Rightarrow> unat (ce_size e))"
    using bytes_of_delete ok_law [OF ok] law by blast
  have leak: "cache_leak ops cc = unat (cc_current_size cc) - bytes_of (lru_items ops c)"
    by (simp add: cache_leak_def cache_items_def c)
  show ?thesis
  proof (cases r)
    case None
    with law del le leak show ?thesis by (simp add: remove_existing_def c pop)
  next
    case (Some e)
    then have "unat (cc_current_size cc - ce_size e) = unat (cc_current_size cc) - unat (ce_size e)"
      using del le by (simp add: unat_sub word_le_nat_alt)
    with Some law del le leak show ?thesis by (simp add: remove_existing_def c pop)
  qed
qed

lemma make_space_result:
  assumes "cc_cache cc = Some c" and "lru_ok ops c" and "0 < cc_max_size cc"
    and "unat (cc_current_size cc) = l + bytes_of (lru_items ops c)"
    and "cc_current_size cc \<le> cc_max_size cc" and "req \<le> MAX_FILE_SIZE"
    and "unat (cc_max_size cc) + unat MAX_FILE_SIZE < 2 ^ 64"
  shows "\<exists>c' cur'. make_space ops req cc = Some (cc\<lparr>cc_cache := Some c', cc_current_size := cur'\<rparr>) \<and>
           lru_ok ops c' \<and> lru_cap ops c' = lru_cap ops c \<and>
           lru_items ops c' =
             (if l + unat req \<le> unat (cc_max_size cc)
              then fit_prefix (unat (cc_max_size cc) - (l + unat req)) (lru_items ops c) else []) \<and>
           unat cur' = l + bytes_of (lru_items ops c')"
proof -
  have "unat (cc_max_size cc) + unat req < 2 ^ 64"
    using assms(6,7) by (simp add: word_le_nat_alt)
  then obtain c' cur' m where
    "evict_loop ops req (cc_max_size cc) c (cc_current_size cc) = Some (c', cur')"
    "lru_ok ops c'" "lru_cap ops c' = lru_cap ops c"
    "evict_post (lru_items ops c) (unat (cc_current_size cc)) (unat (cc_max_size cc)) (unat req)
       (lru_items ops c') (unat cur') m"
    using evict_loop_result [OF assms(2) _ assms(5)] assms(4) by fastforce
  note loop = this
  from loop(4) assms(4) have "lru_items ops c' =
      (if l + unat req \<le> unat (cc_max_size cc)
       then fit_prefix (unat (cc_max_size cc) - (l + unat req)) (lru_items ops c) else []) \<and>
      unat cur' = l + bytes_of (lru_items ops c')"
    by (metis evict_post_fit)
  moreover have "make_space ops req cc = Some (cc\<lparr>cc_cache := Some c', cc_current_size := cur'\<rparr>)"
    using assms(1,3,6) loop(1) by (simp add: make_space_def not_less word_neq_0_conv)
  ultimately show ?thesis using loop(2,3) by blast
qed

text \<open>An insertion leaves what the reference says, and the account in step with it.\<close>

lemma insert_result:
  assumes inv: "cache_inv ops cc" and c: "cc_cache cc = Some c"
    and d: "length d \<le> unat MAX_FILE_SIZE"
    and rest: "rest = AList.delete (mk_key p z t) (lru_items ops c)"
    and L: "l = cache_leak ops cc" and mx: "mx = unat (cc_max_size cc)"
  shows "\<exists>cc' c'. cache_insert ops p z t d cc = Some cc' \<and> cc_cache cc' = Some c' \<and>
           lru_ok ops c' \<and> lru_cap ops c' = lru_cap ops c \<and> cc_max_size cc' = cc_max_size cc \<and>
           lru_items ops c' = insert_spec (lru_cap ops c) mx l (mk_key p z t) d rest \<and>
           unat (cc_current_size cc') =
             (if l + length d \<le> mx then l + bytes_of (fit_prefix (mx - (l + length d)) rest) + length d
              else l)"
proof -
  let ?k = "mk_key p z t" and ?sz = "of_nat (length d) :: usize"
  let ?cc1 = "remove_existing ops ?k cc" and ?kept = "fit_prefix (mx - (l + length d)) rest"
  note sz = unat_length [OF d]
  have cur: "unat (cc_current_size cc) \<le> mx" and pos: "0 < cc_max_size cc"
    and mx64: "mx + unat MAX_FILE_SIZE < 2 ^ 64"
    and used: "bytes_of (lru_items ops c) \<le> unat (cc_current_size cc)"
    using inv c mx by (auto simp: cache_inv_def word_le_nat_alt)
  obtain c1 where c1: "cc_cache ?cc1 = Some c1" "lru_ok ops c1" "lru_cap ops c1 = lru_cap ops c"
    "lru_items ops c1 = rest" "cc_max_size ?cc1 = cc_max_size cc"
    "unat (cc_current_size ?cc1) = l + bytes_of rest"
    using remove_existing_result [OF inv c] L rest by blast
  have l: "l + bytes_of (lru_items ops c) \<le> mx"
    using cur used L by (simp add: cache_leak_def cache_items_def c)
  then have le1: "cc_current_size ?cc1 \<le> cc_max_size ?cc1"
    using bytes_of_delete_le [of ?k "lru_items ops c"] c1 mx rest by (simp add: word_le_nat_alt)
  have pos1: "0 < cc_max_size ?cc1" and mx1: "unat (cc_max_size ?cc1) + unat MAX_FILE_SIZE < 2 ^ 64"
    and cur1: "unat (cc_current_size ?cc1) = l + bytes_of (lru_items ops c1)"
    using c1 pos mx64 mx by simp_all
  from make_space_result [OF c1(1,2) pos1 cur1 le1 sz(2) mx1]
  obtain c2 cur2 where c2: "make_space ops ?sz ?cc1 = Some (?cc1\<lparr>cc_cache := Some c2, cc_current_size := cur2\<rparr>)"
    "lru_ok ops c2" "lru_cap ops c2 = lru_cap ops c"
    and items2: "lru_items ops c2 = (if l + length d \<le> mx then ?kept else [])"
    and cur2: "unat cur2 = l + bytes_of (lru_items ops c2)"
    using c1 sz(1) mx by auto
  have nin: "?k \<notin> fst ` set (lru_items ops c2)"
    using fit_prefix_subset [of "mx - (l + length d)" rest] delete_notin_dom [of ?k "lru_items ops c"]
    unfolding items2 rest by (auto split: if_splits)
  note room = fit_prefix_room [OF items2, unfolded cur2 [symmetric]]
  have add: "unat (cur2 + ?sz) = unat cur2 + length d"
    using room(1) l mx64 d sz(1) by (subst unat_add_fits) auto
  have fits: "cur2 + ?sz \<le> cc_max_size cc \<longleftrightarrow> l + length d \<le> mx"
    using room(2) l add mx by (simp add: word_le_nat_alt)
  have ins: "cache_insert ops p z t d cc =
      Some (if l + length d \<le> mx
            then ?cc1\<lparr>cc_cache := Some (lru_put ops c2 ?k (CacheEntry_new d)), cc_current_size := cur2 + ?sz\<rparr>
            else ?cc1\<lparr>cc_cache := Some c2, cc_current_size := cur2\<rparr>)"
    using c sz(2) c2(1) c1(5) pos fits by (simp add: cache_insert_def Let_def not_less)
  show ?thesis
  proof (cases "l + length d \<le> mx")
    case True
    with ins c1(5) c2 items2 cur2 add put_law [OF c2(2), of ?k "CacheEntry_new d"] nin show ?thesis
      by (simp add: insert_spec_def Let_def)
  next
    case False
    with ins c1(5) c2 items2 cur2 show ?thesis by (simp add: insert_spec_def)
  qed
qed

end

section \<open>The invariant\<close>

text \<open>
  A configured size in MB whose bytes, with one more file, fit into a \<^verbatim>\<open>usize\<close>; and a \<^verbatim>\<open>Vec\<close>
  that Rust can allocate (at most \<^verbatim>\<open>isize::MAX\<close> bytes).
\<close>

definition mb_ok :: "usize \<Rightarrow> bool" where
  "mb_ok n \<longleftrightarrow> unat n < 2 ^ 43"

definition vec_ok :: "bytes \<Rightarrow> bool" where
  "vec_ok d \<longleftrightarrow> length d < 2 ^ 63"

lemma unat_mult_fits: "unat a * unat b < 2 ^ 64 \<Longrightarrow> unat (a * b) = unat a * unat b" for a b :: usize
  by (simp add: unat_word_ariths)

lemma unat_MB: "unat MB = 2 ^ 20"
  by (simp add: MB_def)

lemma unat_mult_MB: "mb_ok n \<Longrightarrow> unat (n * MB) = unat n * 2 ^ 20"
  by (subst unat_mult_fits) (simp_all add: unat_MB mb_ok_def)

lemma oversize: "vec_ok d \<Longrightarrow> (of_nat (length d) :: usize) > MAX_FILE_SIZE \<longleftrightarrow> length d > unat MAX_FILE_SIZE"
  by (simp add: word_less_nat_alt unat_of_nat vec_ok_def)

lemma entries_ok_new: "length d \<le> unat MAX_FILE_SIZE \<Longrightarrow> entries_ok [(k, CacheEntry_new d)]"
  using unat_length [of d] by (simp add: entries_ok_def CacheEntry_new_def Let_def)

lemma entries_ok_insert_spec:
  assumes "length d \<le> unat MAX_FILE_SIZE" and "entries_ok xs"
  shows "entries_ok (insert_spec cap mx l k d xs)"
proof -
  have "entries_ok (fit_prefix b xs)" for b
    using assms(2) fit_prefix_subset [of b xs] by (auto simp: entries_ok_def list_all_iff)
  then show ?thesis
    using entries_ok_new [OF assms(1), of k] entries_ok_butlast
    by (auto simp: insert_spec_def Let_def entries_ok_Cons [of _ "_ :: lru_items"] entries_ok_def)
qed

lemma insert_spec_subset: "set (insert_spec cap mx l k d xs) \<subseteq> insert (k, CacheEntry_new d) (set xs)"
  using fit_prefix_subset [of "mx - (l + length d)" xs]
  by (auto simp: insert_spec_def Let_def dest: in_set_butlastD)

text \<open>The size a capacity eviction inside \<^verbatim>\<open>put\<close> drops without telling the account.\<close>

definition lost_bytes :: "nat \<Rightarrow> nat \<Rightarrow> nat \<Rightarrow> nat \<Rightarrow> lru_items \<Rightarrow> nat" where
  "lost_bytes cap mx l n xs =
     (let kept = fit_prefix (mx - (l + n)) xs
      in if l + n \<le> mx \<and> kept \<noteq> [] \<and> length kept = cap then unat (ce_size (snd (last kept))) else 0)"

lemma bytes_of_butlast: "xs \<noteq> [] \<Longrightarrow> bytes_of (butlast xs) + unat (ce_size (snd (last xs))) = bytes_of xs"
  by (induction xs) auto

lemma bytes_insert_spec:
  assumes "length d \<le> unat MAX_FILE_SIZE" and "0 < cap"
  shows "bytes_of (insert_spec cap mx l k d xs) + lost_bytes cap mx l (length d) xs =
     (if l + length d \<le> mx then bytes_of (fit_prefix (mx - (l + length d)) xs) + length d else 0)"
  using bytes_of_butlast [of "fit_prefix (mx - (l + length d)) xs"] unat_length(1) [OF assms(1)] assms(2)
  by (auto simp: insert_spec_def lost_bytes_def Let_def CacheEntry_new_def)

text \<open>What every operation keeps: the invariant, the configuration, and the leak so far.\<close>

definition cache_keeps :: "'c lru_ops \<Rightarrow> 'c compression_cache \<Rightarrow> 'c compression_cache \<Rightarrow> bool" where
  "cache_keeps ops cc cc' \<longleftrightarrow>
     cache_inv ops cc' \<and> cc_max_size cc' = cc_max_size cc \<and>
     (cc_cache cc' = None \<longleftrightarrow> cc_cache cc = None) \<and> cache_leak ops cc \<le> cache_leak ops cc'"

lemma cache_keeps_refl: "cache_inv ops cc \<Longrightarrow> cache_keeps ops cc cc"
  by (simp add: cache_keeps_def)

lemma cache_keeps_trans: "cache_keeps ops a b \<Longrightarrow> cache_keeps ops b c \<Longrightarrow> cache_keeps ops a c"
  by (simp add: cache_keeps_def)

lemma cache_keeps_inv: "cache_keeps ops a b \<Longrightarrow> cache_inv ops b"
  by (simp add: cache_keeps_def)

context lru_cache
begin

lemma inv_new: "mb_ok n \<Longrightarrow> cache_inv ops (cache_new ops n)"
proof (cases "n = 0")
  case False
  assume n: "mb_ok n"
  have "max (n * 4) 100 \<noteq> (0 :: usize)" by (auto simp: max_def)
  note new = new_law [OF this]
  have "0 < unat (n * MB)" "unat (n * MB) + unat MAX_FILE_SIZE < 2 ^ 64"
    using unat_mult_MB [OF n] n False MAX_FILE_SIZE_val by (simp_all add: mb_ok_def unat_gt_0)
  with False new show ?thesis
    by (simp add: cache_inv_def cache_new_def Let_def entries_ok_def word_less_nat_alt)
qed (simp add: cache_inv_def cache_new_def)

lemma inv_SomeD:
  "cache_inv ops cc \<Longrightarrow> cc_cache cc = Some c \<Longrightarrow>
     lru_ok ops c \<and> entries_ok (lru_items ops c) \<and> 0 < lru_cap ops c \<and>
     distinct (map fst (lru_items ops c))"
  using ok_law by (auto simp: cache_inv_def)

lemma get_result:
  assumes "cache_inv ops cc" and get: "cache_get ops p z t cc = (r, cc')"
  shows "r = cache_lookup ops cc (mk_key p z t)" and "cache_inv ops cc'"
    and "cache_lookup ops cc' = cache_lookup ops cc" and "cache_leak ops cc' = cache_leak ops cc"
proof -
  have "r = cache_lookup ops cc (mk_key p z t) \<and> cache_inv ops cc' \<and>
        cache_lookup ops cc' = cache_lookup ops cc \<and> cache_leak ops cc' = cache_leak ops cc"
  proof (cases "cc_cache cc")
    case None
    with get assms(1) show ?thesis by (auto simp: cache_get_def cache_lookup_def cache_items_def)
  next
    case (Some c)
    let ?k = "mk_key p z t"
    obtain e c' where eg: "lru_get ops c ?k = (e, c')" by (cases "lru_get ops c ?k")
    note inv = inv_SomeD [OF assms(1) Some]
    note law = get_law [OF inv [THEN conjunct1] eg]
    have cc': "r = map_option ce_data e" "cc' = cc\<lparr>cc_cache := Some c'\<rparr>"
      using get by (auto simp: cache_get_def Some eg)
    have "bytes_of (lru_items ops c') = bytes_of (lru_items ops c) \<and>
          entries_ok (lru_items ops c') \<and> map_of (lru_items ops c') = map_of (lru_items ops c)"
    proof (cases e)
      case None
      with law inv show ?thesis by simp
    next
      case e: (Some v)
      have mem: "(?k, v) \<in> set (lru_items ops c)" and look: "map_of (lru_items ops c) ?k = Some v"
        using law e by (auto intro: map_of_SomeD)
      have items: "lru_items ops c' = (?k, v) # AList.delete ?k (lru_items ops c)"
        using law e by simp
      from inv have "entries_ok (lru_items ops c)" by blast
      with mem have "entries_ok [(?k, v)]" "entries_ok (AList.delete ?k (lru_items ops c))"
        by (blast intro: entries_ok_mem entries_ok_delete)+
      then have "entries_ok (lru_items ops c')" by (simp add: items entries_ok_def)
      moreover have "bytes_of (lru_items ops c') = bytes_of (lru_items ops c)"
        using bytes_of_delete [of "lru_items ops c" ?k] inv look by (simp add: items)
      moreover have "map_of (lru_items ops c') = map_of (lru_items ops c)"
        using look by (auto simp: items delete_conv' fun_eq_iff)
      ultimately show ?thesis by blast
    qed
    with assms(1) Some law cc' show ?thesis
      by (simp add: cache_inv_def cache_lookup_def cache_leak_def cache_items_def fun_eq_iff)
  qed
  then show "r = cache_lookup ops cc (mk_key p z t)" and "cache_inv ops cc'"
    and "cache_lookup ops cc' = cache_lookup ops cc" and "cache_leak ops cc' = cache_leak ops cc"
    by blast+
qed

lemma insert_skipped:
  assumes "vec_ok d" and "cc_cache cc = None \<or> unat MAX_FILE_SIZE < length d"
  shows "cache_insert ops p z t d cc = Some cc"
  using assms oversize [OF assms(1)] by (auto simp: cache_insert_def Let_def)

text \<open>An insertion always returns, keeps the invariant, and never shrinks the leak.\<close>

lemma insert_keeps:
  assumes inv: "cache_inv ops cc" and d: "vec_ok d"
  shows "\<exists>cc'. cache_insert ops p z t d cc = Some cc' \<and> cache_keeps ops cc cc'"
proof (cases "cc_cache cc = None \<or> unat MAX_FILE_SIZE < length d")
  case True
  with insert_skipped [OF d] inv show ?thesis by (simp add: cache_keeps_refl)
next
  case False
  then obtain c where c: "cc_cache cc = Some c" and sz: "length d \<le> unat MAX_FILE_SIZE" by auto
  let ?l = "cache_leak ops cc" and ?mx = "unat (cc_max_size cc)"
  let ?rest = "AList.delete (mk_key p z t) (lru_items ops c)"
  from insert_result [OF inv c sz refl refl refl] obtain cc' c' where
    ins: "cache_insert ops p z t d cc = Some cc'" "cc_cache cc' = Some c'" "lru_ok ops c'"
      "lru_cap ops c' = lru_cap ops c" "cc_max_size cc' = cc_max_size cc"
    and items: "lru_items ops c' = insert_spec (lru_cap ops c) ?mx ?l (mk_key p z t) d ?rest"
    and cur: "unat (cc_current_size cc') =
        (if ?l + length d \<le> ?mx then ?l + bytes_of (fit_prefix (?mx - (?l + length d)) ?rest) + length d
         else ?l)"
    by blast
  note inv_c = inv_SomeD [OF inv c]
  have ent: "entries_ok (lru_items ops c')"
    using entries_ok_insert_spec [OF sz] entries_ok_delete inv_c unfolding items by blast
  have bytes: "bytes_of (lru_items ops c') + lost_bytes (lru_cap ops c) ?mx ?l (length d) ?rest + ?l =
      unat (cc_current_size cc')"
    using bytes_insert_spec [OF sz, of "lru_cap ops c" ?mx ?l "mk_key p z t" ?rest] inv_c cur
    by (auto simp: items)
  have "?l \<le> ?mx"
    using inv c by (auto simp: cache_inv_def cache_leak_def word_le_nat_alt)
  then have "unat (cc_current_size cc') \<le> ?mx"
    using cur fit_prefix_bytes [of "?mx - (?l + length d)" ?rest] by (auto split: if_splits)
  then have "cache_inv ops cc'"
    using inv c ins ent bytes by (simp add: cache_inv_def word_le_nat_alt)
  moreover have "?l \<le> cache_leak ops cc'"
    using bytes ins(2) by (simp add: cache_leak_def cache_items_def)
  ultimately show ?thesis by (intro exI [of _ cc']) (simp add: ins c cache_keeps_def)
qed

text \<open>Lookups after an insertion, under the inserted key and under any other.\<close>

lemma insert_items:
  assumes "cache_inv ops cc" and "cc_cache cc = Some c" and "length d \<le> unat MAX_FILE_SIZE"
    and "cache_insert ops p z t d cc = Some cc'"
  shows "cache_items ops cc' = insert_spec (lru_cap ops c) (unat (cc_max_size cc))
           (cache_leak ops cc) (mk_key p z t) d (AList.delete (mk_key p z t) (lru_items ops c))"
  using insert_result [OF assms(1-3) refl refl refl, of p z t] assms(4)
  by (auto simp: cache_items_def)

lemma insert_lookup_same:
  assumes "cache_inv ops cc" and "cc_cache cc \<noteq> None" and "length d \<le> unat MAX_FILE_SIZE"
    and "cache_insert ops p z t d cc = Some cc'"
  shows "cache_lookup ops cc' (mk_key p z t) =
           (if cache_leak ops cc + length d \<le> unat (cc_max_size cc) then Some d else None)"
  using assms insert_items
  by (auto simp: cache_lookup_def insert_spec_def Let_def CacheEntry_new_def)

lemma insert_lookup_other:
  assumes inv: "cache_inv ops cc" and d: "vec_ok d" and k: "k \<noteq> mk_key p z t"
    and ins: "cache_insert ops p z t d cc = Some cc'"
  shows "cache_lookup ops cc' k = None \<or> cache_lookup ops cc' k = cache_lookup ops cc k"
proof (cases "cc_cache cc = None \<or> unat MAX_FILE_SIZE < length d")
  case True
  with insert_skipped [OF d] ins show ?thesis by simp
next
  case False
  then obtain c where c: "cc_cache cc = Some c" and sz: "length d \<le> unat MAX_FILE_SIZE" by auto
  let ?rest = "AList.delete (mk_key p z t) (lru_items ops c)"
  have dist: "distinct (map fst ?rest)"
    using inv_SomeD [OF inv c] by (simp add: distinct_delete)
  have "map_of (cache_items ops cc) k = Some e" if "map_of (cache_items ops cc') k = Some e" for e
  proof -
    have "(k, e) \<in> set (cache_items ops cc')" using that by (rule map_of_SomeD)
    then have "(k, e) \<in> set ?rest"
      using insert_spec_subset k unfolding insert_items [OF inv c sz ins] by blast
    then have "map_of ?rest k = Some e" using dist by simp
    with k show ?thesis by (simp add: cache_items_def c)
  qed
  then show ?thesis
    by (cases "map_of (cache_items ops cc') k") (auto simp: cache_lookup_def)
qed

lemma insert_lookup_cases:
  assumes inv: "cache_inv ops cc" and d: "vec_ok d" and ins: "cache_insert ops p z t d cc = Some cc'"
  shows "cache_lookup ops cc' k = None \<or> cache_lookup ops cc' k = cache_lookup ops cc k \<or>
         (k = mk_key p z t \<and> cache_lookup ops cc' k = Some d)"
proof (cases "k = mk_key p z t \<and> cc_cache cc \<noteq> None \<and> length d \<le> unat MAX_FILE_SIZE")
  case True
  with insert_lookup_same [OF inv _ _ ins] show ?thesis by auto
next
  case False
  show ?thesis
  proof (cases "k = mk_key p z t")
    case True
    with False insert_skipped [OF d, of cc p z t] ins show ?thesis by (simp add: not_le)
  next
    case False
    from insert_lookup_other [OF inv d this ins] show ?thesis by blast
  qed
qed

text \<open>The excess after an insertion: the bytes of an entry that \<^verbatim>\<open>put\<close> pushed out.\<close>

lemma insert_leak:
  assumes inv: "cache_inv ops cc" and c: "cc_cache cc = Some c" and sz: "length d \<le> unat MAX_FILE_SIZE"
    and ins: "cache_insert ops p z t d cc = Some cc'"
  shows "cache_leak ops cc' = cache_leak ops cc +
           lost_bytes (lru_cap ops c) (unat (cc_max_size cc)) (cache_leak ops cc) (length d)
             (AList.delete (mk_key p z t) (lru_items ops c))"
proof -
  have "0 < lru_cap ops c" using inv_SomeD [OF inv c] by blast
  from bytes_insert_spec [OF sz this, of "unat (cc_max_size cc)" "cache_leak ops cc" "mk_key p z t"
      "AList.delete (mk_key p z t) (lru_items ops c)"]
  show ?thesis
    using insert_result [OF inv c sz refl refl refl, of p z t] ins insert_items [OF inv c sz ins]
    by (auto simp: cache_leak_def [of ops cc'] split: if_splits)
qed

lemma get_keeps:
  assumes "cache_inv ops cc"
  shows "cache_keeps ops cc (snd (cache_get ops p z t cc))"
proof -
  obtain r cc' where g: "cache_get ops p z t cc = (r, cc')" by (cases "cache_get ops p z t cc")
  then have "cc_max_size cc' = cc_max_size cc" "cc_cache cc' = None \<longleftrightarrow> cc_cache cc = None"
    by (auto simp: cache_get_def split: option.splits prod.splits)
  with get_result [OF assms g] g show ?thesis by (simp add: cache_keeps_def)
qed

lemma cache_run_keeps:
  assumes "cache_inv ops cc" and "\<forall>p z t d. CInsert p z t d \<in> set xs \<longrightarrow> vec_ok d"
  shows "\<exists>cc'. cache_run ops xs cc = Some cc' \<and> cache_keeps ops cc cc'"
  using assms
proof (induction xs arbitrary: cc)
  case Nil
  then show ?case by (simp add: cache_keeps_refl)
next
  case (Cons x xs)
  have step: "\<exists>cc1. cache_run ops (x # xs) cc = cache_run ops xs cc1 \<and> cache_keeps ops cc cc1"
  proof (cases x)
    case (CGet p z t)
    with get_keeps [OF Cons.prems(1)] show ?thesis by auto
  next
    case (CInsert p z t d)
    with Cons.prems(2) have "vec_ok d" by auto
    from insert_keeps [OF Cons.prems(1) this, of p z t] CInsert show ?thesis by auto
  qed
  then obtain cc1 where cc1: "cache_run ops (x # xs) cc = cache_run ops xs cc1" "cache_keeps ops cc cc1"
    by blast
  from cc1(2) have "cache_inv ops cc1" by (rule cache_keeps_inv)
  with Cons.IH Cons.prems(2) obtain cc2 where "cache_run ops xs cc1 = Some cc2" "cache_keeps ops cc1 cc2"
    by (meson list.set_intros(2))
  with cc1 show ?case by (auto intro: cache_keeps_trans)
qed

end

section \<open>What the file server relies on\<close>

text \<open>
  The contract of a cache for its client: a lookup is what the last insertions left, an
  insertion returns, and afterwards a key holds the inserted data, what it held, or nothing.
\<close>

locale file_cache =
  fixes get :: "string \<Rightarrow> string \<Rightarrow> system_time \<Rightarrow> 'cc \<Rightarrow> bytes option \<times> 'cc"
    and ins :: "string \<Rightarrow> string \<Rightarrow> system_time \<Rightarrow> bytes \<Rightarrow> 'cc \<Rightarrow> 'cc option"
    and look :: "'cc \<Rightarrow> cache_key \<Rightarrow> bytes option"
    and inv :: "'cc \<Rightarrow> bool"
  assumes get_look: "inv cc \<Longrightarrow> get p z t cc = (r, cc') \<Longrightarrow>
      r = look cc (mk_key p z t) \<and> inv cc' \<and> look cc' = look cc"
    and ins_total: "inv cc \<Longrightarrow> vec_ok d \<Longrightarrow> \<exists>cc'. ins p z t d cc = Some cc' \<and> inv cc'"
    and ins_look: "inv cc \<Longrightarrow> vec_ok d \<Longrightarrow> ins p z t d cc = Some cc' \<Longrightarrow>
      look cc' k = None \<or> look cc' k = look cc k \<or> (k = mk_key p z t \<and> look cc' k = Some d)"
begin

text \<open>A property of every stored pair survives, if inserted data has it.\<close>

lemma get_all:
  assumes "inv cc" and "get p z t cc = (r, cc')" and "\<forall>k d. look cc k = Some d \<longrightarrow> P k d"
  shows "\<forall>k d. look cc' k = Some d \<longrightarrow> P k d" and "r = Some d \<Longrightarrow> P (mk_key p z t) d"
  using get_look [OF assms(1,2)] assms(3) by auto

lemma ins_all:
  assumes "inv cc" and "vec_ok d" and "ins p z t d cc = Some cc'"
    and "\<forall>k d. look cc k = Some d \<longrightarrow> P k d" and "P (mk_key p z t) d"
  shows "\<forall>k d. look cc' k = Some d \<longrightarrow> P k d"
  using ins_look [OF assms(1-3)] assms(4,5) by (metis option.distinct(1) option.inject)

end

sublocale lru_cache \<subseteq> fc: file_cache "cache_get ops" "cache_insert ops" "cache_lookup ops" "cache_inv ops"
proof unfold_locales
  fix cc p z t r cc' d k
  show "cache_inv ops cc \<Longrightarrow> cache_get ops p z t cc = (r, cc') \<Longrightarrow>
    r = cache_lookup ops cc (mk_key p z t) \<and> cache_inv ops cc' \<and>
    cache_lookup ops cc' = cache_lookup ops cc"
    using get_result by blast
  show "cache_inv ops cc \<Longrightarrow> vec_ok d \<Longrightarrow> \<exists>cc'. cache_insert ops p z t d cc = Some cc' \<and> cache_inv ops cc'"
    using insert_keeps cache_keeps_inv by blast
  show "cache_inv ops cc \<Longrightarrow> vec_ok d \<Longrightarrow> cache_insert ops p z t d cc = Some cc' \<Longrightarrow>
    cache_lookup ops cc' k = None \<or> cache_lookup ops cc' k = cache_lookup ops cc k \<or>
    (k = mk_key p z t \<and> cache_lookup ops cc' k = Some d)"
    by (rule insert_lookup_cases)
qed

section \<open>A reference LRU cache\<close>

text \<open>Capacity and entries, most recently used first: the structure \<^verbatim>\<open>LruCache\<close> documents.\<close>

definition list_lru :: "(nat \<times> lru_items) lru_ops" where
  "list_lru = \<lparr>
     lru_new = (\<lambda>n. (unat n, [])),
     lru_get = (\<lambda>(cap, xs) k.
       (case map_of xs k of
          None \<Rightarrow> (None, (cap, xs))
        | Some e \<Rightarrow> (Some e, (cap, (k, e) # AList.delete k xs)))),
     lru_pop = (\<lambda>(cap, xs) k. (map_of xs k, (cap, AList.delete k xs))),
     lru_pop_lru = (\<lambda>(cap, xs).
       if xs = [] then (None, (cap, xs)) else (Some (last xs), (cap, butlast xs))),
     lru_put = (\<lambda>(cap, xs) k e.
       (cap, (k, e) # (if k \<in> fst ` set xs then AList.delete k xs
                       else if length xs = cap then butlast xs else xs))),
     lru_len = (\<lambda>(cap, xs). of_nat (length xs)),
     lru_clear = (\<lambda>(cap, xs). (cap, [])),
     lru_items = snd,
     lru_cap = fst,
     lru_ok = (\<lambda>(cap, xs). distinct (map fst xs) \<and> length xs \<le> cap \<and> 0 < cap)\<rparr>"

lemma list_lru_simps:
  "lru_new list_lru n = (unat n, [])"
  "lru_pop list_lru (cap, xs) k = (map_of xs k, (cap, AList.delete k xs))"
  "lru_put list_lru (cap, xs) k e =
     (cap, (k, e) # (if k \<in> fst ` set xs then AList.delete k xs
                     else if length xs = cap then butlast xs else xs))"
  "lru_items list_lru (cap, xs) = xs" "lru_cap list_lru (cap, xs) = cap"
  by (simp_all add: list_lru_def)

lemma distinct_butlast_keys: "distinct (map fst xs) \<Longrightarrow> distinct (map fst (butlast xs))"
  by (simp add: map_butlast distinct_butlast)

lemma length_delete_present: "(k, e) \<in> set xs \<Longrightarrow> length (AList.delete k xs) < length xs"
  by (induction xs) (auto intro: le_imp_less_Suc length_delete_le)

lemma length_delete_room:
  "(k, e) \<in> set xs \<Longrightarrow> length xs \<le> n \<Longrightarrow> Suc (length (AList.delete k xs)) \<le> n"
  using length_delete_present [of k e xs] by simp

lemma butlast_snoc_last: "xs \<noteq> [] \<Longrightarrow> last xs = x \<Longrightarrow> xs = butlast xs @ [x]"
  by auto

interpretation ll: lru_cache list_lru
proof unfold_locales
  fix c k e
  assume "lru_ok list_lru c"
  then show "lru_ok list_lru (lru_put list_lru c k e) \<and>
      lru_cap list_lru (lru_put list_lru c k e) = lru_cap list_lru c \<and>
      lru_items list_lru (lru_put list_lru c k e) =
        (k, e) # (if k \<in> fst ` set (lru_items list_lru c) then AList.delete k (lru_items list_lru c)
          else if length (lru_items list_lru c) = lru_cap list_lru c then butlast (lru_items list_lru c)
          else lru_items list_lru c)"
    using delete_notin_dom [of k "snd c"]
    by (cases c) (auto simp: list_lru_def distinct_delete distinct_butlast_keys Suc_le_eq
        dest: in_set_butlastD length_delete_present)
qed (auto simp: list_lru_def unat_gt_0 distinct_delete distinct_butlast_keys delete_notin_dom
      intro: order_trans [OF length_delete_le] length_delete_room butlast_snoc_last
      split: option.splits if_splits dest!: map_of_SomeD)

section \<open>A run that fills the cache\<close>

text \<open>
  Files of one byte under distinct paths, inserted into the smallest cache (1 MB, which the
  code sizes at 100 entries).
\<close>

definition fill_key :: "nat \<Rightarrow> cache_key" where
  "fill_key i = mk_key (replicate i CHR ''a'') ''br'' 0"

definition fill_ops :: "nat \<Rightarrow> cache_op list" where
  "fill_ops n = map (\<lambda>i. CInsert (replicate i CHR ''a'') ''br'' 0 [0]) [0..<n]"

definition filled :: "nat \<Rightarrow> (nat \<times> lru_items) compression_cache" where
  "filled n =
     \<lparr>cc_cache = Some (100, rev (map (\<lambda>i. (fill_key i, CacheEntry_new [0])) [0..<n])),
      cc_current_size = of_nat n, cc_max_size = MB\<rparr>"

lemma cache_run_append:
  "cache_run ops (xs @ ys) cc =
     (case cache_run ops xs cc of None \<Rightarrow> None | Some cc' \<Rightarrow> cache_run ops ys cc')"
  by (induction ops xs cc rule: cache_run.induct) (auto split: option.splits)

lemma fill_key_inj: "fill_key i = fill_key j \<longleftrightarrow> i = j"
proof -
  have "replicate i CHR ''a'' = replicate j CHR ''a'' \<longleftrightarrow> i = j"
    by (metis length_replicate)
  then show ?thesis by (simp add: fill_key_def mk_key_def)
qed

lemma filled_fresh:
  "fill_key n \<notin> fst ` set (map (\<lambda>i. (fill_key i, CacheEntry_new [0])) [0..<n])"
  by (auto simp: fill_key_inj)

lemma filled_step:
  assumes "n < 100"
  shows "cache_insert list_lru (replicate n CHR ''a'') ''br'' 0 [0] (filled n) = Some (filled (Suc n))"
proof -
  have n: "unat (of_nat n + 1 :: usize) = n + 1"
    using assms by (subst unat_add_fits) (simp_all add: unat_of_nat)
  have le: "of_nat n + 1 \<le> (MB :: usize)"
    using assms by (simp add: word_le_nat_alt n unat_MB)
  have key: "mk_key (replicate n CHR ''a'') ''br'' 0 = fill_key n"
    by (simp add: fill_key_def)
  have fresh: "fill_key n \<notin> fst ` set (rev (map (\<lambda>i. (fill_key i, CacheEntry_new [0])) [0..<n]))"
    using filled_fresh [of n] by simp
  then have none: "map_of (rev (map (\<lambda>i. (fill_key i, CacheEntry_new [0])) [0..<n])) (fill_key n) = None"
    by (simp add: map_of_eq_None_iff)
  have limits: "MB \<noteq> 0" "0 < MB" "\<not> MAX_FILE_SIZE < 1"
    by (simp_all add: MB_def MAX_FILE_SIZE_def DEFAULT_FILE_SIZE_MB_def)
  have "evict_loop list_lru 1 MB c (of_nat n) = Some (c, of_nat n)" for c
    using le by (subst evict_loop.simps) auto
  then show ?thesis
    using assms le none fresh limits
    by (simp add: cache_insert_def key filled_def list_lru_simps Let_def remove_existing_def
        make_space_def add.commute)
qed

lemma fill_run: "n \<le> 100 \<Longrightarrow> cache_run list_lru (fill_ops n) (cache_new list_lru 1) = Some (filled n)"
proof (induction n)
  case 0
  show ?case
    by (simp add: fill_ops_def filled_def cache_new_def list_lru_simps Let_def max_def)
next
  case (Suc n)
  have "fill_ops (Suc n) = fill_ops n @ [CInsert (replicate n CHR ''a'') ''br'' 0 [0]]"
    by (simp add: fill_ops_def)
  with Suc filled_step [of n] show ?case by (simp add: cache_run_append)
qed

lemma mb_ok_1 [simp]: "mb_ok 1"
  by (simp add: mb_ok_def)

lemma fill_ops_vec_ok: "\<forall>p z t d. CInsert p z t d \<in> set (fill_ops n) \<longrightarrow> vec_ok d"
  by (auto simp: fill_ops_def vec_ok_def)

lemma filled_inv: "n \<le> 100 \<Longrightarrow> cache_inv list_lru (filled n)"
  using ll.cache_run_keeps [OF ll.inv_new [OF mb_ok_1] fill_ops_vec_ok] fill_run [of n]
  by (metis cache_keeps_inv option.inject)

section \<open>Properties\<close>

text \<open>
  C15: any sequence of lookups and insertions on a new cache returns (the eviction loop always
  ends), and afterwards the stored bytes are at most the accounted bytes, which are at most
  the configured size; every stored file is at most 12 MB and is stored with its true size.
\<close>

theorem cache_run_bounded:
  assumes "lru_cache ops" and "mb_ok n" and "\<forall>p z t d. CInsert p z t d \<in> set xs \<longrightarrow> vec_ok d"
  shows "\<exists>cc. cache_run ops xs (cache_new ops n) = Some cc \<and>
              bytes_of (cache_items ops cc) \<le> unat (cc_current_size cc) \<and>
              unat (cc_current_size cc) \<le> unat n * 2 ^ 20 \<and> entries_ok (cache_items ops cc)"
proof -
  from lru_cache.cache_run_keeps [OF assms(1) lru_cache.inv_new [OF assms(1,2)] assms(3)]
  obtain cc where run: "cache_run ops xs (cache_new ops n) = Some cc"
    and keeps: "cache_keeps ops (cache_new ops n) cc" by blast
  then have "unat (cc_max_size cc) = unat n * 2 ^ 20"
    using unat_mult_MB [OF assms(2)] by (simp add: cache_keeps_def cache_new_def Let_def)
  with run keeps show ?thesis
    by (auto simp: cache_keeps_def cache_inv_def cache_items_def entries_ok_def word_le_nat_alt
        split: option.splits)
qed

theorem cache_run_bounded_witness:
  "\<exists>cc. cache_run list_lru (fill_ops 7) (cache_new list_lru 1) = Some cc \<and>
        unat (cc_current_size cc) \<le> 2 ^ 20"
  using cache_run_bounded [OF ll.lru_cache_axioms mb_ok_1 fill_ops_vec_ok, of 7] by auto

text \<open>
  C17: an insertion into an enabled cache makes the file readable under its key, unless the
  file and the leaked bytes together exceed the configured size, in which case it is not
  stored; every other key keeps its data or loses it, and never gets other data.
\<close>

theorem cache_insert_then_get:
  assumes "lru_cache ops" and "cache_inv ops cc" and "cc_cache cc \<noteq> None"
    and "length d \<le> unat MAX_FILE_SIZE"
  shows "\<exists>cc'. cache_insert ops p z t d cc = Some cc' \<and>
           fst (cache_get ops p z t cc') =
             (if cache_leak ops cc + length d \<le> unat (cc_max_size cc) then Some d else None) \<and>
           (\<forall>k. k \<noteq> mk_key p z t \<longrightarrow>
              cache_lookup ops cc' k = None \<or> cache_lookup ops cc' k = cache_lookup ops cc k)"
proof -
  have d: "vec_ok d" using assms(4) MAX_FILE_SIZE_val by (simp add: vec_ok_def)
  obtain cc' where ins: "cache_insert ops p z t d cc = Some cc'" and inv: "cache_inv ops cc'"
    using lru_cache.insert_keeps [OF assms(1,2) d, of p z t] cache_keeps_inv by blast
  have "fst (cache_get ops p z t cc') = cache_lookup ops cc' (mk_key p z t)"
    by (metis lru_cache.get_result(1) [OF assms(1) inv] prod.collapse)
  then show ?thesis
    using ins lru_cache.insert_lookup_same [OF assms ins]
      lru_cache.insert_lookup_other [OF assms(1,2) d _ ins] by simp
qed

theorem cache_insert_then_get_witness:
  "\<exists>cc'. cache_insert list_lru ''f.js'' ''br'' 5 [1, 2, 3] (filled 4) = Some cc' \<and>
         fst (cache_get list_lru ''f.js'' ''br'' 5 cc') = Some [1, 2, 3]"
proof -
  have "cc_cache (filled 4) \<noteq> None" "length [1, 2, 3 :: u8] \<le> unat MAX_FILE_SIZE"
    by (simp_all add: filled_def MAX_FILE_SIZE_val)
  moreover have "cache_leak list_lru (filled 4) + 3 \<le> unat (cc_max_size (filled 4))"
    by (simp add: cache_leak_def filled_def unat_MB)
  ultimately show ?thesis
    using cache_insert_then_get [OF ll.lru_cache_axioms filled_inv [of 4]] by fastforce
qed

text \<open>
  C16: the eviction loop with the insertion computes the reference \<open>insert_spec\<close>: the new
  entry in front of the longest prefix of the recency order that leaves room for it (less one
  entry when the entry capacity is reached), so only least recently used files are evicted,
  and no more of them than needed.
\<close>

theorem cache_insert_refines_spec:
  assumes "lru_cache ops" and "cache_inv ops cc" and "cc_cache cc = Some c"
    and "length d \<le> unat MAX_FILE_SIZE"
  shows "\<exists>cc'. cache_insert ops p z t d cc = Some cc' \<and>
           cache_items ops cc' =
             insert_spec (lru_cap ops c) (unat (cc_max_size cc)) (cache_leak ops cc) (mk_key p z t) d
               (AList.delete (mk_key p z t) (cache_items ops cc))"
proof -
  have d: "vec_ok d" using assms(4) MAX_FILE_SIZE_val by (simp add: vec_ok_def)
  obtain cc' where "cache_insert ops p z t d cc = Some cc'"
    using lru_cache.insert_keeps [OF assms(1,2) d, of p z t] by blast
  then show ?thesis
    using lru_cache.insert_items [OF assms] assms(3) by (simp add: cache_items_def [of ops cc])
qed

theorem cache_insert_refines_spec_witness:
  "\<exists>cc'. cache_insert list_lru ''f.js'' ''br'' 5 [1] (filled 2) = Some cc' \<and>
         map fst (cache_items list_lru cc') = [mk_key ''f.js'' ''br'' 5, fill_key 1, fill_key 0]"
proof -
  have c: "cc_cache (filled 2) = Some (100, [(fill_key 1, CacheEntry_new [0]), (fill_key 0, CacheEntry_new [0])])"
    by (simp add: filled_def numeral_2_eq_2)
  have sz: "length [1 :: u8] \<le> unat MAX_FILE_SIZE" by (simp add: MAX_FILE_SIZE_val)
  have items: "cache_items list_lru (filled 2) = [(fill_key 1, CacheEntry_new [0]), (fill_key 0, CacheEntry_new [0])]"
    by (simp add: cache_items_def c list_lru_simps)
  have "cache_leak list_lru (filled 2) = 0" "unat (cc_max_size (filled 2)) = 2 ^ 20"
    by (simp_all add: cache_leak_def items) (simp_all add: filled_def CacheEntry_new_def unat_MB)
  moreover have "fill_key i \<noteq> mk_key ''f.js'' ''br'' 5" for i
    by (simp add: fill_key_def mk_key_def)
  ultimately show ?thesis
    using cache_insert_refines_spec [OF ll.lru_cache_axioms filled_inv c sz, of "''f.js''" "''br''" 5]
    by (auto simp: insert_spec_def items list_lru_simps CacheEntry_new_def)
qed

text \<open>
  The account leaks. An insertion under a new key into a cache that holds as many entries
  as it may makes \<^verbatim>\<open>put\<close> push out the least recently used entry, whose bytes stay in
  \<^verbatim>\<open>current_size\<close> for good.
\<close>

theorem cache_full_put_leaks:
  assumes "lru_cache ops" and "cache_inv ops cc" and "cc_cache cc = Some c"
    and "length (lru_items ops c) = lru_cap ops c" and "cache_lookup ops cc (mk_key p z t) = None"
    and "length d \<le> unat MAX_FILE_SIZE"
    and "unat (cc_current_size cc) + length d \<le> unat (cc_max_size cc)"
  shows "\<exists>cc'. cache_insert ops p z t d cc = Some cc' \<and>
           cache_leak ops cc' = cache_leak ops cc + unat (ce_size (snd (last (lru_items ops c))))"
proof -
  have d: "vec_ok d" using assms(6) MAX_FILE_SIZE_val by (simp add: vec_ok_def)
  obtain cc' where ins: "cache_insert ops p z t d cc = Some cc'"
    using lru_cache.insert_keeps [OF assms(1,2) d, of p z t] by blast
  have rest: "AList.delete (mk_key p z t) (lru_items ops c) = lru_items ops c"
    using assms(3,5) by (intro delete_id) (auto simp: cache_lookup_def cache_items_def map_of_eq_None_iff)
  have l: "cache_leak ops cc + bytes_of (lru_items ops c) = unat (cc_current_size cc)"
    using assms(2,3) by (simp add: cache_inv_def cache_leak_def cache_items_def)
  then have "fit_prefix (unat (cc_max_size cc) - (cache_leak ops cc + length d)) (lru_items ops c) = lru_items ops c"
    using assms(7) by (intro fit_prefix_all) simp
  moreover have "lru_items ops c \<noteq> []"
    using lru_cache.inv_SomeD [OF assms(1-3)] assms(4) by auto
  ultimately show ?thesis
    using ins lru_cache.insert_leak [OF assms(1-3,6) ins] assms(4,7) l
    by (auto simp: rest lost_bytes_def Let_def)
qed

text \<open>Reached by real runs: 100 insertions into the 1 MB cache, and one more.\<close>

theorem cache_full_put_leaks_witness:
  "cache_run list_lru (fill_ops 100) (cache_new list_lru 1) = Some (filled 100) \<and>
   (\<exists>cc'. cache_insert list_lru (replicate 100 CHR ''a'') ''br'' 0 [0] (filled 100) = Some cc' \<and>
          cache_leak list_lru cc' = cache_leak list_lru (filled 100) + 1)"
proof -
  let ?xs = "rev (map (\<lambda>i. (fill_key i, CacheEntry_new [0])) [0..<100])"
  have "map_of ?xs (fill_key 100) = None"
    using filled_fresh [of 100] by (simp only: map_of_eq_None_iff set_rev) simp
  then have "cache_lookup list_lru (filled 100) (mk_key (replicate 100 CHR ''a'') ''br'' 0) = None"
    by (simp add: cache_lookup_def cache_items_def filled_def list_lru_simps fill_key_def del: upt_rec_numeral)
  moreover have "last ?xs = (fill_key 0, CacheEntry_new [0])"
    by (simp add: last_rev hd_map del: upt_rec_numeral)
  moreover have "cc_cache (filled 100) = Some (100, ?xs)" "length ?xs = 100"
    by (simp_all add: filled_def del: upt_rec_numeral)
  ultimately show ?thesis
    using cache_full_put_leaks [OF ll.lru_cache_axioms filled_inv [of 100], of "(100, ?xs)"
        "replicate 100 CHR ''a''" "''br''" 0 "[0]"] fill_run [of 100]
    by (simp add: list_lru_simps MAX_FILE_SIZE_val filled_def unat_MB CacheEntry_new_def del: upt_rec_numeral)
qed

text \<open>
  C18: the leak never shrinks, and it starves the cache: once the leaked bytes and a file
  exceed the configured size, no later sequence of lookups and insertions makes that file
  (or any other of its size) cacheable again.
\<close>

theorem cache_leak_starves:
  assumes "lru_cache ops" and "cache_inv ops cc" and "cc_cache cc \<noteq> None"
    and "length d \<le> unat MAX_FILE_SIZE" and "unat (cc_max_size cc) < cache_leak ops cc + length d"
    and "\<forall>p z t d. CInsert p z t d \<in> set xs \<longrightarrow> vec_ok d"
  shows "\<exists>cc1 cc2. cache_run ops xs cc = Some cc1 \<and> cache_leak ops cc \<le> cache_leak ops cc1 \<and>
           cache_insert ops p z t d cc1 = Some cc2 \<and> fst (cache_get ops p z t cc2) = None"
proof -
  from lru_cache.cache_run_keeps [OF assms(1,2,6)] obtain cc1 where
    run: "cache_run ops xs cc = Some cc1" and keeps: "cache_keeps ops cc cc1" by blast
  have d: "vec_ok d" using assms(4) MAX_FILE_SIZE_val by (simp add: vec_ok_def)
  from keeps have inv1: "cache_inv ops cc1" and c1: "cc_cache cc1 \<noteq> None"
    and big: "\<not> cache_leak ops cc1 + length d \<le> unat (cc_max_size cc1)"
    using assms(3,5) by (auto simp: cache_keeps_def)
  obtain cc2 where ins: "cache_insert ops p z t d cc1 = Some cc2" and inv2: "cache_inv ops cc2"
    using lru_cache.insert_keeps [OF assms(1) inv1 d, of p z t] cache_keeps_inv by blast
  have "fst (cache_get ops p z t cc2) = cache_lookup ops cc2 (mk_key p z t)"
    by (metis lru_cache.get_result(1) [OF assms(1) inv2] prod.collapse)
  with run keeps ins lru_cache.insert_lookup_same [OF assms(1) inv1 c1 assms(4) ins] big
  show ?thesis by (auto simp: cache_keeps_def)
qed

theorem cache_leak_starves_witness:
  "\<exists>cc1 cc2. cache_run list_lru [CGet ''a'' ''br'' 0]
       \<lparr>cc_cache = Some (100, []), cc_current_size = MB, cc_max_size = MB\<rparr> = Some cc1 \<and>
     cache_insert list_lru ''f'' ''br'' 0 [1] cc1 = Some cc2 \<and>
     fst (cache_get list_lru ''f'' ''br'' 0 cc2) = None"
proof -
  let ?cc = "\<lparr>cc_cache = Some (100 :: nat, [] :: lru_items), cc_current_size = MB, cc_max_size = MB\<rparr>"
  have "0 < MB" by (simp add: MB_def)
  then have "cache_inv list_lru ?cc"
    by (simp add: cache_inv_def list_lru_def entries_ok_def MAX_FILE_SIZE_val unat_MB)
  moreover have "cache_leak list_lru ?cc = 2 ^ 20"
    by (simp add: cache_leak_def cache_items_def list_lru_simps unat_MB)
  ultimately show ?thesis
    using cache_leak_starves [OF ll.lru_cache_axioms, of ?cc "[1]" "[CGet ''a'' ''br'' 0]" "''f''" "''br''" 0]
    by (simp add: MAX_FILE_SIZE_val unat_MB)
qed


section \<open>Sizes that overflow\<close>

text \<open>A cache that is switched on and can hold nothing.\<close>

definition starved :: "'c lru_ops \<Rightarrow> 'c compression_cache \<Rightarrow> bool" where
  "starved ops cc \<longleftrightarrow>
     cc_max_size cc = 0 \<and> (\<exists>c. cc_cache cc = Some c \<and> lru_ok ops c \<and> lru_items ops c = [])"

context lru_cache
begin

lemma starved_get:
  assumes "starved ops cc"
  shows "fst (cache_get ops p z t cc) = None" "starved ops (snd (cache_get ops p z t cc))"
proof -
  obtain c where c: "cc_cache cc = Some c" "lru_ok ops c" "lru_items ops c = []"
    using assms by (auto simp: starved_def)
  obtain r c' where g: "lru_get ops c (mk_key p z t) = (r, c')" by fastforce
  show "fst (cache_get ops p z t cc) = None" "starved ops (snd (cache_get ops p z t cc))"
    using get_law [OF c(2) g] c g assms by (auto simp: cache_get_def starved_def)
qed

lemma starved_insert:
  assumes "starved ops cc"
  obtains cc' where "cache_insert ops p z t d cc = Some cc'" "starved ops cc'"
proof -
  obtain c where c: "cc_cache cc = Some c" "lru_ok ops c" "lru_items ops c = []" "cc_max_size cc = 0"
    using assms by (auto simp: starved_def)
  obtain r c' where g: "lru_pop ops c (mk_key p z t) = (r, c')" by fastforce
  have r: "r = None" "lru_ok ops c'" "lru_items ops c' = []" using pop_law [OF c(2) g] c(3) by simp_all
  show thesis
  proof (cases "of_nat (length d) > MAX_FILE_SIZE")
    case True
    then show thesis using that assms c(1) by (simp add: cache_insert_def Let_def)
  next
    case False
    then have "cache_insert ops p z t d cc = Some (cc\<lparr>cc_cache := Some c'\<rparr>)"
      using c g r(1) by (simp add: cache_insert_def remove_existing_def make_space_def Let_def)
    then show thesis using that c(4) r by (simp add: starved_def)
  qed
qed

lemma starved_run:
  assumes "starved ops cc"
  shows "\<exists>cc'. cache_run ops xs cc = Some cc' \<and> starved ops cc'"
  using assms
proof (induction xs arbitrary: cc)
  case (Cons x xs)
  show ?case
  proof (cases x)
    case (CGet p z t)
    then show ?thesis using Cons.IH [OF starved_get(2) [OF Cons.prems]] by simp
  next
    case (CInsert p z t d)
    obtain cc1 where "cache_insert ops p z t d cc = Some cc1" "starved ops cc1"
      using starved_insert [OF Cons.prems] .
    then show ?thesis using Cons.IH [of cc1] CInsert by simp
  qed
qed simp

end




end
