(* ===== verification/Http_Reply.thy ===== *)
theory Http_Reply
  imports Http_Headers Mles_Cache
begin

text \<open>
  The replies of the web server (\<^verbatim>\<open>src/src/http.rs\<close>, \<^verbatim>\<open>src/src/compression.rs\<close>): the redirect to
  HTTPS, the headers of file replies, content types, and \<^verbatim>\<open>dyn_reply\<close>, which serves one file:
  conditional requests, the compression cache, reading and compressing the file, errors.

  Parameters: the header map, the cache's LRU list, the MIME table, HTTP dates, the two
  encoders, and the file system.
\<close>

section \<open>Parameters\<close>

text \<open>
  A MIME type is its base type and subtype. \<^verbatim>\<open>he_text\<close> are the headers warp gives a plain-text
  reply. \<^verbatim>\<open>he_fmt_date\<close> is None for a time that \<^verbatim>\<open>httpdate\<close> cannot print, on which it panics.
  \<^verbatim>\<open>he_uri\<close> tells whether \<^verbatim>\<open>Uri::from_str\<close> accepts a text.
\<close>

record ('c, 'h) http_env =
  he_lru :: "'c lru_ops"
  he_hdr :: "'h header_ops"
  he_mime :: "string \<Rightarrow> (string \<times> string) option"
  he_png :: "string \<times> string"
  he_jpeg :: "string \<times> string"
  he_ico :: "string \<times> string"
  he_any :: "string \<times> string"
  he_fmt_date :: "system_time \<Rightarrow> string option"
  he_parse_date :: "string \<Rightarrow> system_time option"
  he_zstd :: "bytes \<Rightarrow> bytes option"
  he_brotli :: "bytes \<Rightarrow> bytes option"
  he_text :: 'h
  he_uri :: "string \<Rightarrow> bool"

text \<open>
  The file system at one moment: \<^verbatim>\<open>metadata(path)\<close> fails or gives a modification time (None where the
  platform has none), \<^verbatim>\<open>File::open(path)\<close> fails or gives a handle, and \<^verbatim>\<open>read_to_end\<close> of a handle fails
  or gives bytes. What a path, and what a handle, stand for may differ from one moment to the next.
\<close>

record file_system =
  fs_meta :: "string \<Rightarrow> system_time option option"
  fs_open :: "string \<Rightarrow> nat option"
  fs_contents :: "nat \<Rightarrow> bytes option"

text \<open>Opening and reading a file at the same moment.\<close>

datatype read_result = OpenFailed | ReadFailed | Contents bytes

definition fs_read :: "file_system \<Rightarrow> string \<Rightarrow> read_result" where
  "fs_read fs path =
     (case fs_open fs path of
        None \<Rightarrow> OpenFailed
      | Some handle \<Rightarrow> (case fs_contents fs handle of None \<Rightarrow> ReadFailed | Some raw \<Rightarrow> Contents raw))"

datatype http_rejection = Not_found | No_match

definition ascii_bytes :: "string \<Rightarrow> bytes" where
  "ascii_bytes s = map of_char s"

section \<open>Compression\<close>

definition BR :: string where "BR = ''br''"

definition ZSTD :: string where "ZSTD = ''zstd''"

definition compress :: "('c, 'h) http_env \<Rightarrow> string \<Rightarrow> bytes \<Rightarrow> bytes option" where
  "compress env comptype in_data =
     (if comptype = ZSTD then he_zstd env in_data else he_brotli env in_data)"

section \<open>The redirect\<close>

text \<open>None is the panic of \<^verbatim>\<open>expect\<close> on a text that is no URI. The redirect of warp is a 301.\<close>

definition redirect_reply :: "('c, 'h) http_env \<Rightarrow> string \<Rightarrow> 'h reply" where
  "redirect_reply env location =
     \<lparr>rp_status = 301,
      rp_headers = hdr_insert (he_hdr env) ''location'' location (hdr_new (he_hdr env)),
      rp_body = []\<rparr>"

definition dyn_hreply ::
  "('c, 'h) http_env \<Rightarrow> string \<Rightarrow> string \<Rightarrow> string \<Rightarrow> (http_rejection + 'h reply) option" where
  "dyn_hreply env uri domain tail =
     (if uri \<noteq> domain then Some (Inl Not_found)
      else let location = ''https://'' @ domain @ ''/'' @ tail
           in if he_uri env location then Some (Inr (redirect_reply env location)) else None)"

section \<open>Headers of file replies\<close>

definition with_header :: "'h header_ops \<Rightarrow> string \<Rightarrow> string \<Rightarrow> 'h reply \<Rightarrow> 'h reply" where
  "with_header ops n v r = r\<lparr>rp_headers := hdr_insert ops n v (rp_headers r)\<rparr>"

definition with_security_headers :: "'h header_ops \<Rightarrow> 'h reply \<Rightarrow> 'h reply" where
  "with_security_headers ops r =
     with_header ops ''referrer-policy'' ''strict-origin-when-cross-origin''
       (with_header ops ''x-frame-options'' ''DENY''
         (with_header ops ''x-content-type-options'' ''nosniff''
           (with_header ops ''strict-transport-security''
             ''max-age=31536000; includeSubDomains; preload'' r)))"

definition with_isolation :: "'h header_ops \<Rightarrow> 'h reply \<Rightarrow> 'h reply" where
  "with_isolation ops r =
     with_header ops ''cross-origin-resource-policy'' ''same-origin''
       (with_header ops ''cross-origin-embedder-policy'' ''require-corp''
         (with_header ops ''cross-origin-opener-policy'' ''same-origin''
           (with_security_headers ops r)))"

definition with_file_headers :: "'h header_ops \<Rightarrow> 'h reply \<Rightarrow> bool \<Rightarrow> 'h reply" where
  "with_file_headers ops r cors =
     (if cors then with_isolation ops r else with_security_headers ops r)"

section \<open>Content types\<close>

definition mime_text :: "string \<times> string \<Rightarrow> string" where
  "mime_text m = fst m @ ''/'' @ snd m"

definition content_type :: "('c, 'h) http_env \<Rightarrow> string \<Rightarrow> string" where
  "content_type env file_path =
     (let ext = rsplit_first (CHR ''.'') file_path
      in case he_mime env ext of
           Some m \<Rightarrow> mime_text m
         | None \<Rightarrow>
             if ext = ''png'' then mime_text (he_png env)
             else if ext = ''jpg'' then mime_text (he_jpeg env)
             else if ext = ''ico'' then mime_text (he_ico env)
             else if ext = ''apk'' then ''application/vnd.android.package-archive''
             else mime_text (he_any env))"

definition is_compressible :: "string \<Rightarrow> bool" where
  "is_compressible ctype \<longleftrightarrow>
     str_contains ctype ''text'' \<or> str_contains ctype ''json'' \<or>
     str_contains ctype ''javascript'' \<or> str_contains ctype ''svg'' \<or> str_contains ctype ''wasm''"

text \<open>A reply with a status and a text, without the headers of file replies.\<close>

definition text_reply :: "('c, 'h) http_env \<Rightarrow> nat \<Rightarrow> string \<Rightarrow> 'h reply" where
  "text_reply env status txt =
     \<lparr>rp_status = status, rp_headers = he_text env, rp_body = ascii_bytes txt\<rparr>"

definition err500 :: "('c, 'h) http_env \<Rightarrow> 'h reply" where
  "err500 env = text_reply env 500 ''Internal Server Error''"

text \<open>Whole seconds since the epoch, 0 before it.\<close>

definition secs :: "system_time \<Rightarrow> nat" where
  "secs t = (if 0 \<le> t then nat (t div 1000000000) else 0)"

text \<open>\<^verbatim>\<open>Response::builder()\<close>: a value that is no header value makes \<^verbatim>\<open>body\<close> fail.\<close>

definition build_response ::
  "'h header_ops \<Rightarrow> nat \<Rightarrow> (string \<times> string) list \<Rightarrow> bytes \<Rightarrow> 'h reply option" where
  "build_response ops status hdrs body =
     (if \<forall>(n, v) \<in> set hdrs. hv_from_str ops v \<noteq> None
      then Some \<lparr>rp_status = status,
                 rp_headers = foldl (\<lambda>h (n, v). hdr_append ops n v h) (hdr_new ops) hdrs,
                 rp_body = body\<rparr>
      else None)"

section \<open>Serving a file\<close>

record file_request =
  fr_encoding :: "string option"
  fr_ims :: "string option"
  fr_host :: string
  fr_domain :: string
  fr_root :: string
  fr_tail :: string
  fr_cors :: bool

definition file_path_of :: "file_request \<Rightarrow> string" where
  "file_path_of fr =
     (let path = (if fr_tail fr = [] then ''index.html'' else fr_tail fr)
      in fr_root fr @ ''/'' @ fr_host fr @ ''/'' @ path)"

text \<open>Is the client's copy, from the time it names, still current?\<close>

definition not_modified :: "('c, 'h) http_env \<Rightarrow> string option \<Rightarrow> system_time \<Rightarrow> bool" where
  "not_modified env ims modified =
     (case ims of
        None \<Rightarrow> False
      | Some txt \<Rightarrow>
          (case he_parse_date env txt of
             None \<Rightarrow> False
           | Some since \<Rightarrow> secs modified \<le> secs since))"

definition not_modified_reply :: "('c, 'h) http_env \<Rightarrow> string \<Rightarrow> bool \<Rightarrow> 'h reply" where
  "not_modified_reply env last_modified cors =
     (let resp = (case build_response (he_hdr env) 304 [(''last-modified'', last_modified)] [] of
                    Some r \<Rightarrow> r
                  | None \<Rightarrow> \<lparr>rp_status = 200, rp_headers = hdr_new (he_hdr env), rp_body = []\<rparr>)
      in with_file_headers (he_hdr env) resp cors)"

definition wants :: "string \<Rightarrow> string option \<Rightarrow> string \<Rightarrow> bool" where
  "wants ctype encoding comptype \<longleftrightarrow>
     is_compressible ctype \<and> (case encoding of Some e \<Rightarrow> str_contains e comptype | None \<Rightarrow> False)"

text \<open>The cache is asked before the disk is touched: for zstd, else for brotli.\<close>

definition cached_body ::
  "('c, 'h) http_env \<Rightarrow> string \<Rightarrow> system_time \<Rightarrow> bool \<Rightarrow> bool \<Rightarrow> 'c compression_cache \<Rightarrow>
   (bytes \<times> string) option \<times> 'c compression_cache" where
  "cached_body env path modified want_zstd want_br cc =
     (let (hit, cc1) = (if want_zstd then cache_get (he_lru env) path ZSTD modified cc else (None, cc))
      in case hit of
           Some d \<Rightarrow> (Some (d, ZSTD), cc1)
         | None \<Rightarrow>
             (let (hit, cc2) = (if want_br then cache_get (he_lru env) path BR modified cc1 else (None, cc1))
              in case hit of
                   Some d \<Rightarrow> (Some (d, BR), cc2)
                 | None \<Rightarrow> (None, cc2)))"

text \<open>A body read from disk: compressed and stored, or as it is. None: the cache never answers.\<close>

definition fresh_body ::
  "('c, 'h) http_env \<Rightarrow> string \<Rightarrow> system_time \<Rightarrow> bool \<Rightarrow> bool \<Rightarrow> bytes \<Rightarrow> 'c compression_cache \<Rightarrow>
   ((bytes \<times> string option) \<times> 'c compression_cache) option" where
  "fresh_body env path modified want_zstd want_br raw cc =
     (case (if want_zstd then compress env ZSTD raw else None) of
        Some c \<Rightarrow>
          map_option (\<lambda>cc'. ((c, Some ZSTD), cc')) (cache_insert (he_lru env) path ZSTD modified c cc)
      | None \<Rightarrow>
          (case (if want_br then compress env BR raw else None) of
             Some c \<Rightarrow>
               map_option (\<lambda>cc'. ((c, Some BR), cc')) (cache_insert (he_lru env) path BR modified c cc)
           | None \<Rightarrow> Some ((raw, None), cc)))"

definition file_reply ::
  "('c, 'h) http_env \<Rightarrow> string \<Rightarrow> string \<Rightarrow> string option \<Rightarrow> bool \<Rightarrow> bytes \<Rightarrow> 'h reply" where
  "file_reply env ctype last_modified chosen_encoding cors body =
     (let hdrs = [(''content-type'', ctype), (''last-modified'', last_modified)] @
                 (case chosen_encoding of Some enc \<Rightarrow> [(''content-encoding'', enc)] | None \<Rightarrow> []) @
                 (if cors \<and> str_contains ctype ''json''
                  then [(''access-control-allow-origin'', ''*'')] else [])
      in case build_response (he_hdr env) 200 hdrs body of
           Some r \<Rightarrow> with_file_headers (he_hdr env) r cors
         | None \<Rightarrow> err500 env)"

text \<open>None: no reply is given, because printing the date panics or the cache never answers.\<close>

definition serve_file ::
  "('c, 'h) http_env \<Rightarrow> file_system \<Rightarrow> file_request \<Rightarrow> system_time \<Rightarrow> string \<Rightarrow> 'c compression_cache \<Rightarrow>
   ('h reply \<times> 'c compression_cache) option" where
  "serve_file env fs fr modified last_modified cc =
     (let file_path = file_path_of fr;
          ctype = content_type env file_path;
          want_zstd = wants ctype (fr_encoding fr) ZSTD;
          want_br = wants ctype (fr_encoding fr) BR
      in case cached_body env file_path modified want_zstd want_br cc of
           (Some (d, enc), cc1) \<Rightarrow>
             Some (file_reply env ctype last_modified (Some enc) (fr_cors fr) d, cc1)
         | (None, cc1) \<Rightarrow>
             (case fs_read fs file_path of
                OpenFailed \<Rightarrow> Some (err500 env, cc1)
              | ReadFailed \<Rightarrow> Some (err500 env, cc1)
              | Contents raw \<Rightarrow>
                  map_option
                    (\<lambda>((d, enc), cc2). (file_reply env ctype last_modified enc (fr_cors fr) d, cc2))
                    (fresh_body env file_path modified want_zstd want_br raw cc1)))"

definition dyn_reply ::
  "('c, 'h) http_env \<Rightarrow> file_system \<Rightarrow> file_request \<Rightarrow> 'c compression_cache \<Rightarrow>
   ((http_rejection + 'h reply) \<times> 'c compression_cache) option" where
  "dyn_reply env fs fr cc =
     (if fr_host fr \<noteq> fr_domain fr then Some (Inl Not_found, cc)
      else case fs_meta fs (file_path_of fr) of
             None \<Rightarrow> Some (Inr (text_reply env 404 ''Not Found''), cc)
           | Some mtime \<Rightarrow>
               let modified = (case mtime of Some t \<Rightarrow> t | None \<Rightarrow> 0)
               in case he_fmt_date env modified of
                    None \<Rightarrow> None
                  | Some last_modified \<Rightarrow>
                      if not_modified env (fr_ims fr) modified
                      then Some (Inr (not_modified_reply env last_modified (fr_cors fr)), cc)
                      else map_option (\<lambda>(r, cc'). (Inr r, cc'))
                             (serve_file env fs fr modified last_modified cc))"

section \<open>Routes\<close>

text \<open>
  What the routes take from a request: its method, the values of the headers they ask for, and
  the path. \<^verbatim>\<open>warp::header::optional\<close> rejects a value that is no text.
\<close>

definition optional_header :: "'h header_ops \<Rightarrow> 'h \<Rightarrow> string \<Rightarrow> string option option" where
  "optional_header ops h n =
     (case hdr_get_all ops h n of
        [] \<Rightarrow> Some None
      | v # vs \<Rightarrow> map_option Some (hv_to_str ops v))"

definition required_header :: "'h header_ops \<Rightarrow> 'h \<Rightarrow> string \<Rightarrow> string option" where
  "required_header ops h n =
     (case hdr_get_all ops h n of [] \<Rightarrow> None | v # vs \<Rightarrow> hv_to_str ops v)"

text \<open>\<^verbatim>\<open>Vec::swap_remove(0)\<close>: the first element, and the rest with the last one in its place; None is
  the panic on an empty vector.\<close>

definition swap_remove0 :: "'a list \<Rightarrow> ('a \<times> 'a list) option" where
  "swap_remove0 xs =
     (case xs of
        [] \<Rightarrow> None
      | x # rest \<Rightarrow> Some (x, if rest = [] then [] else last rest # butlast rest))"

text \<open>
  The order in which the domains' routes are tried: each later one goes in front of the ones
  built so far (\<^verbatim>\<open>val.or(index)\<close>).
\<close>

definition route_order :: "'a list \<Rightarrow> 'a list option" where
  "route_order domains =
     (case swap_remove0 domains of
        None \<Rightarrow> None
      | Some (d, ds) \<Rightarrow> Some (foldl (\<lambda>index val. val # index) [d] ds))"

definition redirect_route ::
  "('c, 'h) http_env \<Rightarrow> string \<Rightarrow> 'h \<Rightarrow> string \<Rightarrow> string \<Rightarrow> (http_rejection + 'h reply) option" where
  "redirect_route env method headers path domain =
     (if method \<noteq> ''GET'' then Some (Inl No_match)
      else case required_header (he_hdr env) headers ''host'' of
             None \<Rightarrow> Some (Inl No_match)
           | Some host \<Rightarrow> dyn_hreply env host domain path)"

fun try_redirects ::
  "('c, 'h) http_env \<Rightarrow> string \<Rightarrow> 'h \<Rightarrow> string \<Rightarrow> string list \<Rightarrow> (http_rejection + 'h reply) option" where
  "try_redirects env method headers path [] = Some (Inl No_match)"
| "try_redirects env method headers path (d # ds) =
     (case redirect_route env method headers path d of
        None \<Rightarrow> None
      | Some (Inr r) \<Rightarrow> Some (Inr r)
      | Some (Inl e) \<Rightarrow> try_redirects env method headers path ds)"

definition file_route ::
  "('c, 'h) http_env \<Rightarrow> file_system \<Rightarrow> string \<Rightarrow> bool \<Rightarrow> string \<Rightarrow> 'h \<Rightarrow> string \<Rightarrow> string \<Rightarrow> 'c compression_cache \<Rightarrow>
   ((http_rejection + 'h reply) \<times> 'c compression_cache) option" where
  "file_route env fs www_root cors method headers path domain cc =
     (if method \<noteq> ''GET'' then Some (Inl No_match, cc)
      else case (optional_header (he_hdr env) headers ''accept-encoding'',
                 optional_header (he_hdr env) headers ''if-modified-since'',
                 required_header (he_hdr env) headers ''host'') of
             (Some encoding, Some ims, Some host) \<Rightarrow>
               dyn_reply env fs
                 \<lparr>fr_encoding = encoding, fr_ims = ims, fr_host = host, fr_domain = domain,
                  fr_root = www_root, fr_tail = path, fr_cors = cors\<rparr> cc
           | _ \<Rightarrow> Some (Inl No_match, cc))"

fun try_files ::
  "('c, 'h) http_env \<Rightarrow> file_system \<Rightarrow> string \<Rightarrow> bool \<Rightarrow> string \<Rightarrow> 'h \<Rightarrow> string \<Rightarrow> string list \<Rightarrow>
   'c compression_cache \<Rightarrow> ((http_rejection + 'h reply) \<times> 'c compression_cache) option" where
  "try_files env fs www_root cors method headers path [] cc = Some (Inl No_match, cc)"
| "try_files env fs www_root cors method headers path (d # ds) cc =
     (case file_route env fs www_root cors method headers path d cc of
        None \<Rightarrow> None
      | Some (Inr r, cc') \<Rightarrow> Some (Inr r, cc')
      | Some (Inl e, cc') \<Rightarrow> try_files env fs www_root cors method headers path ds cc')"

text \<open>The filters over all domains; None at the outside is the panic on an empty list.\<close>

definition create_http_redirect_routes ::
  "('c, 'h) http_env \<Rightarrow> string list \<Rightarrow>
   (string \<Rightarrow> 'h \<Rightarrow> string \<Rightarrow> (http_rejection + 'h reply) option) option" where
  "create_http_redirect_routes env domains =
     map_option (\<lambda>ds method headers path. try_redirects env method headers path ds) (route_order domains)"

definition create_http_file_routes ::
  "('c, 'h) http_env \<Rightarrow> string list \<Rightarrow> string \<Rightarrow> bool \<Rightarrow>
   (file_system \<Rightarrow> string \<Rightarrow> 'h \<Rightarrow> string \<Rightarrow> 'c compression_cache \<Rightarrow>
     ((http_rejection + 'h reply) \<times> 'c compression_cache) option) option" where
  "create_http_file_routes env domains www_root cors =
     map_option (\<lambda>ds fs method headers path. try_files env fs www_root cors method headers path ds)
       (route_order domains)"

end
