(* ===== verification/Http_Site.thy ===== *)
theory Http_Site
  imports Http_Reply
begin

text \<open>
  What the web server guarantees: the bodies it sends are the files' contents in an encoding the
  client accepts, across any history of requests and of file changes in which a modification time
  determines the contents; when it answers 304; which
  headers its replies carry; which host is served by which routes; and which files a path can
  name.
\<close>

section \<open>What the replies rely on\<close>

text \<open>
  The laws of the parameters: the LRU list and the header map meet their contracts, an encoder
  returns a vector that can be allocated, and printed dates and content types are text.
\<close>

definition http_laws :: "('c, 'h) http_env \<Rightarrow> bool" where
  "http_laws env \<longleftrightarrow>
     lru_cache (he_lru env) \<and> header_map (he_hdr env) \<and>
     (\<forall>z d c. compress env z d = Some c \<longrightarrow> vec_ok c) \<and>
     (\<forall>t s. he_fmt_date env t = Some s \<longrightarrow> list_all value_char s) \<and>
     (\<forall>p. list_all value_char (content_type env p))"

lemma http_lawsD:
  assumes "http_laws env"
  shows "lru_cache (he_lru env)" and "header_map (he_hdr env)"
    and "compress env z d = Some c \<Longrightarrow> vec_ok c"
    and "he_fmt_date env t = Some s \<Longrightarrow> list_all value_char s"
    and "list_all value_char (content_type env p)"
  using assms by (auto simp: http_laws_def)

text \<open>The modification time a request works with.\<close>

definition mtime :: "system_time option \<Rightarrow> system_time" where
  "mtime m = (case m of Some t \<Rightarrow> t | None \<Rightarrow> 0)"

text \<open>
  The file system keeps versions: what a path holds is determined by its modification time. This
  is what a cache keyed by path and time relies on.
\<close>

definition versioned :: "(string \<Rightarrow> system_time \<Rightarrow> bytes) \<Rightarrow> file_system \<Rightarrow> bool" where
  "versioned content fs \<longleftrightarrow>
     (\<forall>p m raw. fs_meta fs p = Some m \<and> fs_read fs p = Contents raw \<longrightarrow> raw = content p (mtime m))"

definition coherent :: "('c, 'h) http_env \<Rightarrow> (string \<Rightarrow> system_time \<Rightarrow> bytes) \<Rightarrow> 'c compression_cache \<Rightarrow> bool" where
  "coherent env content cc \<longleftrightarrow>
     (\<forall>k d. cache_lookup (he_lru env) cc k = Some d \<longrightarrow>
        compress env (ck_compression k) (content (ck_path k) (ck_modified k)) = Some d)"

definition site_inv :: "('c, 'h) http_env \<Rightarrow> (string \<Rightarrow> system_time \<Rightarrow> bytes) \<Rightarrow> 'c compression_cache \<Rightarrow> bool" where
  "site_inv env content cc \<longleftrightarrow> cache_inv (he_lru env) cc \<and> coherent env content cc"

lemma mk_key_sel [simp]:
  "ck_path (mk_key p z t) = p" "ck_compression (mk_key p z t) = z" "ck_modified (mk_key p z t) = t"
  by (simp_all add: mk_key_def)

section \<open>Bodies\<close>

context lru_cache
begin

lemma file_cache_holds:
  "file_cache (cache_get ops) (cache_insert ops) (cache_lookup ops) (cache_inv ops)"
  by (rule fc.file_cache_axioms)

end

lemma http_file_cache:
  "http_laws env \<Longrightarrow>
   file_cache (cache_get (he_lru env)) (cache_insert (he_lru env)) (cache_lookup (he_lru env))
     (cache_inv (he_lru env))"
  by (rule lru_cache.file_cache_holds [OF http_lawsD(1)])

lemma get_coherent:
  assumes "http_laws env" and "site_inv env content cc"
    and "cache_get (he_lru env) p z t cc = (r, cc')"
  shows "site_inv env content cc'" and "r = Some d \<Longrightarrow> compress env z (content p t) = Some d"
proof -
  have g: "r = cache_lookup (he_lru env) cc (mk_key p z t)" "cache_inv (he_lru env) cc'"
    "cache_lookup (he_lru env) cc' = cache_lookup (he_lru env) cc"
    using file_cache.get_look [OF http_file_cache [OF assms(1)] _ assms(3)] assms(2)
    by (simp_all add: site_inv_def)
  then show "site_inv env content cc'"
    using assms(2) by (simp add: site_inv_def coherent_def)
  show "compress env z (content p t) = Some d" if "r = Some d"
    using g(1) that assms(2) unfolding site_inv_def coherent_def
    by (metis mk_key_sel)
qed

lemma insert_coherent:
  assumes "http_laws env" and "site_inv env content cc" and "compress env z (content p t) = Some c"
  obtains cc' where "cache_insert (he_lru env) p z t c cc = Some cc'" "site_inv env content cc'"
proof -
  note fc = http_file_cache [OF assms(1)]
  have v: "vec_ok c" and inv: "cache_inv (he_lru env) cc"
    using http_lawsD(3) [OF assms(1,3)] assms(2) by (simp_all add: site_inv_def)
  obtain cc' where ins: "cache_insert (he_lru env) p z t c cc = Some cc'" and inv': "cache_inv (he_lru env) cc'"
    using file_cache.ins_total [OF fc inv v] by blast
  let ?P = "\<lambda>k d. compress env (ck_compression k) (content (ck_path k) (ck_modified k)) = Some d"
  have "\<forall>k d. cache_lookup (he_lru env) cc' k = Some d \<longrightarrow> ?P k d"
  proof (rule file_cache.ins_all [OF fc inv v ins])
    show "\<forall>k d. cache_lookup (he_lru env) cc k = Some d \<longrightarrow> ?P k d"
      using assms(2) unfolding site_inv_def coherent_def by blast
    show "?P (mk_key p z t) c" using assms(3) by simp
  qed
  then have "site_inv env content cc'" using inv' by (simp add: site_inv_def coherent_def)
  with ins show thesis by (rule that)
qed

lemma cached_body_coherent:
  assumes "http_laws env" and "site_inv env content cc"
    and "cached_body env p t wz wb cc = (r, cc')"
  shows "site_inv env content cc'"
    and "r = Some (d, z) \<Longrightarrow> compress env z (content p t) = Some d \<and> (z = ZSTD \<and> wz \<or> z = BR \<and> wb)"
proof -
  obtain r1 cc1 where g1: "(if wz then cache_get (he_lru env) p ZSTD t cc else (None, cc)) = (r1, cc1)"
    by fastforce
  obtain r2 cc2 where g2: "(if wb then cache_get (he_lru env) p BR t cc1 else (None, cc1)) = (r2, cc2)"
    by fastforce
  have i1: "site_inv env content cc1"
    using get_coherent(1) [OF assms(1,2), of p ZSTD t] g1 assms(2) by (simp split: if_splits)
  then have i2: "site_inv env content cc2"
    using get_coherent(1) [OF assms(1) i1, of p BR t] g2 by (simp split: if_splits)
  have rcc: "(r, cc') = (case r1 of Some d \<Rightarrow> (Some (d, ZSTD), cc1)
      | None \<Rightarrow> (case r2 of Some d \<Rightarrow> (Some (d, BR), cc2) | None \<Rightarrow> (None, cc2)))"
    using assms(3) g1 g2 by (cases r1) (simp_all add: cached_body_def)
  with i1 i2 show "site_inv env content cc'" by (simp split: option.splits)
  show "compress env z (content p t) = Some d \<and> (z = ZSTD \<and> wz \<or> z = BR \<and> wb)" if "r = Some (d, z)"
  proof (cases r1)
    case (Some d')
    with rcc that have "d' = d" "z = ZSTD" by simp_all
    moreover have wz and "cache_get (he_lru env) p ZSTD t cc = (Some d', cc1)"
      using g1 Some by (simp_all split: if_splits)
    ultimately show ?thesis using get_coherent(2) [OF assms(1,2)] by simp
  next
    case None
    with rcc that have "r2 = Some d" "z = BR" by (simp_all split: option.splits)
    moreover from this have wb and "cache_get (he_lru env) p BR t cc1 = (Some d, cc2)"
      using g2 by (simp_all split: if_splits)
    ultimately show ?thesis using get_coherent(2) [OF assms(1) i1] by simp
  qed
qed

lemma fresh_body_coherent:
  assumes "http_laws env" and "site_inv env content cc"
  obtains d enc cc' where "fresh_body env p t wz wb (content p t) cc = Some ((d, enc), cc')"
    "site_inv env content cc'"
    "enc = None \<and> d = content p t \<or>
     (\<exists>z. enc = Some z \<and> compress env z (content p t) = Some d \<and> (z = ZSTD \<and> wz \<or> z = BR \<and> wb))"
proof (cases "if wz then compress env ZSTD (content p t) else None")
  case (Some c)
  then have c: "wz" "compress env ZSTD (content p t) = Some c" by (simp_all split: if_splits)
  obtain cc' where "cache_insert (he_lru env) p ZSTD t c cc = Some cc'" "site_inv env content cc'"
    using insert_coherent [OF assms c(2)] .
  with c show thesis by (intro that [of c "Some ZSTD" cc']) (simp_all add: fresh_body_def)
next
  case None
  note no_zstd = None
  show thesis
  proof (cases "if wb then compress env BR (content p t) else None")
    case (Some c)
    then have c: "wb" "compress env BR (content p t) = Some c" by (simp_all split: if_splits)
    obtain cc' where "cache_insert (he_lru env) p BR t c cc = Some cc'" "site_inv env content cc'"
      using insert_coherent [OF assms c(2)] .
    with c no_zstd show thesis by (intro that [of c "Some BR" cc']) (simp_all add: fresh_body_def)
  next
    case None
    with no_zstd assms(2) show thesis
      by (intro that [of "content p t" None cc]) (simp_all add: fresh_body_def)
  qed
qed

section \<open>Replies\<close>

context header_map
begin

lemma build_response_text:
  assumes "\<forall>(n, v) \<in> set hdrs. list_all value_char v"
  shows "build_response ops status hdrs body =
    Some \<lparr>rp_status = status, rp_headers = foldl (\<lambda>h (n, v). hdr_append ops n v h) (hdr_new ops) hdrs,
          rp_body = body\<rparr>"
  using assms from_str_text by (fastforce simp: build_response_def)

lemma get_with_security:
  "hdr_get_all ops (rp_headers (with_security_headers ops r)) n =
     (if n = ''referrer-policy'' then [''strict-origin-when-cross-origin'']
      else if n = ''x-frame-options'' then [''DENY'']
      else if n = ''x-content-type-options'' then [''nosniff'']
      else if n = ''strict-transport-security'' then [''max-age=31536000; includeSubDomains; preload'']
      else hdr_get_all ops (rp_headers r) n)"
  by (simp add: with_security_headers_def with_header_def get_insert)

lemma get_with_isolation:
  "hdr_get_all ops (rp_headers (with_isolation ops r)) n =
     (if n = ''cross-origin-resource-policy'' then [''same-origin'']
      else if n = ''cross-origin-embedder-policy'' then [''require-corp'']
      else if n = ''cross-origin-opener-policy'' then [''same-origin'']
      else hdr_get_all ops (rp_headers (with_security_headers ops r)) n)"
  by (simp add: with_isolation_def with_header_def get_insert)

end

lemma with_file_headers_fields [simp]:
  "rp_status (with_file_headers ops r cors) = rp_status r"
  "rp_body (with_file_headers ops r cors) = rp_body r"
  by (simp_all add: with_file_headers_def with_isolation_def with_security_headers_def with_header_def)

text \<open>The headers that mark a reply as one of the file server's.\<close>

definition hardened :: "'h header_ops \<Rightarrow> bool \<Rightarrow> 'h reply \<Rightarrow> bool" where
  "hardened ops cors r \<longleftrightarrow>
     (let get = hdr_get_all ops (rp_headers r)
      in get ''strict-transport-security'' = [''max-age=31536000; includeSubDomains; preload''] \<and>
         get ''x-content-type-options'' = [''nosniff''] \<and> get ''x-frame-options'' = [''DENY''] \<and>
         get ''referrer-policy'' = [''strict-origin-when-cross-origin''] \<and>
         (if cors
          then get ''cross-origin-opener-policy'' = [''same-origin''] \<and>
               get ''cross-origin-embedder-policy'' = [''require-corp''] \<and>
               get ''cross-origin-resource-policy'' = [''same-origin'']
          else get ''cross-origin-opener-policy'' = [] \<and> get ''cross-origin-embedder-policy'' = [] \<and>
               get ''cross-origin-resource-policy'' = []))"

text \<open>A reply that does not isolate yet.\<close>

definition unisolated :: "'h header_ops \<Rightarrow> 'h reply \<Rightarrow> bool" where
  "unisolated ops r \<longleftrightarrow>
     (\<forall>n \<in> {''cross-origin-opener-policy'', ''cross-origin-embedder-policy'', ''cross-origin-resource-policy''}.
        hdr_get_all ops (rp_headers r) n = [])"

lemma with_file_headers_hardened:
  assumes "header_map ops" and "unisolated ops r"
  shows "hardened ops cors (with_file_headers ops r cors)"
  using header_map.get_with_security [OF assms(1)] header_map.get_with_isolation [OF assms(1)] assms(2)
  by (simp add: hardened_def unisolated_def with_file_headers_def Let_def)

text \<open>The headers of a file reply before the hardening.\<close>

definition file_headers :: "string \<Rightarrow> string \<Rightarrow> string option \<Rightarrow> bool \<Rightarrow> (string \<times> string) list" where
  "file_headers ctype last_modified enc cors =
     [(''content-type'', ctype), (''last-modified'', last_modified)] @
     (case enc of Some e \<Rightarrow> [(''content-encoding'', e)] | None \<Rightarrow> []) @
     (if cors \<and> str_contains ctype ''json'' then [(''access-control-allow-origin'', ''*'')] else [])"

definition hardening_names :: "string list" where
  "hardening_names =
     [''strict-transport-security'', ''x-content-type-options'', ''x-frame-options'', ''referrer-policy'',
      ''cross-origin-opener-policy'', ''cross-origin-embedder-policy'', ''cross-origin-resource-policy'']"

lemma file_reply_ok:
  assumes "http_laws env" and "list_all value_char ctype" and "list_all value_char lm"
    and "enc \<in> {None, Some ZSTD, Some BR}"
    and r_def: "r = file_reply env ctype lm enc cors body"
  shows "rp_status r = 200" and "rp_body r = body" and "hardened (he_hdr env) cors r"
    and "n \<notin> set hardening_names \<Longrightarrow>
      hdr_get_all (he_hdr env) (rp_headers r) n = values_of n (file_headers ctype lm enc cors)"
proof -
  note hm = http_lawsD(2) [OF assms(1)]
  have "\<forall>(n, v) \<in> set (file_headers ctype lm enc cors). list_all value_char v"
    using assms(2-4) by (auto simp: file_headers_def ZSTD_def BR_def value_char_def split: option.splits)
  from header_map.build_response_text [OF hm this]
  have r: "r = with_file_headers (he_hdr env)
      \<lparr>rp_status = 200, rp_headers = foldl (\<lambda>h (n, v). hdr_append (he_hdr env) n v h)
         (hdr_new (he_hdr env)) (file_headers ctype lm enc cors), rp_body = body\<rparr> cors"
    unfolding r_def file_reply_def file_headers_def Let_def by simp
  moreover have "unisolated (he_hdr env) \<lparr>rp_status = 200, rp_headers = foldl (\<lambda>h (n, v). hdr_append (he_hdr env) n v h)
         (hdr_new (he_hdr env)) (file_headers ctype lm enc cors), rp_body = body\<rparr>"
    by (simp add: unisolated_def header_map.get_append [OF hm] header_map.get_new [OF hm] file_headers_def
        split: option.split)
  ultimately show "rp_status r = 200" "rp_body r = body" "hardened (he_hdr env) cors r"
    by (simp_all add: with_file_headers_hardened [OF hm])
  show "hdr_get_all (he_hdr env) (rp_headers r) n = values_of n (file_headers ctype lm enc cors)"
    if "n \<notin> set hardening_names"
    using that r header_map.get_with_security [OF hm] header_map.get_with_isolation [OF hm]
    by (simp add: with_file_headers_def hardening_names_def header_map.get_append_all [OF hm]
        header_map.get_new [OF hm])
qed

text \<open>A body that stands for a file's contents, as the content encoding says.\<close>

definition stands_for :: "('c, 'h) http_env \<Rightarrow> file_request \<Rightarrow> bytes \<Rightarrow> string option \<Rightarrow> bytes \<Rightarrow> bool" where
  "stands_for env fr raw enc body \<longleftrightarrow>
     (case enc of
        None \<Rightarrow> body = raw
      | Some z \<Rightarrow> z \<in> {ZSTD, BR} \<and> wants (content_type env (file_path_of fr)) (fr_encoding fr) z \<and>
                  compress env z raw = Some body)"

lemma serve_file_cached:
  assumes "cached_body env (file_path_of fr) t (wants (content_type env (file_path_of fr)) (fr_encoding fr) ZSTD)
             (wants (content_type env (file_path_of fr)) (fr_encoding fr) BR) cc = (Some (d, z), cc1)"
  shows "serve_file env fs fr t lm cc =
    Some (file_reply env (content_type env (file_path_of fr)) lm (Some z) (fr_cors fr) d, cc1)"
  using assms by (simp add: serve_file_def Let_def)

lemma serve_file_fresh:
  assumes "cached_body env (file_path_of fr) t (wants (content_type env (file_path_of fr)) (fr_encoding fr) ZSTD)
             (wants (content_type env (file_path_of fr)) (fr_encoding fr) BR) cc = (None, cc1)"
  shows "serve_file env fs fr t lm cc =
    (case fs_read fs (file_path_of fr) of
       Contents raw \<Rightarrow>
         map_option (\<lambda>((d, enc), cc2). (file_reply env (content_type env (file_path_of fr)) lm enc (fr_cors fr) d, cc2))
           (fresh_body env (file_path_of fr) t (wants (content_type env (file_path_of fr)) (fr_encoding fr) ZSTD)
             (wants (content_type env (file_path_of fr)) (fr_encoding fr) BR) raw cc1)
     | _ \<Rightarrow> Some (err500 env, cc1))"
  using assms by (simp add: serve_file_def Let_def split: read_result.split)

text \<open>Serving a file always ends, keeps the cache coherent, and sends the version the metadata
  named, unless the file cannot be read.\<close>

lemma serve_file_coherent:
  assumes "http_laws env" and "site_inv env content cc" and "versioned content fs"
    and "fs_meta fs (file_path_of fr) = Some m"
  obtains r cc' where "serve_file env fs fr (mtime m) lm cc = Some (r, cc')" "site_inv env content cc'"
    "(\<exists>enc body. r = file_reply env (content_type env (file_path_of fr)) lm enc (fr_cors fr) body \<and>
        stands_for env fr (content (file_path_of fr) (mtime m)) enc body) \<or>
     r = err500 env \<and> (\<forall>raw. fs_read fs (file_path_of fr) \<noteq> Contents raw)"
proof -
  let ?p = "file_path_of fr" and ?t = "mtime m"
  let ?c = "content_type env ?p"
  let ?z = "wants ?c (fr_encoding fr) ZSTD" and ?b = "wants ?c (fr_encoding fr) BR"
  obtain hit cc1 where cb: "cached_body env ?p ?t ?z ?b cc = (hit, cc1)" by fastforce
  note inv1 = cached_body_coherent(1) [OF assms(1,2) cb]
  show thesis
  proof (cases hit)
    case (Some dz)
    obtain d z where dz: "dz = (d, z)" by (cases dz)
    have "stands_for env fr (content ?p ?t) (Some z) d"
      using cached_body_coherent(2) [OF assms(1,2) cb, of d z] Some dz by (auto simp: stands_for_def)
    with serve_file_cached [of env fr ?t cc d z cc1 fs lm] cb Some dz inv1 show thesis
      by (intro that [of _ cc1]) auto
  next
    case None
    note sf = serve_file_fresh [OF cb [unfolded None], of fs lm]
    show thesis
    proof (cases "fs_read fs ?p")
      case (Contents raw)
      then have raw: "raw = content ?p ?t" using assms(3,4) by (simp add: versioned_def)
      obtain d enc cc2 where fb: "fresh_body env ?p ?t ?z ?b (content ?p ?t) cc1 = Some ((d, enc), cc2)"
        "site_inv env content cc2"
        "enc = None \<and> d = content ?p ?t \<or>
         (\<exists>z. enc = Some z \<and> compress env z (content ?p ?t) = Some d \<and> (z = ZSTD \<and> ?z \<or> z = BR \<and> ?b))"
        using fresh_body_coherent [OF assms(1) inv1] .
      have "stands_for env fr (content ?p ?t) enc d" using fb(3) by (auto simp: stands_for_def)
      with sf Contents raw fb(1,2) show thesis by (intro that [of _ cc2]) auto
    qed (use sf inv1 in \<open>auto intro: that [of _ cc1]\<close>)
  qed
qed

lemma dyn_reply_unfold:
  assumes "fr_host fr = fr_domain fr" and "fs_meta fs (file_path_of fr) = Some m"
    and "he_fmt_date env (mtime m) = Some lm"
  shows "dyn_reply env fs fr cc =
    (if not_modified env (fr_ims fr) (mtime m)
     then Some (Inr (not_modified_reply env lm (fr_cors fr)), cc)
     else map_option (\<lambda>(r, cc'). (Inr r, cc')) (serve_file env fs fr (mtime m) lm cc))"
  using assms by (simp add: dyn_reply_def mtime_def Let_def)

text \<open>Requests served one after the other, each with the file system of its time.\<close>

fun site_run ::
  "('c, 'h) http_env \<Rightarrow> (file_system \<times> file_request) list \<Rightarrow> 'c compression_cache \<Rightarrow> 'c compression_cache option" where
  "site_run env [] cc = Some cc"
| "site_run env ((fs, fr) # reqs) cc =
     (case dyn_reply env fs fr cc of
        None \<Rightarrow> None
      | Some (r, cc') \<Rightarrow> site_run env reqs cc')"

lemma dyn_reply_inv:
  assumes "http_laws env" and "site_inv env content cc" and "versioned content fs"
    and "dyn_reply env fs fr cc = Some (r, cc')"
  shows "site_inv env content cc'"
proof (cases "fr_host fr \<noteq> fr_domain fr \<or> fs_meta fs (file_path_of fr) = None")
  case True
  with assms(2,4) show ?thesis by (auto simp: dyn_reply_def split: if_splits)
next
  case False
  then obtain m where m: "fr_host fr = fr_domain fr" "fs_meta fs (file_path_of fr) = Some m" by auto
  show ?thesis
  proof (cases "he_fmt_date env (mtime m)")
    case None
    with m assms(4) show ?thesis by (simp add: dyn_reply_def mtime_def Let_def)
  next
    case (Some lm)
    note du = dyn_reply_unfold [OF m Some, of cc]
    obtain r' cc'' where "serve_file env fs fr (mtime m) lm cc = Some (r', cc'')" "site_inv env content cc''"
      using serve_file_coherent [OF assms(1,2,3) m(2), of lm] by metis
    with du assms(2,4) show ?thesis by (auto split: if_splits)
  qed
qed

lemma site_run_inv:
  assumes "http_laws env" and "site_inv env content cc" and "\<forall>(fs, fr) \<in> set reqs. versioned content fs"
    and "site_run env reqs cc = Some cc'"
  shows "site_inv env content cc'"
  using assms(2-4)
proof (induction reqs arbitrary: cc)
  case (Cons q reqs)
  obtain fs fr where q: "q = (fs, fr)" by (cases q)
  from Cons.prems(3) obtain r cc1 where r: "dyn_reply env fs fr cc = Some (r, cc1)"
    and rest: "site_run env reqs cc1 = Some cc'"
    by (auto simp: q split: option.splits)
  have "versioned content fs" and vs: "\<forall>(fs, fr) \<in> set reqs. versioned content fs"
    using Cons.prems(2) by (simp_all add: q)
  then have "site_inv env content cc1" using dyn_reply_inv [OF assms(1) Cons.prems(1) _ r] by simp
  then show ?case using vs rest by (rule Cons.IH)
qed simp

lemma new_cache_empty:
  assumes "http_laws env"
  shows "cache_lookup (he_lru env) (cache_new (he_lru env) mb) k = None"
proof -
  have "max (mb * 4) 100 \<noteq> (0 :: usize)"
    by (auto simp: max_def word_le_nat_alt)
  then have "cache_items (he_lru env) (cache_new (he_lru env) mb) = []"
    using lru_cache.new_law [OF http_lawsD(1) [OF assms], of "max (mb * 4) 100"]
    by (simp add: cache_items_def cache_new_def Let_def)
  then show ?thesis by (simp add: cache_lookup_def)
qed

lemma site_inv_new:
  assumes "http_laws env" and "mb_ok mb"
  shows "site_inv env content (cache_new (he_lru env) mb)"
  using lru_cache.inv_new [OF http_lawsD(1) [OF assms(1)] assms(2)] new_cache_empty [OF assms(1)]
  by (simp add: site_inv_def coherent_def)

section \<open>The contents of the replies\<close>

text \<open>The content encoding a reply declares.\<close>

definition declares :: "'h header_ops \<Rightarrow> 'h reply \<Rightarrow> string option \<Rightarrow> bool" where
  "declares ops r enc \<longleftrightarrow>
     hdr_get_all ops (rp_headers r) ''content-encoding'' = (case enc of None \<Rightarrow> [] | Some z \<Rightarrow> [z])"

lemma file_reply_declares:
  assumes "http_laws env" and "list_all value_char ctype" and "list_all value_char lm"
    and "enc \<in> {None, Some ZSTD, Some BR}"
  shows "declares (he_hdr env) (file_reply env ctype lm enc cors body) enc"
  using file_reply_ok(4) [OF assms refl, of "''content-encoding''"]
  by (simp add: declares_def hardening_names_def file_headers_def split: option.split)

text \<open>After any history of requests, on a file system whose files change, a request for a
  readable file gets a reply with status 200 whose body is the file's current contents, or their
  compression in the encoding the reply declares, one that the client accepts and the content
  type calls for. The cache never serves an outdated or foreign body, and the request always
  ends.\<close>

theorem site_serves_content:
  assumes "http_laws env" and "mb_ok mb"
    and "\<forall>(fs, fr) \<in> set reqs. versioned content fs"
    and "site_run env reqs (cache_new (he_lru env) mb) = Some cc"
    and "versioned content fs" and "fr_host fr = fr_domain fr"
    and "fs_meta fs (file_path_of fr) = Some m" and "he_fmt_date env (mtime m) = Some lm"
    and "\<not> not_modified env (fr_ims fr) (mtime m)"
    and "fs_read fs (file_path_of fr) = Contents raw"
  shows "\<exists>r cc' enc. dyn_reply env fs fr cc = Some (Inr r, cc') \<and> rp_status r = 200 \<and>
    declares (he_hdr env) r enc \<and> stands_for env fr raw enc (rp_body r)"
proof -
  let ?p = "file_path_of fr"
  have inv: "site_inv env content cc"
    using site_run_inv [OF assms(1) site_inv_new [OF assms(1,2)] assms(3,4)] .
  have raw: "content ?p (mtime m) = raw" using assms(5,7,10) by (simp add: versioned_def)
  obtain r cc' where sf: "serve_file env fs fr (mtime m) lm cc = Some (r, cc')"
    and "(\<exists>enc body. r = file_reply env (content_type env ?p) lm enc (fr_cors fr) body \<and>
        stands_for env fr (content ?p (mtime m)) enc body) \<or>
     r = err500 env \<and> (\<forall>raw. fs_read fs ?p \<noteq> Contents raw)"
    using serve_file_coherent [OF assms(1) inv assms(5,7), of lm] .
  then obtain enc body where r: "r = file_reply env (content_type env ?p) lm enc (fr_cors fr) body"
    and sd: "stands_for env fr raw enc body"
    using assms(10) raw by auto
  have enc: "enc \<in> {None, Some ZSTD, Some BR}" using sd by (auto simp: stands_for_def split: option.splits)
  note tx = http_lawsD(5) [OF assms(1), of ?p] http_lawsD(4) [OF assms(1,8)]
  have "dyn_reply env fs fr cc = Some (Inr r, cc')"
    using dyn_reply_unfold [OF assms(6,7,8), of cc] assms(9) sf by simp
  moreover have "rp_status r = 200" "rp_body r = body"
    using file_reply_ok(1,2) [OF assms(1) tx enc r] by simp_all
  moreover have "declares (he_hdr env) r enc"
    unfolding r by (rule file_reply_declares [OF assms(1) tx enc])
  ultimately show ?thesis using sd by blast
qed

text \<open>A sample site: one page in two versions, a sample encoder for short bodies.\<close>

definition demo_http :: "(nat \<times> lru_items, (string \<times> string) list) http_env" where
  "demo_http =
     \<lparr>he_lru = list_lru, he_hdr = list_headers,
      he_mime = (\<lambda>e. if e = ''html'' then Some (''text'', ''html'') else None),
      he_png = (''image'', ''png''), he_jpeg = (''image'', ''jpeg''), he_ico = (''image'', ''x-icon''),
      he_any = (''*'', ''*''),
      he_fmt_date = (\<lambda>t. if 0 \<le> t then Some ''date'' else None),
      he_parse_date = (\<lambda>s. if s = ''date'' then Some 5000000000 else None),
      he_zstd = (\<lambda>d. if length d < 100 then Some (rev d) else None), he_brotli = (\<lambda>d. None),
      he_text = [(''content-type'', ''text/plain; charset=utf-8'')], he_uri = (\<lambda>u. True)\<rparr>"

definition demo_path :: string where "demo_path = ''/www/mles.io/index.html''"

definition demo_content :: "string \<Rightarrow> system_time \<Rightarrow> bytes" where
  "demo_content p t = [1, 2, if t = 7000000000 then 7 else 8]"

definition demo_fs :: "system_time \<Rightarrow> file_system" where
  "demo_fs t =
     \<lparr>fs_meta = (\<lambda>p. if p = demo_path then Some (Some t) else None),
      fs_open = (\<lambda>p. if p = demo_path then Some 0 else None),
      fs_contents = (\<lambda>h. Some (demo_content demo_path t))\<rparr>"

definition demo_fr :: file_request where
  "demo_fr =
     \<lparr>fr_encoding = Some ''gzip, zstd'', fr_ims = Some ''date'', fr_host = ''mles.io'',
      fr_domain = ''mles.io'', fr_root = ''/www'', fr_tail = [], fr_cors = False\<rparr>"

lemma demo_http_laws: "http_laws demo_http"
proof -
  have "vec_ok c" if "compress demo_http z d = Some c" for z d c
    using that by (auto simp: compress_def demo_http_def vec_ok_def split: if_splits)
  moreover have "list_all value_char (content_type demo_http p)" for p
    by (simp add: content_type_def demo_http_def mime_text_def value_char_def Let_def)
  ultimately show ?thesis
    unfolding http_laws_def using ll.lru_cache_axioms lh.header_map_axioms
    by (simp add: demo_http_def value_char_def)
qed

lemma demo_fs_versioned: "versioned demo_content (demo_fs t)"
  by (auto simp: versioned_def demo_fs_def fs_read_def mtime_def split: if_splits)

lemma demo_file_path: "file_path_of demo_fr = demo_path"
  by code_simp

lemma demo_meta:
  "fs_meta (demo_fs t) (file_path_of demo_fr) = Some (Some t)"
  "fs_read (demo_fs t) (file_path_of demo_fr) = Contents (demo_content demo_path t)"
  by (simp_all add: demo_file_path demo_fs_def fs_read_def)

lemma demo_run: "site_run demo_http [(demo_fs 7000000000, demo_fr)] (cache_new list_lru 1) \<noteq> None"
proof -
  have inv: "site_inv demo_http demo_content (cache_new list_lru 1)"
    using site_inv_new [OF demo_http_laws mb_ok_1] by (simp add: demo_http_def)
  obtain r cc' where "serve_file demo_http (demo_fs 7000000000) demo_fr (mtime (Some 7000000000)) ''date''
      (cache_new list_lru 1) = Some (r, cc')"
    using serve_file_coherent [OF demo_http_laws inv demo_fs_versioned demo_meta(1)] by metis
  then show ?thesis
    using dyn_reply_unfold [of demo_fr "demo_fs 7000000000" "Some 7000000000" demo_http "''date''"]
    by (simp add: demo_meta) (simp add: demo_fr_def demo_http_def mtime_def)
qed

theorem site_serves_content_witness:
  "\<exists>cc r cc' enc. site_run demo_http [(demo_fs 7000000000, demo_fr)] (cache_new list_lru 1) = Some cc \<and>
     dyn_reply demo_http (demo_fs 8000000000) demo_fr cc = Some (Inr r, cc') \<and>
     stands_for demo_http demo_fr [1, 2, 8] enc (rp_body r)"
proof -
  obtain cc where run: "site_run demo_http [(demo_fs 7000000000, demo_fr)] (cache_new list_lru 1) = Some cc"
    using demo_run by blast
  have lru: "he_lru demo_http = list_lru" and date: "he_fmt_date demo_http (mtime (Some 8000000000)) = Some ''date''"
    and host: "fr_host demo_fr = fr_domain demo_fr"
    by (simp_all add: demo_http_def mtime_def demo_fr_def)
  have vs: "\<forall>(fs, fr) \<in> set [(demo_fs 7000000000, demo_fr)]. versioned demo_content fs"
    by (simp add: demo_fs_versioned)
  have "\<not> not_modified demo_http (fr_ims demo_fr) (mtime (Some 8000000000))" by code_simp
  from site_serves_content [OF demo_http_laws mb_ok_1 vs _ demo_fs_versioned host demo_meta(1) date this demo_meta(2)]
  show ?thesis using run lru by (fastforce simp: demo_content_def simp del: site_run.simps)
qed

section \<open>Status and headers of the replies\<close>

lemma cached_body_encoding: "cached_body env p t wz wb cc = (Some (d, z), cc') \<Longrightarrow> z \<in> {ZSTD, BR}"
  by (auto simp: cached_body_def split: prod.splits option.splits if_splits)

lemma fresh_body_encoding:
  "fresh_body env p t wz wb raw cc = Some ((d, enc), cc') \<Longrightarrow> enc \<in> {None, Some ZSTD, Some BR}"
  by (auto simp: fresh_body_def split: option.splits if_splits)

lemma serve_file_form:
  assumes "serve_file env fs fr t lm cc = Some (r, cc')"
  obtains (failed) "r = err500 env"
    | (served) enc body where "enc \<in> {None, Some ZSTD, Some BR}"
        "r = file_reply env (content_type env (file_path_of fr)) lm enc (fr_cors fr) body"
proof -
  let ?c = "content_type env (file_path_of fr)"
  obtain hit cc1 where cb: "cached_body env (file_path_of fr) t (wants ?c (fr_encoding fr) ZSTD)
      (wants ?c (fr_encoding fr) BR) cc = (hit, cc1)" by fastforce
  show thesis
  proof (cases hit)
    case (Some dz)
    obtain d z where dz: "dz = (d, z)" by (cases dz)
    with cached_body_encoding cb Some have "z \<in> {ZSTD, BR}" by blast
    moreover have "r = file_reply env ?c lm (Some z) (fr_cors fr) d"
      using serve_file_cached [OF cb [unfolded Some dz], of fs lm] assms by simp
    ultimately show thesis by (intro served [of "Some z" d]) auto
  next
    case None
    note sf = serve_file_fresh [OF cb [unfolded None], of fs lm]
    show thesis
    proof (cases "fs_read fs (file_path_of fr)")
      case (Contents raw)
      with sf assms obtain d enc where "fresh_body env (file_path_of fr) t (wants ?c (fr_encoding fr) ZSTD)
          (wants ?c (fr_encoding fr) BR) raw cc1 = Some ((d, enc), cc')"
        "r = file_reply env ?c lm enc (fr_cors fr) d"
        by (auto simp: map_option_case split: option.splits prod.splits)
      then show thesis by (rule_tac served [of enc d]) (rule fresh_body_encoding)
    qed (use sf assms failed in auto)
  qed
qed

lemma err500_status [simp]: "rp_status (err500 env) = 500" "rp_headers (err500 env) = he_text env"
  by (simp_all add: err500_def text_reply_def)

lemma not_modified_reply_ok:
  assumes "http_laws env" and "list_all value_char lm"
  shows "rp_status (not_modified_reply env lm cors) = 304" and "rp_body (not_modified_reply env lm cors) = []"
    and "hardened (he_hdr env) cors (not_modified_reply env lm cors)"
    and "hdr_get_all (he_hdr env) (rp_headers (not_modified_reply env lm cors)) ''access-control-allow-origin'' = []"
proof -
  note hm = http_lawsD(2) [OF assms(1)]
  have r: "not_modified_reply env lm cors = with_file_headers (he_hdr env)
    \<lparr>rp_status = 304, rp_headers = foldl (\<lambda>h (n, v). hdr_append (he_hdr env) n v h)
       (hdr_new (he_hdr env)) [(''last-modified'', lm)], rp_body = []\<rparr> cors"
    using header_map.build_response_text [OF hm, of "[(''last-modified'', lm)]" 304 "[]"] assms(2)
    by (simp add: not_modified_reply_def)
  moreover have "unisolated (he_hdr env) \<lparr>rp_status = 304, rp_headers = foldl (\<lambda>h (n, v). hdr_append (he_hdr env) n v h)
       (hdr_new (he_hdr env)) [(''last-modified'', lm)], rp_body = []\<rparr>"
    by (simp add: unisolated_def header_map.get_append [OF hm] header_map.get_new [OF hm])
  ultimately show "rp_status (not_modified_reply env lm cors) = 304" "rp_body (not_modified_reply env lm cors) = []"
    "hardened (he_hdr env) cors (not_modified_reply env lm cors)"
    by (simp_all add: with_file_headers_hardened [OF hm])
  show "hdr_get_all (he_hdr env) (rp_headers (not_modified_reply env lm cors)) ''access-control-allow-origin'' = []"
    unfolding r with_file_headers_def
    using header_map.get_with_security [OF hm] header_map.get_with_isolation [OF hm]
    by (simp add: header_map.get_append [OF hm] header_map.get_new [OF hm])
qed

lemma dyn_reply_cases:
  assumes "dyn_reply env fs fr cc = Some (Inr r, cc')"
  obtains (missing) "fr_host fr = fr_domain fr" "fs_meta fs (file_path_of fr) = None"
      "r = text_reply env 404 ''Not Found''"
    | (current) m lm where "fr_host fr = fr_domain fr" "fs_meta fs (file_path_of fr) = Some m"
      "he_fmt_date env (mtime m) = Some lm" "not_modified env (fr_ims fr) (mtime m)"
      "r = not_modified_reply env lm (fr_cors fr)" "cc' = cc"
    | (sent) m lm where "fr_host fr = fr_domain fr" "fs_meta fs (file_path_of fr) = Some m"
      "he_fmt_date env (mtime m) = Some lm" "\<not> not_modified env (fr_ims fr) (mtime m)"
      "serve_file env fs fr (mtime m) lm cc = Some (r, cc')"
proof -
  have host: "fr_host fr = fr_domain fr" using assms by (simp add: dyn_reply_def split: if_splits)
  show thesis
  proof (cases "fs_meta fs (file_path_of fr)")
    case None
    with host assms show thesis by (intro missing) (simp_all add: dyn_reply_def)
  next
    case (Some m)
    show thesis
    proof (cases "he_fmt_date env (mtime m)")
      case None
      with host Some assms show thesis by (simp add: dyn_reply_def mtime_def Let_def)
    next
      case (Some lm)
      note du = dyn_reply_unfold [OF host \<open>fs_meta fs (file_path_of fr) = Some m\<close> Some, of cc]
      with assms host Some \<open>fs_meta fs (file_path_of fr) = Some m\<close> show thesis
        by (cases "not_modified env (fr_ims fr) (mtime m)") (auto intro: current sent)
    qed
  qed
qed

text \<open>A request is answered 304 exactly when the file exists and the client names a date that
  parses and whose second is not before the second of the last modification. The answer then has
  no body, and neither the cache nor the file is touched.\<close>

theorem not_modified_iff:
  assumes "http_laws env" and "dyn_reply env fs fr cc = Some (Inr r, cc')"
  shows "(rp_status r = 304 \<longleftrightarrow>
     (\<exists>m date since. fs_meta fs (file_path_of fr) = Some m \<and> fr_ims fr = Some date \<and>
        he_parse_date env date = Some since \<and> secs (mtime m) \<le> secs since)) \<and>
     (rp_status r = 304 \<longrightarrow> rp_body r = [] \<and> cc' = cc)"
  using assms(2)
proof (cases rule: dyn_reply_cases)
  case missing
  then show ?thesis by (simp add: text_reply_def)
next
  case (current m lm)
  then have "\<exists>date since. fr_ims fr = Some date \<and> he_parse_date env date = Some since \<and> secs (mtime m) \<le> secs since"
    by (auto simp: not_modified_def split: option.splits)
  moreover have "rp_status r = 304" "rp_body r = []"
    using not_modified_reply_ok [OF assms(1) http_lawsD(4) [OF assms(1) current(3)]] current by simp_all
  ultimately show ?thesis using current by auto
next
  case (sent m lm)
  note tx = http_lawsD(5) [OF assms(1), of "file_path_of fr"] http_lawsD(4) [OF assms(1) sent(3)]
  have "rp_status r \<noteq> 304"
    using sent(5)
  proof (cases rule: serve_file_form)
    case (served enc body)
    with file_reply_ok(1) [OF assms(1) tx served] show ?thesis by simp
  qed simp
  moreover have "\<not> (\<exists>date since. fr_ims fr = Some date \<and> he_parse_date env date = Some since \<and>
      secs (mtime m) \<le> secs since)"
    using sent(4) by (auto simp: not_modified_def)
  ultimately show ?thesis using sent(2) by auto
qed

theorem not_modified_iff_witness:
  "\<exists>r. dyn_reply demo_http (demo_fs 5999999999) demo_fr (cache_new list_lru 1) =
     Some (Inr r, cache_new list_lru 1) \<and> rp_status r = 304 \<and> rp_body r = []"
proof -
  have nm: "not_modified demo_http (fr_ims demo_fr) (mtime (Some 5999999999))" by code_simp
  let ?r = "not_modified_reply demo_http ''date'' False"
  have d: "dyn_reply demo_http (demo_fs 5999999999) demo_fr (cache_new list_lru 1) =
     Some (Inr ?r, cache_new list_lru 1)"
    using dyn_reply_unfold [of demo_fr "demo_fs 5999999999" "Some 5999999999" demo_http "''date''"] nm
    by (simp add: demo_meta) (simp add: demo_fr_def demo_http_def mtime_def)
  have "fr_ims demo_fr = Some ''date''" "he_parse_date demo_http ''date'' = Some 5000000000"
    "secs (mtime (Some 5999999999)) \<le> secs 5000000000"
    by code_simp+
  with demo_meta(1) [of 5999999999] have "\<exists>m date since. fs_meta (demo_fs 5999999999) (file_path_of demo_fr) = Some m \<and>
      fr_ims demo_fr = Some date \<and> he_parse_date demo_http date = Some since \<and> secs (mtime m) \<le> secs since"
    by blast
  with not_modified_iff [OF demo_http_laws d] d show ?thesis by blast
qed

text \<open>The headers of a text reply of warp are its content type.\<close>

definition text_headers :: "('c, 'h) http_env \<Rightarrow> bool" where
  "text_headers env \<longleftrightarrow> (\<forall>n. n \<noteq> ''content-type'' \<longrightarrow> hdr_get_all (he_hdr env) (he_text env) n = [])"

lemma text_headers_plain:
  "text_headers env \<Longrightarrow> n \<in> set hardening_names \<Longrightarrow> hdr_get_all (he_hdr env) (he_text env) n = []"
  by (auto simp: text_headers_def hardening_names_def)

text \<open>C34: every reply that sends a file or says that it has not changed carries the four security
  headers once, and the three isolation headers exactly when they are configured: otherwise they are
  absent. A wildcard \<^verbatim>\<open>Access-Control-Allow-Origin\<close> is sent only with JSON and only when configured.
  The other replies are 404 and 500 texts, in which all seven of these headers are absent, given that
  warp adds none of them to a text.\<close>

theorem reply_headers_hardened:
  assumes "http_laws env" and "text_headers env" and "dyn_reply env fs fr cc = Some (Inr r, cc')"
  shows "rp_status r \<in> {200, 304} \<and> hardened (he_hdr env) (fr_cors fr) r \<and>
      hdr_get_all (he_hdr env) (rp_headers r) ''access-control-allow-origin'' =
        (if rp_status r = 200 \<and> fr_cors fr \<and> str_contains (content_type env (file_path_of fr)) ''json''
         then [''*''] else []) \<or>
    rp_status r \<in> {404, 500} \<and> (\<forall>n \<in> set hardening_names. hdr_get_all (he_hdr env) (rp_headers r) n = [])"
  using assms(3)
proof (cases rule: dyn_reply_cases)
  case missing
  then show ?thesis using text_headers_plain [OF assms(2)] by (simp add: text_reply_def)
next
  case (current m lm)
  then show ?thesis
    using not_modified_reply_ok [OF assms(1) http_lawsD(4) [OF assms(1) current(3)]] by simp
next
  case (sent m lm)
  note tx = http_lawsD(5) [OF assms(1), of "file_path_of fr"] http_lawsD(4) [OF assms(1) sent(3)]
  from sent(5) show ?thesis
  proof (cases rule: serve_file_form)
    case failed
    then show ?thesis using text_headers_plain [OF assms(2)] by simp
  next
    case (served enc body)
    note ok = file_reply_ok [OF assms(1) tx served]
    have "values_of ''access-control-allow-origin''
        (file_headers (content_type env (file_path_of fr)) lm enc (fr_cors fr)) =
      (if fr_cors fr \<and> str_contains (content_type env (file_path_of fr)) ''json'' then [''*''] else [])"
      by (simp add: file_headers_def split: option.split)
    with ok(1,3) ok(4) [of "''access-control-allow-origin''"] show ?thesis
      by (simp add: hardening_names_def)
  qed
qed

theorem reply_headers_hardened_witness:
  "\<exists>r. dyn_reply demo_http (demo_fs 5999999999) (demo_fr\<lparr>fr_tail := ''nothing''\<rparr>) (cache_new list_lru 1) =
     Some (Inr r, cache_new list_lru 1) \<and> rp_status r = 404 \<and>
     hdr_get_all list_headers (rp_headers r) ''strict-transport-security'' = []"
proof -
  let ?fr = "demo_fr\<lparr>fr_tail := ''nothing''\<rparr>"
  let ?r = "text_reply demo_http 404 ''Not Found''"
  have "file_path_of ?fr = ''/www/mles.io/nothing''" by code_simp
  then have "fs_meta (demo_fs 5999999999) (file_path_of ?fr) = None"
    by (simp add: demo_fs_def demo_path_def)
  then have d: "dyn_reply demo_http (demo_fs 5999999999) ?fr (cache_new list_lru 1) =
      Some (Inr ?r, cache_new list_lru 1)"
    by (simp add: dyn_reply_def) (simp add: demo_fr_def)
  have hd: "he_hdr demo_http = list_headers" by (simp add: demo_http_def)
  have tx: "text_headers demo_http" by (simp add: text_headers_def demo_http_def list_headers_def)
  have "rp_status ?r = 404" by (simp add: text_reply_def)
  then have "\<forall>n \<in> set hardening_names. hdr_get_all list_headers (rp_headers ?r) n = []"
    using reply_headers_hardened [OF demo_http_laws tx d] unfolding hd by auto
  with d \<open>rp_status ?r = 404\<close> show ?thesis by (auto simp: hardening_names_def)
qed

section \<open>Hosts\<close>

lemma route_order_Nil [simp]: "route_order [] = None"
  by (simp add: route_order_def swap_remove0_def)

lemma foldl_rev: "foldl (\<lambda>index val. val # index) acc xs = rev xs @ acc"
  by (induction xs arbitrary: acc) simp_all

lemma route_order_domains:
  assumes "domains \<noteq> []"
  obtains ds where "route_order domains = Some ds" "set ds = set domains"
proof -
  obtain d rest where d: "domains = d # rest" using assms by (cases domains) auto
  have "set (last rest # butlast rest) = set rest" if "rest \<noteq> []"
    using append_butlast_last_id [OF that] by (metis list.simps(15) rotate1.simps(2) set_rotate1)
  then show thesis
    by (intro that [of "rev (if rest = [] then [] else last rest # butlast rest) @ [d]"])
       (auto simp: d route_order_def swap_remove0_def foldl_rev)
qed

lemma dyn_reply_other_host: "fr_host fr \<noteq> fr_domain fr \<Longrightarrow> dyn_reply env fs fr cc = Some (Inl Not_found, cc)"
  by (simp add: dyn_reply_def)

lemma dyn_reply_same_host: "fr_host fr = fr_domain fr \<Longrightarrow> dyn_reply env fs fr cc \<noteq> Some (Inl e, cc')"
  by (auto simp: dyn_reply_def Let_def split: option.splits)

text \<open>What the file routes read from a request, if they can: accept-encoding, if-modified-since, host.\<close>

definition site_args ::
  "'h header_ops \<Rightarrow> string \<Rightarrow> 'h \<Rightarrow> (string option \<times> string option \<times> string) option" where
  "site_args ops method headers =
     (if method \<noteq> ''GET'' then None
      else case (optional_header ops headers ''accept-encoding'',
                 optional_header ops headers ''if-modified-since'',
                 required_header ops headers ''host'') of
             (Some e, Some i, Some h) \<Rightarrow> Some (e, i, h)
           | _ \<Rightarrow> None)"

lemma file_route_args:
  "file_route env fs root cors method headers path d cc =
   (case site_args (he_hdr env) method headers of
      None \<Rightarrow> Some (Inl No_match, cc)
    | Some (e, i, h) \<Rightarrow>
        dyn_reply env fs \<lparr>fr_encoding = e, fr_ims = i, fr_host = h, fr_domain = d, fr_root = root,
                          fr_tail = path, fr_cors = cors\<rparr> cc)"
  by (auto simp: file_route_def site_args_def split: option.splits)

lemma try_files_none:
  "site_args (he_hdr env) method headers = None \<Longrightarrow>
   try_files env fs root cors method headers path ds cc = Some (Inl No_match, cc)"
  by (induction ds) (simp_all add: file_route_args)

lemma try_files_host:
  assumes "site_args (he_hdr env) method headers = Some (e, i, h)"
  shows "try_files env fs root cors method headers path ds cc =
    (if h \<in> set ds
     then dyn_reply env fs \<lparr>fr_encoding = e, fr_ims = i, fr_host = h, fr_domain = h, fr_root = root,
                            fr_tail = path, fr_cors = cors\<rparr> cc
     else Some (Inl No_match, cc))"
proof (induction ds)
  case (Cons d ds)
  show ?case
  proof (cases "h = d")
    case True
    let ?fr = "\<lparr>fr_encoding = e, fr_ims = i, fr_host = d, fr_domain = d, fr_root = root,
                fr_tail = path, fr_cors = cors\<rparr>"
    have "dyn_reply env fs ?fr cc \<noteq> Some (Inl x, cc')" for x cc'
      by (rule dyn_reply_same_host) simp
    with True assms show ?thesis by (auto simp: file_route_args split: option.splits sum.splits)
  next
    case False
    with assms Cons.IH show ?thesis by (simp add: file_route_args dyn_reply_other_host)
  qed
qed simp

text \<open>C35: the routes built from a list of domains, in whatever order \<^verbatim>\<open>swap_remove\<close> leaves them, act
  as one lookup: a GET request with readable headers whose Host is exactly one of the domains is
  served from that domain's directory; every other request, also one whose Host carries a port,
  is rejected and leaves the cache alone. Without domains the server panics at start.\<close>

theorem file_routes_by_host:
  assumes "domains \<noteq> []"
  shows "create_http_file_routes env [] root cors = None \<and>
    (\<exists>f. create_http_file_routes env domains root cors = Some f \<and>
      (\<forall>fs method headers path cc.
         case site_args (he_hdr env) method headers of
           Some (e, i, h) \<Rightarrow>
             if h \<in> set domains
             then f fs method headers path cc =
                  dyn_reply env fs \<lparr>fr_encoding = e, fr_ims = i, fr_host = h, fr_domain = h,
                    fr_root = root, fr_tail = path, fr_cors = cors\<rparr> cc
             else (\<exists>e. f fs method headers path cc = Some (Inl e, cc))
         | None \<Rightarrow> (\<exists>e. f fs method headers path cc = Some (Inl e, cc))))"
proof -
  obtain ds where ds: "route_order domains = Some ds" "set ds = set domains"
    using route_order_domains [OF assms] .
  let ?f = "\<lambda>fs method headers path. try_files env fs root cors method headers path ds"
  have "create_http_file_routes env domains root cors = Some ?f"
    by (simp add: create_http_file_routes_def ds)
  moreover have "case site_args (he_hdr env) m headers of
           Some (e, i, h) \<Rightarrow>
             if h \<in> set domains
             then ?f fs m headers path cc =
                  dyn_reply env fs \<lparr>fr_encoding = e, fr_ims = i, fr_host = h, fr_domain = h,
                    fr_root = root, fr_tail = path, fr_cors = cors\<rparr> cc
             else (\<exists>e. ?f fs m headers path cc = Some (Inl e, cc))
         | None \<Rightarrow> (\<exists>e. ?f fs m headers path cc = Some (Inl e, cc))" for fs m headers path cc
    using ds(2) by (auto simp: try_files_none try_files_host split: option.split)
  moreover have "create_http_file_routes env [] root cors = None"
    by (simp add: create_http_file_routes_def)
  ultimately show ?thesis by blast
qed

theorem file_routes_by_host_witness:
  "\<exists>f e. create_http_file_routes demo_http [''a.io'', ''mles.io'', ''b.io''] ''/www'' False = Some f \<and>
     f (demo_fs 1) ''GET'' [(''host'', ''mles.io:8443'')] [] (cache_new list_lru 1) =
     Some (Inl e, cache_new list_lru 1)"
proof -
  have "site_args (he_hdr demo_http) ''GET'' [(''host'', ''mles.io:8443'')] = Some (None, None, ''mles.io:8443'')"
    by code_simp
  with file_routes_by_host [of "[''a.io'', ''mles.io'', ''b.io'']" demo_http "''/www''" False] show ?thesis
    by (fastforce split: option.splits)
qed

lemma redirect_route_host:
  "required_header (he_hdr env) headers ''host'' = Some h \<Longrightarrow>
   redirect_route env ''GET'' headers path d = dyn_hreply env h d path"
  by (simp add: redirect_route_def)

lemma try_redirects_host:
  assumes "required_header (he_hdr env) headers ''host'' = Some h"
    and "he_uri env (''https://'' @ h @ ''/'' @ path)"
  shows "try_redirects env ''GET'' headers path ds =
    (if h \<in> set ds then Some (Inr (redirect_reply env (''https://'' @ h @ ''/'' @ path)))
     else Some (Inl No_match))"
  by (induction ds) (use assms in \<open>auto simp: redirect_route_host dyn_hreply_def\<close>)

text \<open>On port 80 a GET request whose Host is one of the domains is redirected, for good, to the
  same path under HTTPS; a request for any other host is rejected.\<close>

theorem redirect_by_host:
  assumes "domains \<noteq> []" and "required_header (he_hdr env) headers ''host'' = Some h"
    and "he_uri env (''https://'' @ h @ ''/'' @ path)" and "header_map (he_hdr env)"
  shows "\<exists>f. create_http_redirect_routes env domains = Some f \<and>
    (if h \<in> set domains
     then \<exists>r. f ''GET'' headers path = Some (Inr r) \<and> rp_status r = 301 \<and>
            hdr_get_all (he_hdr env) (rp_headers r) ''location'' = [''https://'' @ h @ ''/'' @ path]
     else \<exists>e. f ''GET'' headers path = Some (Inl e))"
proof -
  obtain ds where ds: "route_order domains = Some ds" "set ds = set domains"
    using route_order_domains [OF assms(1)] .
  have "create_http_redirect_routes env domains =
      Some (\<lambda>method headers path. try_redirects env method headers path ds)"
    by (simp add: create_http_redirect_routes_def ds)
  with ds(2) try_redirects_host [OF assms(2,3), of ds] header_map.get_insert [OF assms(4)] show ?thesis
    by (simp add: redirect_reply_def)
qed

theorem redirect_by_host_witness:
  "\<exists>f r. create_http_redirect_routes demo_http [''mles.io''] = Some f \<and>
     f ''GET'' [(''host'', ''mles.io'')] ''chat'' = Some (Inr r) \<and>
     hdr_get_all list_headers (rp_headers r) ''location'' = [''https://mles.io/chat'']"
proof -
  have "required_header (he_hdr demo_http) [(''host'', ''mles.io'')] ''host'' = Some ''mles.io''"
    "he_uri demo_http (''https://'' @ ''mles.io'' @ ''/'' @ ''chat'')"
    by code_simp+
  from redirect_by_host [OF _ this http_lawsD(2) [OF demo_http_laws], of "[''mles.io'']"]
  show ?thesis by (fastforce simp: demo_http_def)
qed

section \<open>Paths\<close>

text \<open>How a path resolves: empty segments and dots are skipped, two dots go up.\<close>

definition resolve_step :: "string list \<Rightarrow> string \<Rightarrow> string list" where
  "resolve_step acc s =
     (if s = [] \<or> s = ''.'' then acc else if s = ''..'' then butlast acc else acc @ [s])"

definition resolve :: "string \<Rightarrow> string list" where
  "resolve path = foldl resolve_step [] (str_split (CHR ''/'') path)"

definition plain_segment :: "string \<Rightarrow> bool" where
  "plain_segment s \<longleftrightarrow> s \<noteq> [] \<and> s \<noteq> ''.'' \<and> s \<noteq> ''..'' \<and> CHR ''/'' \<notin> set s"

lemma resolve_up:
  assumes "plain_segment host" and "plain_segment x"
  shows "resolve (root @ ''/'' @ host @ ''/'' @ ''../../'' @ x) = butlast (resolve root) @ [x]"
proof -
  have "str_split (CHR ''/'') (root @ CHR ''/'' # host @ CHR ''/'' # ''..'' @ CHR ''/'' # ''..'' @ CHR ''/'' # x) =
        str_split (CHR ''/'') root @ [host, ''..'', ''..'', x]"
    using assms by (simp only: str_split_append_sep) (simp add: plain_segment_def str_split_no_sep)
  then show ?thesis
    using assms by (simp add: resolve_def resolve_step_def plain_segment_def)
qed

text \<open>C36: the path of a request is not confined to the web root. A request path that climbs with
  two dots is joined to the root as it is, and a file beside the root is sent with status 200.\<close>

theorem path_escapes_root:
  assumes "http_laws env" and "fr_host fr = fr_domain fr" and "plain_segment (fr_host fr)"
    and "fr_tail fr = ''../../'' @ x" and "plain_segment x"
    and "fr_encoding fr = None" and "fr_ims fr = None"
    and "fs_meta fs (file_path_of fr) = Some m" and "he_fmt_date env (mtime m) = Some lm"
    and "fs_read fs (file_path_of fr) = Contents raw"
  shows "resolve (file_path_of fr) = butlast (resolve (fr_root fr)) @ [x] \<and>
    (\<exists>r cc'. dyn_reply env fs fr cc = Some (Inr r, cc') \<and> rp_status r = 200 \<and> rp_body r = raw)"
proof -
  let ?c = "content_type env (file_path_of fr)"
  have "file_path_of fr = fr_root fr @ ''/'' @ fr_host fr @ ''/'' @ ''../../'' @ x"
    using assms(4) by (simp add: file_path_of_def)
  then have res: "resolve (file_path_of fr) = butlast (resolve (fr_root fr)) @ [x]"
    using resolve_up [OF assms(3,5)] by simp
  have sf: "serve_file env fs fr (mtime m) lm cc = Some (file_reply env ?c lm None (fr_cors fr) raw, cc)"
    using assms(6,10) by (simp add: serve_file_def wants_def cached_body_def fresh_body_def Let_def)
  have "dyn_reply env fs fr cc = Some (Inr (file_reply env ?c lm None (fr_cors fr) raw), cc)"
    using dyn_reply_unfold [OF assms(2,8,9), of cc] assms(7) sf by (simp add: not_modified_def)
  moreover have "rp_status (file_reply env ?c lm None (fr_cors fr) raw) = 200"
    "rp_body (file_reply env ?c lm None (fr_cors fr) raw) = raw"
    using file_reply_ok(1,2) [OF assms(1) http_lawsD(5) [OF assms(1)] http_lawsD(4) [OF assms(1,9)] _ refl]
    by simp_all
  ultimately show ?thesis using res by blast
qed

definition secret_fs :: file_system where
  "secret_fs =
     \<lparr>fs_meta = (\<lambda>p. if resolve p = [''srv'', ''key''] then Some (Some 1) else None),
      fs_open = (\<lambda>p. if resolve p = [''srv'', ''key''] then Some 0 else None),
      fs_contents = (\<lambda>h. Some [42])\<rparr>"

definition secret_fr :: file_request where
  "secret_fr =
     \<lparr>fr_encoding = None, fr_ims = None, fr_host = ''mles.io'', fr_domain = ''mles.io'',
      fr_root = ''/srv/www'', fr_tail = ''../../key'', fr_cors = False\<rparr>"

theorem path_escapes_root_witness:
  "\<exists>r cc'. dyn_reply demo_http secret_fs secret_fr (cache_new list_lru 1) = Some (Inr r, cc') \<and>
     rp_body r = [42]"
proof -
  have p: "resolve (file_path_of secret_fr) = [''srv'', ''key'']" by code_simp
  have q: "fr_host secret_fr = fr_domain secret_fr" "plain_segment (fr_host secret_fr)"
    "fr_tail secret_fr = ''../../'' @ ''key''" "plain_segment ''key''"
    "fr_encoding secret_fr = None" "fr_ims secret_fr = None"
    by (simp_all add: secret_fr_def plain_segment_def)
  have f: "fs_meta secret_fs (file_path_of secret_fr) = Some (Some 1)"
    "he_fmt_date demo_http (mtime (Some 1)) = Some ''date''"
    "fs_read secret_fs (file_path_of secret_fr) = Contents [42]"
    using p by (simp_all add: secret_fs_def fs_read_def demo_http_def mtime_def)
  from path_escapes_root [OF demo_http_laws q f] show ?thesis by blast
qed

end
