(* ===== verification/Http_Concurrent.thy ===== *)
theory Http_Concurrent
  imports Http_Site
begin

text \<open>
  File requests served at the same time (\<^verbatim>\<open>src/src/http.rs\<close>, \<^verbatim>\<open>dyn_reply\<close>). The function is cut at
  every await: the metadata of the file, the lock of the cache before each lookup, opening the file,
  reading it to its end, each encoder, and the lock of the cache before the insertion. Any number of
  requests share one cache, their steps interleave freely, and the file system may change
  between any two steps, in any way. What \<^verbatim>\<open>read_to_end\<close> gathers is what the file system answers at that
  step for the handle; nothing says that a file ever held it as a whole.

  Shown: a request that is not interrupted behaves as the sequential \<^verbatim>\<open>dyn_reply\<close>; every request
  is answered after at most eight of its own steps, whatever the others do; every reply is traced to
  answers the file system gave to this request, and its body to bytes that were read from a handle
  opened for the same path by a request that had seen the same modification time. A last theorem shows what
  this leaves open: the contents are read after the time they are cached under.
\<close>

section \<open>The steps of a request\<close>

text \<open>
  Where a request waits: for the metadata, for the cache (to look up zstd or brotli), for the
  file to be opened, for its contents, for an encoder, for the cache (to insert a compressed body). The
  arguments are the local variables it still needs: the modification time, its printed form, the
  handle, the encoding, the contents and the body. \<^verbatim>\<open>Panicked\<close> is the panic of printing a date.
\<close>

datatype 'h file_pc =
    AtStat
  | AtZstd system_time string
  | AtBr system_time string
  | AtOpen system_time string
  | AtRead system_time string nat
  | AtCompress system_time string string bytes
  | AtInsert system_time string string bytes
  | Answered "http_rejection + 'h reply"
  | Panicked

definition want :: "('c, 'h) http_env \<Rightarrow> file_request \<Rightarrow> string \<Rightarrow> bool" where
  "want env fr z = wants (content_type env (file_path_of fr)) (fr_encoding fr) z"

definition reply_with ::
  "('c, 'h) http_env \<Rightarrow> file_request \<Rightarrow> string \<Rightarrow> string option \<Rightarrow> bytes \<Rightarrow> 'h file_pc" where
  "reply_with env fr last_modified chosen_encoding body =
     Answered (Inr (file_reply env (content_type env (file_path_of fr)) last_modified chosen_encoding
                      (fr_cors fr) body))"

definition after_zstd :: "('c, 'h) http_env \<Rightarrow> file_request \<Rightarrow> system_time \<Rightarrow> string \<Rightarrow> 'h file_pc" where
  "after_zstd env fr modified last_modified =
     (if want env fr BR then AtBr modified last_modified else AtOpen modified last_modified)"

definition after_stat ::
  "('c, 'h) http_env \<Rightarrow> file_request \<Rightarrow> system_time option option \<Rightarrow> 'h file_pc" where
  "after_stat env fr metadata =
     (case metadata of
        None \<Rightarrow> Answered (Inr (text_reply env 404 ''Not Found''))
      | Some m \<Rightarrow>
          (case he_fmt_date env (mtime m) of
             None \<Rightarrow> Panicked
           | Some last_modified \<Rightarrow>
               if not_modified env (fr_ims fr) (mtime m)
               then Answered (Inr (not_modified_reply env last_modified (fr_cors fr)))
               else if want env fr ZSTD then AtZstd (mtime m) last_modified
               else after_zstd env fr (mtime m) last_modified))"

definition after_open ::
  "('c, 'h) http_env \<Rightarrow> system_time \<Rightarrow> string \<Rightarrow> nat option \<Rightarrow> 'h file_pc" where
  "after_open env modified last_modified result =
     (case result of
        None \<Rightarrow> Answered (Inr (err500 env))
      | Some handle \<Rightarrow> AtRead modified last_modified handle)"

definition try_br ::
  "('c, 'h) http_env \<Rightarrow> file_request \<Rightarrow> system_time \<Rightarrow> string \<Rightarrow> bytes \<Rightarrow> 'h file_pc" where
  "try_br env fr modified last_modified raw =
     (if want env fr BR then AtCompress modified last_modified BR raw
      else reply_with env fr last_modified None raw)"

definition after_read ::
  "('c, 'h) http_env \<Rightarrow> file_request \<Rightarrow> system_time \<Rightarrow> string \<Rightarrow> bytes option \<Rightarrow> 'h file_pc" where
  "after_read env fr modified last_modified result =
     (case result of
        None \<Rightarrow> Answered (Inr (err500 env))
      | Some raw \<Rightarrow>
          if want env fr ZSTD then AtCompress modified last_modified ZSTD raw
          else try_br env fr modified last_modified raw)"

definition after_compress ::
  "('c, 'h) http_env \<Rightarrow> file_request \<Rightarrow> system_time \<Rightarrow> string \<Rightarrow> string \<Rightarrow> bytes \<Rightarrow> bytes option \<Rightarrow> 'h file_pc" where
  "after_compress env fr modified last_modified comptype raw result =
     (case result of
        Some c \<Rightarrow> AtInsert modified last_modified comptype c
      | None \<Rightarrow>
          if comptype = ZSTD then try_br env fr modified last_modified raw
          else reply_with env fr last_modified None raw)"

text \<open>One step of a request. None: the insertion never ends, and the cache stays locked.\<close>

fun file_poll ::
  "('c, 'h) http_env \<Rightarrow> file_system \<Rightarrow> file_request \<Rightarrow> 'h file_pc \<Rightarrow> 'c compression_cache \<Rightarrow>
   ('h file_pc \<times> 'c compression_cache) option" where
  "file_poll env fs fr AtStat cc =
     Some (if fr_host fr \<noteq> fr_domain fr then Answered (Inl Not_found)
           else after_stat env fr (fs_meta fs (file_path_of fr)), cc)"
| "file_poll env fs fr (AtZstd t lm) cc =
     (case cache_get (he_lru env) (file_path_of fr) ZSTD t cc of
        (Some d, cc') \<Rightarrow> Some (reply_with env fr lm (Some ZSTD) d, cc')
      | (None, cc') \<Rightarrow> Some (after_zstd env fr t lm, cc'))"
| "file_poll env fs fr (AtBr t lm) cc =
     (case cache_get (he_lru env) (file_path_of fr) BR t cc of
        (Some d, cc') \<Rightarrow> Some (reply_with env fr lm (Some BR) d, cc')
      | (None, cc') \<Rightarrow> Some (AtOpen t lm, cc'))"
| "file_poll env fs fr (AtOpen t lm) cc = Some (after_open env t lm (fs_open fs (file_path_of fr)), cc)"
| "file_poll env fs fr (AtRead t lm handle) cc = Some (after_read env fr t lm (fs_contents fs handle), cc)"
| "file_poll env fs fr (AtCompress t lm z raw) cc =
     Some (after_compress env fr t lm z raw (compress env z raw), cc)"
| "file_poll env fs fr (AtInsert t lm z c) cc =
     map_option (\<lambda>cc'. (reply_with env fr lm (Some z) c, cc'))
       (cache_insert (he_lru env) (file_path_of fr) z t c cc)"
| "file_poll env fs fr (Answered r) cc = Some (Answered r, cc)"
| "file_poll env fs fr Panicked cc = Some (Panicked, cc)"

section \<open>A request alone\<close>

fun file_polls ::
  "('c, 'h) http_env \<Rightarrow> file_system list \<Rightarrow> file_request \<Rightarrow> 'h file_pc \<Rightarrow> 'c compression_cache \<Rightarrow>
   ('h file_pc \<times> 'c compression_cache) option" where
  "file_polls env [] fr pc cc = Some (pc, cc)"
| "file_polls env (fs # fss) fr pc cc =
     (case file_poll env fs fr pc cc of
        None \<Rightarrow> None
      | Some (pc', cc') \<Rightarrow> file_polls env fss fr pc' cc')"

definition outcome_of ::
  "('h file_pc \<times> 'c compression_cache) option \<Rightarrow> ((http_rejection + 'h reply) \<times> 'c compression_cache) option" where
  "outcome_of x = (case x of Some (Answered r, cc) \<Rightarrow> Some (r, cc) | _ \<Rightarrow> None)"

lemma polls_done [simp]:
  "file_polls env fss fr (Answered r) cc = Some (Answered r, cc)"
  "file_polls env fss fr Panicked cc = Some (Panicked, cc)"
  by (induction fss) simp_all

lemma polls_reply_with [simp]:
  "file_polls env fss fr (reply_with env fr lm enc d) cc = Some (reply_with env fr lm enc d, cc)"
  by (simp add: reply_with_def)

lemma outcome_reply_with [simp]:
  "outcome_of (Some (reply_with env fr lm enc d, cc)) =
     Some (Inr (file_reply env (content_type env (file_path_of fr)) lm enc (fr_cors fr) d), cc)"
  by (simp add: outcome_of_def reply_with_def)

lemma outcome_simps [simp]:
  "outcome_of (Some (Answered r, cc)) = Some (r, cc)" "outcome_of (Some (Panicked, cc)) = None"
  "outcome_of None = None"
  by (simp_all add: outcome_of_def)

text \<open>How many steps each stretch needs: inserting one, an encoder one more, and so on; more steps
  change nothing.\<close>

lemma polls_insert:
  "outcome_of (file_polls env (fs # fss) fr (AtInsert t lm z c) cc) =
     map_option (\<lambda>cc'. (Inr (file_reply env (content_type env (file_path_of fr)) lm (Some z) (fr_cors fr) c), cc'))
       (cache_insert (he_lru env) (file_path_of fr) z t c cc)"
  by (cases "cache_insert (he_lru env) (file_path_of fr) z t c cc") simp_all

lemma polls_try_br:
  "outcome_of (file_polls env (f1 # f2 # fss) fr (try_br env fr t lm raw) cc) =
     (case (if want env fr BR then compress env BR raw else None) of
        Some c \<Rightarrow> outcome_of (file_polls env (f2 # fss) fr (AtInsert t lm BR c) cc)
      | None \<Rightarrow> Some (Inr (file_reply env (content_type env (file_path_of fr)) lm None (fr_cors fr) raw), cc))"
proof (cases "want env fr BR")
  case True
  have "BR \<noteq> ZSTD" by (simp add: BR_def ZSTD_def)
  with True show ?thesis
    by (simp add: try_br_def after_compress_def file_polls.simps(2) [of env f1 "f2 # fss"] del: file_polls.simps
        split: option.split)
qed (simp add: try_br_def del: file_polls.simps)

definition body_outcome ::
  "('c, 'h) http_env \<Rightarrow> file_request \<Rightarrow> system_time \<Rightarrow> string \<Rightarrow> bytes \<Rightarrow> 'c compression_cache \<Rightarrow>
   ((http_rejection + 'h reply) \<times> 'c compression_cache) option" where
  "body_outcome env fr t lm raw cc =
     map_option (\<lambda>((d, enc), cc2).
         (Inr (file_reply env (content_type env (file_path_of fr)) lm enc (fr_cors fr) d), cc2))
       (fresh_body env (file_path_of fr) t (want env fr ZSTD) (want env fr BR) raw cc)"

lemma polls_after_read:
  "outcome_of (file_polls env (f1 # f2 # f3 # fss) fr (after_read env fr t lm (Some raw)) cc) =
     body_outcome env fr t lm raw cc"
proof -
  have br: "outcome_of (file_polls env (g1 # g2 # gs) fr (try_br env fr t lm raw) cc) = body_outcome env fr t lm raw cc"
    if "(if want env fr ZSTD then compress env ZSTD raw else None) = None" for g1 g2 gs
    using that
    by (auto simp: polls_try_br polls_insert body_outcome_def fresh_body_def option.map_comp comp_def
        simp del: file_polls.simps split: option.split)
  show ?thesis
  proof (cases "want env fr ZSTD")
    case False
    then show ?thesis using br [of f1 f2 "f3 # fss"] by (simp add: after_read_def del: file_polls.simps)
  next
    case True
    show ?thesis
    proof (cases "compress env ZSTD raw")
      case None
      then show ?thesis
        using True br [of f2 f3 fss]
        by (simp add: after_read_def after_compress_def file_polls.simps(2) [of env f1 "f2 # f3 # fss"]
            del: file_polls.simps)
    next
      case (Some c)
      then show ?thesis
        using True polls_insert [of env f2 "f3 # fss" fr t lm ZSTD c cc]
        by (simp add: after_read_def after_compress_def file_polls.simps(2) [of env f1 "f2 # f3 # fss"]
            body_outcome_def fresh_body_def option.map_comp comp_def del: file_polls.simps)
    qed
  qed
qed

definition read_outcome ::
  "('c, 'h) http_env \<Rightarrow> file_system \<Rightarrow> file_request \<Rightarrow> system_time \<Rightarrow> string \<Rightarrow> 'c compression_cache \<Rightarrow>
   ((http_rejection + 'h reply) \<times> 'c compression_cache) option" where
  "read_outcome env fs fr t lm cc =
     (case fs_read fs (file_path_of fr) of
        Contents raw \<Rightarrow> body_outcome env fr t lm raw cc
      | _ \<Rightarrow> Some (Inr (err500 env), cc))"

lemma polls_open:
  "outcome_of (file_polls env (fs # fs # f1 # f2 # f3 # fss) fr (AtOpen t lm) cc) = read_outcome env fs fr t lm cc"
proof (cases "fs_open fs (file_path_of fr)")
  case None
  then show ?thesis by (simp add: after_open_def read_outcome_def fs_read_def)
next
  case (Some h)
  have "outcome_of (file_polls env (fs # fs # f1 # f2 # f3 # fss) fr (AtOpen t lm) cc) =
    outcome_of (file_polls env (f1 # f2 # f3 # fss) fr (after_read env fr t lm (fs_contents fs h)) cc)"
    using Some by (simp add: after_open_def file_polls.simps(2) [of env fs] del: file_polls.simps)
  then show ?thesis
    using Some by (cases "fs_contents fs h")
      (simp_all add: polls_after_read read_outcome_def fs_read_def after_read_def [of _ _ _ _ None] del: file_polls.simps)
qed

lemma polls_after_zstd:
  "outcome_of (file_polls env (fs # fs # fs # f2 # f3 # f4 # fss) fr (after_zstd env fr t lm) cc) =
     (case (if want env fr BR then cache_get (he_lru env) (file_path_of fr) BR t cc else (None, cc)) of
        (Some d, cc') \<Rightarrow>
          Some (Inr (file_reply env (content_type env (file_path_of fr)) lm (Some BR) (fr_cors fr) d), cc')
      | (None, cc') \<Rightarrow> read_outcome env fs fr t lm cc')"
proof (cases "want env fr BR")
  case True
  then show ?thesis
    by (simp add: after_zstd_def file_polls.simps(2) [of env fs "fs # fs # f2 # f3 # f4 # fss"] polls_open
        del: file_polls.simps split: prod.split option.split)
next
  case False
  then show ?thesis by (simp add: after_zstd_def polls_open del: file_polls.simps)
qed

lemma polls_lookup:
  "outcome_of (file_polls env (fs # fs # fs # fs # f2 # f3 # f4 # fss) fr
      (if want env fr ZSTD then AtZstd t lm else after_zstd env fr t lm) cc) =
    map_option (\<lambda>(r, cc'). (Inr r, cc')) (serve_file env fs fr t lm cc)"
proof -
  let ?p = "file_path_of fr"
  let ?get = "\<lambda>z cc. if want env fr z then cache_get (he_lru env) ?p z t cc else (None, cc)"
  obtain r1 cc1 where g1: "?get ZSTD cc = (r1, cc1)" by fastforce
  obtain r2 cc2 where g2: "?get BR cc1 = (r2, cc2)" by fastforce
  have cb: "cached_body env ?p t (want env fr ZSTD) (want env fr BR) cc =
      (case r1 of Some d \<Rightarrow> (Some (d, ZSTD), cc1)
       | None \<Rightarrow> (case r2 of Some d \<Rightarrow> (Some (d, BR), cc2) | None \<Rightarrow> (None, cc2)))"
    using g1 g2 by (cases r1) (simp_all add: cached_body_def Let_def)
  have rest: "outcome_of (file_polls env (fs # fs # fs # f1 # f2 # f3 # gs) fr (after_zstd env fr t lm) cc1) =
      (case r2 of Some d \<Rightarrow> Some (Inr (file_reply env (content_type env ?p) lm (Some BR) (fr_cors fr) d), cc2)
       | None \<Rightarrow> read_outcome env fs fr t lm cc2)" for f1 f2 f3 gs
    using g2 by (simp add: polls_after_zstd del: file_polls.simps)
  have "outcome_of (file_polls env (fs # fs # fs # fs # f2 # f3 # f4 # fss) fr
      (if want env fr ZSTD then AtZstd t lm else after_zstd env fr t lm) cc) =
    (case r1 of
       Some d \<Rightarrow> Some (Inr (file_reply env (content_type env ?p) lm (Some ZSTD) (fr_cors fr) d), cc1)
     | None \<Rightarrow> (case r2 of Some d \<Rightarrow> Some (Inr (file_reply env (content_type env ?p) lm (Some BR) (fr_cors fr) d), cc2)
       | None \<Rightarrow> read_outcome env fs fr t lm cc2))"
  proof (cases "want env fr ZSTD")
    case True
    then show ?thesis
      using g1 rest [of f2 f3 f4 fss]
      by (simp add: file_polls.simps(2) [of env fs "fs # fs # fs # f2 # f3 # f4 # fss"] del: file_polls.simps
          split: option.split)
  next
    case False
    then show ?thesis using g1 rest [of fs f2 f3 "f4 # fss"] by (auto simp del: file_polls.simps)
  qed
  also have "\<dots> = map_option (\<lambda>(r, cc'). (Inr r, cc')) (serve_file env fs fr t lm cc)"
    using cb
    by (auto simp: serve_file_def want_def [symmetric] Let_def read_outcome_def body_outcome_def option.map_comp
        comp_def case_prod_unfold simp del: file_polls.simps split: option.split read_result.split)
  finally show ?thesis .
qed

lemma eight_polls:
  "dyn_reply env fs fr cc = outcome_of (file_polls env (replicate 8 fs) fr AtStat cc)"
proof -
  have eight: "replicate 8 fs = fs # fs # fs # fs # fs # fs # fs # fs # []" by (simp add: numeral_eq_Suc)
  show ?thesis
  proof (cases "fr_host fr \<noteq> fr_domain fr \<or> fs_meta fs (file_path_of fr) = None")
    case True
    then show ?thesis by (auto simp: dyn_reply_def eight after_stat_def)
  next
    case False
    then obtain m where m: "fr_host fr = fr_domain fr" "fs_meta fs (file_path_of fr) = Some m" by auto
    show ?thesis
    proof (cases "he_fmt_date env (mtime m)")
      case None
      with m show ?thesis by (simp add: dyn_reply_def eight after_stat_def mtime_def)
    next
      case (Some lm)
      with m show ?thesis
        unfolding dyn_reply_unfold [OF m Some] eight polls_lookup [of env fs fs fs fs "[]", symmetric]
        by (simp add: after_stat_def file_polls.simps(2) [of env fs "[fs, fs, fs, fs, fs, fs, fs]"] del: file_polls.simps)
    qed
  qed
qed

text \<open>A file request that is not interrupted behaves as the sequential \<^verbatim>\<open>dyn_reply\<close>: eight steps on one
  state of the file system give its reply and leave its cache, and they give no reply exactly when
  \<^verbatim>\<open>dyn_reply\<close> gives none.\<close>

theorem dyn_reply_by_steps:
  "dyn_reply env fs fr cc = outcome_of (file_polls env (replicate 8 fs) fr AtStat cc)"
  by (rule eight_polls)

section \<open>Requests at the same time\<close>

record ('c, 'h) site_state =
  ss_requests :: "(file_request \<times> 'h file_pc) list"
  ss_cache :: "'c compression_cache"

text \<open>A request comes in, or a request makes a step on the file system as it is then.\<close>

datatype site_act = Request file_request | Poll nat file_system

definition site_init :: "('c, 'h) http_env \<Rightarrow> usize \<Rightarrow> ('c, 'h) site_state" where
  "site_init env mb = \<lparr>ss_requests = [], ss_cache = cache_new (he_lru env) mb\<rparr>"

fun site_step :: "('c, 'h) http_env \<Rightarrow> ('c, 'h) site_state \<Rightarrow> site_act \<Rightarrow> ('c, 'h) site_state option" where
  "site_step env st (Request fr) = Some (st\<lparr>ss_requests := ss_requests st @ [(fr, AtStat)]\<rparr>)"
| "site_step env st (Poll i fs) =
     (if i < length (ss_requests st)
      then case ss_requests st ! i of
             (fr, pc) \<Rightarrow>
               map_option (\<lambda>(pc', cc'). \<lparr>ss_requests = (ss_requests st)[i := (fr, pc')], ss_cache = cc'\<rparr>)
                 (file_poll env fs fr pc (ss_cache st))
      else Some st)"

fun site_acts ::
  "('c, 'h) http_env \<Rightarrow> ('c, 'h) site_state \<Rightarrow> site_act list \<Rightarrow> ('c, 'h) site_state option" where
  "site_acts env st [] = Some st"
| "site_acts env st (a # as) =
     (case site_step env st a of None \<Rightarrow> None | Some st' \<Rightarrow> site_acts env st' as)"

lemma site_acts_append:
  "site_acts env st (as @ bs) = Option.bind (site_acts env st as) (\<lambda>st'. site_acts env st' bs)"
  by (induction as arbitrary: st) (simp_all split: option.split)

fun requests :: "site_act list \<Rightarrow> file_request list" where
  "requests [] = []"
| "requests (Request fr # as) = fr # requests as"
| "requests (Poll i fs # as) = requests as"

lemma requests_append [simp]: "requests (as @ bs) = requests as @ requests bs"
  by (induction as rule: requests.induct) simp_all

section \<open>What the file system was asked\<close>

text \<open>
  The operations on the file system that a run has made, each with the number of its request and
  the answer.
\<close>

datatype fs_op =
    Stat nat string "system_time option option"
  | Open nat string "nat option"
  | Read nat nat "bytes option"

fun op_of :: "nat \<Rightarrow> file_system \<Rightarrow> file_request \<times> 'h file_pc \<Rightarrow> fs_op list" where
  "op_of i fs (fr, AtStat) =
     (if fr_host fr = fr_domain fr then [Stat i (file_path_of fr) (fs_meta fs (file_path_of fr))] else [])"
| "op_of i fs (fr, AtOpen t lm) = [Open i (file_path_of fr) (fs_open fs (file_path_of fr))]"
| "op_of i fs (fr, AtRead t lm handle) = [Read i handle (fs_contents fs handle)]"
| "op_of i fs (fr, pc) = []"

fun ops_now :: "('c, 'h) site_state \<Rightarrow> site_act \<Rightarrow> fs_op list" where
  "ops_now st (Request fr) = []"
| "ops_now st (Poll i fs) = (if i < length (ss_requests st) then op_of i fs (ss_requests st ! i) else [])"

fun fs_log :: "('c, 'h) http_env \<Rightarrow> ('c, 'h) site_state \<Rightarrow> site_act list \<Rightarrow> fs_op list" where
  "fs_log env st [] = []"
| "fs_log env st (a # as) =
     ops_now st a @ (case site_step env st a of None \<Rightarrow> [] | Some st' \<Rightarrow> fs_log env st' as)"

lemma fs_log_snoc:
  "site_acts env st as = Some st' \<Longrightarrow> fs_log env st (as @ [a]) = fs_log env st as @ ops_now st' a"
  by (induction as arbitrary: st) (auto split: option.splits)

text \<open>Request \<^verbatim>\<open>i\<close> has seen the path \<^verbatim>\<open>p\<close> with time \<^verbatim>\<open>t\<close>, then opened it as a handle, then read bytes from
  that handle.\<close>

definition opened :: "fs_op list \<Rightarrow> nat \<Rightarrow> string \<Rightarrow> system_time \<Rightarrow> nat \<Rightarrow> bool" where
  "opened L i p t h \<longleftrightarrow>
     (\<exists>m l1 l2 l3. L = l1 @ Stat i p (Some m) # l2 @ Open i p (Some h) # l3 \<and> mtime m = t)"

definition fetched :: "fs_op list \<Rightarrow> nat \<Rightarrow> string \<Rightarrow> system_time \<Rightarrow> bytes \<Rightarrow> bool" where
  "fetched L i p t raw \<longleftrightarrow>
     (\<exists>m h l1 l2 l3 l4.
        L = l1 @ Stat i p (Some m) # l2 @ Open i p (Some h) # l3 @ Read i h (Some raw) # l4 \<and> mtime m = t)"

text \<open>
  How the reply to request \<^verbatim>\<open>i\<close> is accounted for: 404 by a stat of its own that failed; 500 by its open or
  its read that failed; 304 by its stat, whose time is not after the client's; 200 by its stat,
  whose time is after the client's and in the reply, and by bytes that this or, for a compressed body, another
  request fetched for the same path after seeing the same time.
\<close>

definition traced :: "('c, 'h) http_env \<Rightarrow> fs_op list \<Rightarrow> nat \<Rightarrow> file_request \<Rightarrow> 'h reply \<Rightarrow> bool" where
  "traced env L i fr r \<longleftrightarrow>
     (let p = file_path_of fr
      in rp_status r = 404 \<and> Stat i p None \<in> set L \<or>
         rp_status r = 500 \<and>
           (Open i p None \<in> set L \<or> (\<exists>h. Open i p (Some h) \<in> set L \<and> Read i h None \<in> set L)) \<or>
         (\<exists>m lm. Stat i p (Some m) \<in> set L \<and> he_fmt_date env (mtime m) = Some lm \<and>
            hdr_get_all (he_hdr env) (rp_headers r) ''last-modified'' = [lm] \<and>
            (if not_modified env (fr_ims fr) (mtime m) then rp_status r = 304 \<and> rp_body r = []
             else rp_status r = 200 \<and>
               (\<exists>j enc raw. fetched L j p (mtime m) raw \<and> (enc = None \<longrightarrow> j = i) \<and>
                  declares (he_hdr env) r enc \<and> stands_for env fr raw enc (rp_body r)))))"

lemma opened_append: "opened L i p t h \<Longrightarrow> opened (L @ xs) i p t h"
  unfolding opened_def by fastforce

lemma fetched_append: "fetched L i p t raw \<Longrightarrow> fetched (L @ xs) i p t raw"
  unfolding fetched_def by fastforce

lemma opened_now: "Stat i p (Some m) \<in> set L \<Longrightarrow> opened (L @ [Open i p (Some h)]) i p (mtime m) h"
  unfolding opened_def by (metis append.assoc append_Cons append_Nil split_list)

lemma fetched_now: "opened L i p t h \<Longrightarrow> fetched (L @ [Read i h (Some raw)]) i p t raw"
  unfolding opened_def fetched_def by fastforce

lemma opened_open: "opened L i p t h \<Longrightarrow> Open i p (Some h) \<in> set L"
  by (auto simp: opened_def)

lemma traced_append: "traced env L i fr r \<Longrightarrow> traced env (L @ xs) i fr r"
  unfolding traced_def Let_def set_append by (meson UnI1 fetched_append)

text \<open>What a request that waits knows.\<close>

definition seen :: "('c, 'h) http_env \<Rightarrow> fs_op list \<Rightarrow> nat \<Rightarrow> file_request \<Rightarrow> system_time \<Rightarrow> string \<Rightarrow> bool" where
  "seen env L i fr t lm \<longleftrightarrow>
     (\<exists>m. Stat i (file_path_of fr) (Some m) \<in> set L \<and> mtime m = t) \<and> he_fmt_date env t = Some lm \<and>
     \<not> not_modified env (fr_ims fr) t"

fun request_ok :: "('c, 'h) http_env \<Rightarrow> fs_op list \<Rightarrow> nat \<Rightarrow> file_request \<Rightarrow> 'h file_pc \<Rightarrow> bool" where
  "request_ok env L i fr AtStat = True"
| "request_ok env L i fr (AtZstd t lm) = (want env fr ZSTD \<and> seen env L i fr t lm)"
| "request_ok env L i fr (AtBr t lm) = (want env fr BR \<and> seen env L i fr t lm)"
| "request_ok env L i fr (AtOpen t lm) = seen env L i fr t lm"
| "request_ok env L i fr (AtRead t lm h) = (seen env L i fr t lm \<and> opened L i (file_path_of fr) t h)"
| "request_ok env L i fr (AtCompress t lm z raw) =
     (z \<in> {ZSTD, BR} \<and> want env fr z \<and> seen env L i fr t lm \<and> fetched L i (file_path_of fr) t raw)"
| "request_ok env L i fr (AtInsert t lm z c) =
     (z \<in> {ZSTD, BR} \<and> want env fr z \<and> seen env L i fr t lm \<and>
      (\<exists>raw. fetched L i (file_path_of fr) t raw \<and> compress env z raw = Some c))"
| "request_ok env L i fr (Answered (Inl e)) = (fr_host fr \<noteq> fr_domain fr)"
| "request_ok env L i fr (Answered (Inr r)) = traced env L i fr r"
| "request_ok env L i fr Panicked = True"

text \<open>A cached body was made from bytes fetched for its path by a request that had seen its time.\<close>

definition entry_ok :: "('c, 'h) http_env \<Rightarrow> fs_op list \<Rightarrow> cache_key \<Rightarrow> bytes \<Rightarrow> bool" where
  "entry_ok env L k d \<longleftrightarrow>
     (\<exists>j raw. fetched L j (ck_path k) (ck_modified k) raw \<and> compress env (ck_compression k) raw = Some d)"

definition cached_ok :: "('c, 'h) http_env \<Rightarrow> fs_op list \<Rightarrow> 'c compression_cache \<Rightarrow> bool" where
  "cached_ok env L cc \<longleftrightarrow>
     cache_inv (he_lru env) cc \<and> (\<forall>k d. cache_lookup (he_lru env) cc k = Some d \<longrightarrow> entry_ok env L k d)"

lemma seen_append: "seen env L i fr t lm \<Longrightarrow> seen env (L @ xs) i fr t lm"
  by (auto simp: seen_def)

lemma request_ok_append: "request_ok env L i fr pc \<Longrightarrow> request_ok env (L @ xs) i fr pc"
  by (induction env L i fr pc rule: request_ok.induct)
     (auto intro: seen_append opened_append fetched_append traced_append)

lemma cached_ok_append: "cached_ok env L cc \<Longrightarrow> cached_ok env (L @ xs) cc"
  unfolding cached_ok_def entry_ok_def by (blast intro: fetched_append)

section \<open>Every step keeps the account\<close>

lemma last_modified_sent:
  assumes "http_laws env" and "list_all value_char lm" and "enc \<in> {None, Some ZSTD, Some BR}"
  shows "hdr_get_all (he_hdr env)
    (rp_headers (file_reply env (content_type env p) lm enc cors body)) ''last-modified'' = [lm]"
  using file_reply_ok(4) [OF assms(1) http_lawsD(5) [OF assms(1)] assms(2,3) refl, of "''last-modified''"]
  by (simp add: hardening_names_def file_headers_def split: option.split)

lemma not_modified_sent:
  assumes "http_laws env" and "list_all value_char lm"
  shows "hdr_get_all (he_hdr env) (rp_headers (not_modified_reply env lm cors)) ''last-modified'' = [lm]"
proof -
  note hm = http_lawsD(2) [OF assms(1)]
  show ?thesis
    using header_map.build_response_text [OF hm, of "[(''last-modified'', lm)]" 304 "[]"] assms(2)
      header_map.get_with_security [OF hm] header_map.get_with_isolation [OF hm]
    by (simp add: not_modified_reply_def with_file_headers_def Let_def header_map.get_append [OF hm] header_map.get_new [OF hm])
qed

lemma reply_with_traced:
  assumes "http_laws env" and "seen env L i fr t lm" and "fetched L j (file_path_of fr) t raw"
    and "enc = None \<longrightarrow> j = i" and "stands_for env fr raw enc d"
  shows "request_ok env L i fr (reply_with env fr lm enc d)"
proof -
  let ?c = "content_type env (file_path_of fr)"
  define r where "r = file_reply env ?c lm enc (fr_cors fr) d"
  obtain m where m: "Stat i (file_path_of fr) (Some m) \<in> set L" "mtime m = t" "he_fmt_date env t = Some lm"
    "\<not> not_modified env (fr_ims fr) t"
    using assms(2) by (auto simp: seen_def)
  have lm: "list_all value_char lm" by (rule http_lawsD(4) [OF assms(1) m(3)])
  have enc: "enc \<in> {None, Some ZSTD, Some BR}"
    using assms(5) by (auto simp: stands_for_def split: option.splits)
  note tx = http_lawsD(5) [OF assms(1), of "file_path_of fr"] lm
  have r: "rp_status r = 200" "rp_body r = d" "declares (he_hdr env) r enc"
    "hdr_get_all (he_hdr env) (rp_headers r) ''last-modified'' = [lm]"
    using file_reply_ok(1,2) [OF assms(1) tx enc r_def] file_reply_declares [OF assms(1) tx enc]
      last_modified_sent [OF assms(1) lm enc] by (simp_all add: r_def)
  have "traced env L i fr r"
    unfolding traced_def Let_def using m r assms(3-5)
    by (intro disjI2 exI [of _ m] exI [of _ lm]) auto
  then show ?thesis by (simp add: reply_with_def r_def)
qed

lemma after_stat_ok:
  assumes "http_laws env"
  shows "request_ok env (L @ [Stat i (file_path_of fr) x]) i fr (after_stat env fr x)"
proof (cases x)
  case None
  then show ?thesis by (simp add: after_stat_def traced_def text_reply_def)
next
  case (Some m)
  show ?thesis
  proof (cases "he_fmt_date env (mtime m)")
    case None
    then show ?thesis using Some by (simp add: after_stat_def)
  next
    case lm: (Some lm)
    have vc: "list_all value_char lm" by (rule http_lawsD(4) [OF assms lm])
    show ?thesis
    proof (cases "not_modified env (fr_ims fr) (mtime m)")
      case True
      then have "traced env (L @ [Stat i (file_path_of fr) x]) i fr (not_modified_reply env lm (fr_cors fr))"
        unfolding traced_def Let_def
        using Some lm not_modified_reply_ok(1,2) [OF assms vc] not_modified_sent [OF assms vc]
        by (intro disjI2 exI [of _ m] exI [of _ lm]) auto
      then show ?thesis using True Some lm by (simp add: after_stat_def)
    next
      case False
      then have "seen env (L @ [Stat i (file_path_of fr) x]) i fr (mtime m) lm"
        using Some lm by (auto simp: seen_def)
      then show ?thesis using False Some lm by (auto simp: after_stat_def after_zstd_def)
    qed
  qed
qed

lemma after_open_ok:
  assumes "seen env L i fr t lm"
  shows "request_ok env (L @ [Open i (file_path_of fr) x]) i fr (after_open env t lm x)"
proof (cases x)
  case None
  then show ?thesis by (simp add: after_open_def traced_def)
next
  case (Some h)
  obtain m where m: "Stat i (file_path_of fr) (Some m) \<in> set L" "mtime m = t" using assms by (auto simp: seen_def)
  show ?thesis
    using Some opened_now [OF m(1), of h] m(2) seen_append [OF assms] by (simp add: after_open_def)
qed

lemma plain_traced:
  assumes "http_laws env" and "seen env L i fr t lm" and "fetched L i (file_path_of fr) t raw"
  shows "request_ok env L i fr (reply_with env fr lm None raw)"
  by (rule reply_with_traced [OF assms]) (simp_all add: stands_for_def)

lemma try_br_ok:
  assumes "http_laws env" and "seen env L i fr t lm" and "fetched L i (file_path_of fr) t raw"
  shows "request_ok env L i fr (try_br env fr t lm raw)"
  using plain_traced [OF assms] assms(2,3) by (simp add: try_br_def)

lemma after_read_ok:
  assumes "http_laws env" and "seen env L i fr t lm" and "opened L i (file_path_of fr) t h"
  shows "request_ok env (L @ [Read i h x]) i fr (after_read env fr t lm x)"
proof (cases x)
  case None
  then show ?thesis using opened_open [OF assms(3)] by (auto simp: after_read_def traced_def Let_def)
next
  case (Some raw)
  show ?thesis
    using Some try_br_ok [OF assms(1) seen_append [OF assms(2)] fetched_now [OF assms(3)], of raw]
      seen_append [OF assms(2)] fetched_now [OF assms(3)]
    by (simp add: after_read_def)
qed

lemma after_compress_ok:
  assumes "http_laws env" and "request_ok env L i fr (AtCompress t lm z raw)"
  shows "request_ok env L i fr (after_compress env fr t lm z raw (compress env z raw))"
  using assms(2) try_br_ok [OF assms(1), of L i fr t lm raw] plain_traced [OF assms(1), of L i fr t lm raw]
  by (auto simp: after_compress_def split: option.split)

lemma hit_traced:
  assumes "http_laws env" and "entry_ok env L (mk_key (file_path_of fr) z t) d"
    and "seen env L i fr t lm" and "z \<in> {ZSTD, BR}" and "want env fr z"
  shows "request_ok env L i fr (reply_with env fr lm (Some z) d)"
proof -
  obtain j raw where e: "fetched L j (file_path_of fr) t raw" "compress env z raw = Some d"
    using assms(2) by (auto simp: entry_ok_def)
  show ?thesis
    by (rule reply_with_traced [OF assms(1,3) e(1)]) (use e(2) assms(4,5) in \<open>simp_all add: stands_for_def want_def\<close>)
qed

lemma lookup_ok:
  assumes "http_laws env" and "cached_ok env L cc" and "cache_get (he_lru env) (file_path_of fr) z t cc = (r, cc')"
    and "z \<in> {ZSTD, BR}" and "want env fr z" and "seen env L i fr t lm"
  shows "cached_ok env L cc'"
    and "r = Some d \<Longrightarrow> request_ok env L i fr (reply_with env fr lm (Some z) d)"
proof -
  have g: "r = cache_lookup (he_lru env) cc (mk_key (file_path_of fr) z t)" "cache_inv (he_lru env) cc'"
    "cache_lookup (he_lru env) cc' = cache_lookup (he_lru env) cc"
    using file_cache.get_look [OF http_file_cache [OF assms(1)] _ assms(3)] assms(2)
    by (simp_all add: cached_ok_def)
  then show "cached_ok env L cc'" using assms(2) by (simp add: cached_ok_def)
  show "request_ok env L i fr (reply_with env fr lm (Some z) d)" if "r = Some d"
  proof -
    have "entry_ok env L (mk_key (file_path_of fr) z t) d"
      using assms(2) g(1) that by (simp add: cached_ok_def)
    then show ?thesis by (rule hit_traced [OF assms(1) _ assms(6,4,5)])
  qed
qed

lemma insert_ok:
  assumes "http_laws env" and "cached_ok env L cc" and "request_ok env L i fr (AtInsert t lm z c)"
  obtains cc' where "cache_insert (he_lru env) (file_path_of fr) z t c cc = Some cc'"
    "cached_ok env L cc'" "request_ok env L i fr (reply_with env fr lm (Some z) c)"
proof -
  note fc = http_file_cache [OF assms(1)]
  obtain raw where z: "z \<in> {ZSTD, BR}" "want env fr z" and sn: "seen env L i fr t lm"
    and raw: "fetched L i (file_path_of fr) t raw" "compress env z raw = Some c"
    using assms(3) by auto
  have v: "vec_ok c" and inv: "cache_inv (he_lru env) cc"
    using http_lawsD(3) [OF assms(1) raw(2)] assms(2) by (simp_all add: cached_ok_def)
  obtain cc' where ins: "cache_insert (he_lru env) (file_path_of fr) z t c cc = Some cc'"
    and inv': "cache_inv (he_lru env) cc'"
    using file_cache.ins_total [OF fc inv v] by blast
  have e: "entry_ok env L (mk_key (file_path_of fr) z t) c"
    using raw by (auto simp: entry_ok_def)
  have "\<forall>k d. cache_lookup (he_lru env) cc' k = Some d \<longrightarrow> entry_ok env L k d"
    by (rule file_cache.ins_all [where P = "entry_ok env L", OF fc inv v ins _ e])
       (use assms(2) in \<open>simp add: cached_ok_def\<close>)
  then have "cached_ok env L cc'" using inv' by (simp add: cached_ok_def)
  moreover have "request_ok env L i fr (reply_with env fr lm (Some z) c)"
    by (rule hit_traced [OF assms(1) e sn z])
  ultimately show thesis using ins by (intro that)
qed

lemma file_poll_ok:
  assumes "http_laws env" and "cached_ok env L cc" and "request_ok env L i fr pc"
    and "file_poll env fs fr pc cc = Some (pc', cc')"
  shows "cached_ok env (L @ op_of i fs (fr, pc)) cc' \<and> request_ok env (L @ op_of i fs (fr, pc)) i fr pc'"
proof (cases pc)
  case AtStat
  then show ?thesis
    using assms(4) cached_ok_append [OF assms(2)] after_stat_ok [OF assms(1)] by auto
next
  case (AtZstd t lm)
  then have w: "want env fr ZSTD" and sn: "seen env L i fr t lm" using assms(3) by auto
  obtain r cc1 where g: "cache_get (he_lru env) (file_path_of fr) ZSTD t cc = (r, cc1)" by fastforce
  note lo = lookup_ok [OF assms(1,2) g _ w sn]
  show ?thesis using assms(4) g lo sn AtZstd by (cases r) (auto simp: after_zstd_def)
next
  case (AtBr t lm)
  then have w: "want env fr BR" and sn: "seen env L i fr t lm" using assms(3) by auto
  obtain r cc1 where g: "cache_get (he_lru env) (file_path_of fr) BR t cc = (r, cc1)" by fastforce
  note lo = lookup_ok [OF assms(1,2) g _ w sn]
  show ?thesis using assms(4) g lo sn AtBr by (cases r) auto
next
  case (AtOpen t lm)
  then show ?thesis
    using assms(3,4) cached_ok_append [OF assms(2)] after_open_ok [of env L i fr t lm] by auto
next
  case (AtRead t lm h)
  then show ?thesis
    using assms(3,4) cached_ok_append [OF assms(2)] after_read_ok [OF assms(1), of L i fr t lm h] by auto
next
  case (AtCompress t lm z raw)
  then show ?thesis
    using assms(4) after_compress_ok [OF assms(1) assms(3) [unfolded AtCompress]] assms(2) by auto
next
  case (AtInsert t lm z c)
  obtain cc1 where "cache_insert (he_lru env) (file_path_of fr) z t c cc = Some cc1"
    "cached_ok env L cc1" "request_ok env L i fr (reply_with env fr lm (Some z) c)"
    using insert_ok [OF assms(1,2) assms(3) [unfolded AtInsert]] .
  then show ?thesis using assms(4) AtInsert by auto
qed (use assms in auto)

definition account_ok :: "('c, 'h) http_env \<Rightarrow> fs_op list \<Rightarrow> ('c, 'h) site_state \<Rightarrow> bool" where
  "account_ok env L st \<longleftrightarrow>
     cached_ok env L (ss_cache st) \<and>
     (\<forall>i < length (ss_requests st). request_ok env L i (fst (ss_requests st ! i)) (snd (ss_requests st ! i)))"

lemma site_step_account:
  assumes "http_laws env" and "account_ok env L st" and "site_step env st a = Some st'"
  shows "account_ok env (L @ ops_now st a) st' \<and>
    map fst (ss_requests st') = map fst (ss_requests st) @ requests [a]"
proof (cases a)
  case (Request fr)
  then show ?thesis
    using assms(2,3) by (auto simp: account_ok_def nth_append less_Suc_eq)
next
  case (Poll j fs)
  show ?thesis
  proof (cases "j < length (ss_requests st)")
    case False
    then show ?thesis using assms(2,3) Poll by auto
  next
    case True
    obtain fr pc where pc: "ss_requests st ! j = (fr, pc)" by fastforce
    obtain pc' cc' where p: "file_poll env fs fr pc (ss_cache st) = Some (pc', cc')"
      and st': "st' = \<lparr>ss_requests = (ss_requests st)[j := (fr, pc')], ss_cache = cc'\<rparr>"
      using assms(3) Poll True pc by auto
    have ok: "request_ok env L i (fst (ss_requests st ! i)) (snd (ss_requests st ! i))"
      if "i < length (ss_requests st)" for i
      using assms(2) that by (simp add: account_ok_def)
    have "request_ok env L j fr pc" using ok [OF True] pc by simp
    note q = file_poll_ok [OF assms(1) _ this p] and c = assms(2) [unfolded account_ok_def, THEN conjunct1]
    have "request_ok env (L @ ops_now st a) i (fst (ss_requests st' ! i)) (snd (ss_requests st' ! i))"
      if "i < length (ss_requests st')" for i
      using that q c request_ok_append [OF ok] True pc by (cases "i = j") (auto simp: st' Poll)
    moreover have "map fst (ss_requests st') = map fst (ss_requests st)"
      using pc True by (simp add: st' map_update) (metis fst_conv list_update_id map_update nth_map)
    ultimately show ?thesis using q c True pc by (auto simp: account_ok_def st' Poll)
  qed
qed

lemma site_acts_account:
  assumes "http_laws env" and "mb_ok mb"
  shows "site_acts env (site_init env mb) as = Some st \<Longrightarrow>
    account_ok env (fs_log env (site_init env mb) as) st \<and> map fst (ss_requests st) = requests as"
proof (induction as arbitrary: st rule: rev_induct)
  case Nil
  have "site_inv env (\<lambda>p t. undefined) (cache_new (he_lru env) mb)" by (rule site_inv_new [OF assms])
  moreover have "cache_lookup (he_lru env) (cache_new (he_lru env) mb) k = None" for k
    by (rule new_cache_empty [OF assms(1)])
  ultimately show ?case using Nil by (auto simp: account_ok_def cached_ok_def site_inv_def site_init_def)
next
  case (snoc a as)
  then obtain st1 where st1: "site_acts env (site_init env mb) as = Some st1" "site_step env st1 a = Some st"
    by (cases "site_acts env (site_init env mb) as") (auto simp: site_acts_append split: option.splits)
  show ?case
    using site_step_account [OF assms(1) _ st1(2), of "fs_log env (site_init env mb) as"] snoc.IH [OF st1(1)]
    by (simp add: fs_log_snoc [OF st1(1)])
qed

text \<open>C31: whatever the interleaving of the requests and whatever the file system answers, at every step
  anew, a reply is accounted for by answers the file system gave. A request is rejected only if its
  host is not the domain's. It gets 404 only if its own stat failed, 500 only if its own open or read failed,
  304 only if its own stat showed a time not after the client's. Otherwise it gets 200 with the time its
  own stat showed in Last-Modified, and with a body in the encoding the reply declares that was made from
  bytes read to the end from a handle opened for the very same path, by this request or, if the body
  is compressed, possibly by another one that had seen the same modification time before. No
  assumption on the file system is made; in particular the bytes may be newer than the time.\<close>

theorem replies_traced:
  assumes "http_laws env" and "mb_ok mb"
    and "site_acts env (site_init env mb) as = Some st"
    and "i < length (requests as)" and "snd (ss_requests st ! i) = Answered res"
  shows "case res of
           Inl e \<Rightarrow> fr_host (requests as ! i) \<noteq> fr_domain (requests as ! i)
         | Inr r \<Rightarrow> traced env (fs_log env (site_init env mb) as) i (requests as ! i) r"
proof -
  have ok: "account_ok env (fs_log env (site_init env mb) as) st" "map fst (ss_requests st) = requests as"
    using site_acts_account [OF assms(1-3)] by simp_all
  have i: "i < length (ss_requests st)" using assms(4) ok(2) by (metis length_map)
  have "fst (ss_requests st ! i) = requests as ! i" using ok(2) i by (metis nth_map)
  then have "request_ok env (fs_log env (site_init env mb) as) i (requests as ! i) (Answered res)"
    using ok(1) i assms(5) by (metis account_ok_def)
  then show ?thesis by (cases res) simp_all
qed

text \<open>Two requests for a page that changes between the first one's look at its time and its reading of
  the file; the second one is served from the cache.\<close>

definition demo_race :: "site_act list" where
  "demo_race =
     [Request demo_fr, Poll 0 (demo_fs 7000000000), Poll 0 (demo_fs 7000000000), Request demo_fr,
      Poll 1 (demo_fs 7000000000), Poll 0 (demo_fs 8000000000), Poll 0 (demo_fs 8000000000),
      Poll 0 (demo_fs 8000000000), Poll 0 (demo_fs 8000000000), Poll 1 (demo_fs 8000000000)]"

definition answer_of :: "file_request \<times> 'h file_pc \<Rightarrow> (nat \<times> bytes) option" where
  "answer_of x = (case snd x of Answered (Inr r) \<Rightarrow> Some (rp_status r, rp_body r) | _ \<Rightarrow> None)"

lemma answer_of_Some: "answer_of x = Some y \<Longrightarrow> \<exists>r. snd x = Answered (Inr r) \<and> y = (rp_status r, rp_body r)"
  by (auto simp: answer_of_def split: file_pc.splits sum.splits)

declare evict_loop.simps [code]

lemma demo_race_runs:
  "map_option (\<lambda>st. map answer_of (ss_requests st)) (site_acts demo_http (site_init demo_http 1) demo_race) =
   Some [Some (200, [8, 2, 1]), Some (200, [8, 2, 1])]"
  by code_simp

theorem replies_traced_witness:
  "\<exists>st r. site_acts demo_http (site_init demo_http 1) demo_race = Some st \<and>
     snd (ss_requests st ! 1) = Answered (Inr r) \<and> rp_body r = [8, 2, 1] \<and>
     traced demo_http (fs_log demo_http (site_init demo_http 1) demo_race) 1 demo_fr r"
proof -
  obtain st where st: "site_acts demo_http (site_init demo_http 1) demo_race = Some st"
    "length (ss_requests st) = 2"
    using demo_race_runs by (auto simp: length_Suc_conv numeral_2_eq_2)
  have "answer_of (ss_requests st ! 1) = Some (200, [8, 2, 1])"
    using demo_race_runs st nth_map [of 1 "ss_requests st" answer_of] by simp
  then obtain r where r: "snd (ss_requests st ! 1) = Answered (Inr r)" "rp_body r = [8, 2, 1]"
    using answer_of_Some by fastforce
  have "requests demo_race = [demo_fr, demo_fr]" by (simp add: demo_race_def)
  with replies_traced [OF demo_http_laws mb_ok_1 st(1) _ r(1)] st(1) r show ?thesis by fastforce
qed


section \<open>Every request is answered\<close>

fun file_rank :: "'h file_pc \<Rightarrow> nat" where
  "file_rank AtStat = 8"
| "file_rank (AtZstd t lm) = 7"
| "file_rank (AtBr t lm) = 6"
| "file_rank (AtOpen t lm) = 5"
| "file_rank (AtRead t lm h) = 4"
| "file_rank (AtCompress t lm z raw) = (if z = ZSTD then 3 else 2)"
| "file_rank (AtInsert t lm z c) = 1"
| "file_rank (Answered r) = 0"
| "file_rank Panicked = 0"

lemma file_rank_0: "file_rank pc = 0 \<longleftrightarrow> pc = Panicked \<or> (\<exists>r. pc = Answered r)"
  by (cases pc) simp_all

fun body_ok :: "'h file_pc \<Rightarrow> bool" where
  "body_ok (AtInsert t lm z c) = vec_ok c"
| "body_ok pc = True"

lemma BR_ZSTD [simp]: "BR \<noteq> ZSTD"
  by (simp add: BR_def ZSTD_def)

lemma file_rank_after [simp]:
  "file_rank (reply_with env fr lm enc d) = 0"
  "file_rank (after_zstd env fr t lm) \<le> 6"
  "file_rank (after_stat env fr m) \<le> 7"
  "file_rank (after_open env t lm h) \<le> 4"
  "file_rank (try_br env fr t lm raw) \<le> 2"
  by (auto simp: reply_with_def after_zstd_def after_stat_def after_open_def try_br_def split: option.split)

lemma file_rank_body [simp]:
  "file_rank (after_read env fr t lm raw) \<le> 3"
  "file_rank (after_compress env fr t lm z c r) \<le> (if z = ZSTD then 2 else Suc 0)"
  by (auto simp: after_read_def after_compress_def split: option.split
      intro: order.trans [OF file_rank_after(5)])

lemma body_ok_after [simp]:
  "body_ok (reply_with env fr lm enc d)" "body_ok (after_zstd env fr t lm)" "body_ok (after_stat env fr m)"
  "body_ok (after_open env t lm h)" "body_ok (try_br env fr t lm raw)" "body_ok (after_read env fr t lm r)"
  by (auto simp: reply_with_def after_zstd_def after_stat_def after_open_def try_br_def after_read_def
      split: option.split)

lemma body_ok_compress:
  assumes "http_laws env"
  shows "body_ok (after_compress env fr t lm z raw (compress env z raw))"
  using http_lawsD(3) [OF assms] by (auto simp: after_compress_def split: option.split)

text \<open>A step always ends, and brings its request closer to the answer.\<close>

lemma file_poll_progress:
  assumes "http_laws env" and "cache_inv (he_lru env) cc" and "body_ok pc"
  obtains pc' cc' where "file_poll env fs fr pc cc = Some (pc', cc')" "cache_inv (he_lru env) cc'"
    "body_ok pc'" "file_rank pc' \<le> file_rank pc - 1"
proof -
  note fc = http_file_cache [OF assms(1)]
  have get: "cache_inv (he_lru env) cc'" if "cache_get (he_lru env) p z t cc = (r, cc')" for p z t r cc'
    using file_cache.get_look [OF fc assms(2) that] by simp
  show thesis
  proof (cases pc)
    case (AtZstd t lm)
    obtain r cc' where g: "cache_get (he_lru env) (file_path_of fr) ZSTD t cc = (r, cc')" by fastforce
    then show thesis using that get [OF g] AtZstd by (cases r) auto
  next
    case (AtBr t lm)
    obtain r cc' where g: "cache_get (he_lru env) (file_path_of fr) BR t cc = (r, cc')" by fastforce
    then show thesis using that get [OF g] AtBr by (cases r) auto
  next
    case (AtInsert t lm z c)
    then obtain cc' where "cache_insert (he_lru env) (file_path_of fr) z t c cc = Some cc'"
      "cache_inv (he_lru env) cc'"
      using file_cache.ins_total [OF fc assms(2)] assms(3) by fastforce
    then show thesis using that AtInsert by auto
  next
    case (AtCompress t lm z raw)
    let ?pc = "after_compress env fr t lm z raw (compress env z raw)"
    have "file_rank ?pc \<le> file_rank pc - 1"
      using file_rank_body(2) [of env fr t lm z raw "compress env z raw"] AtCompress
      by (cases "z = ZSTD") simp_all
    then show thesis
      using that [of ?pc cc] assms(2) body_ok_compress [OF assms(1), of fr t lm z raw] AtCompress by simp
  qed (use that assms in auto)
qed


definition steps_ok :: "('c, 'h) http_env \<Rightarrow> ('c, 'h) site_state \<Rightarrow> bool" where
  "steps_ok env st \<longleftrightarrow> cache_inv (he_lru env) (ss_cache st) \<and> (\<forall>x \<in> set (ss_requests st). body_ok (snd x))"

fun polls_of :: "nat \<Rightarrow> site_act list \<Rightarrow> nat" where
  "polls_of i [] = 0"
| "polls_of i (Request fr # as) = polls_of i as"
| "polls_of i (Poll j fs # as) = (if j = i then 1 else 0) + polls_of i as"

lemma site_step_progress:
  assumes "http_laws env" and "steps_ok env st"
  obtains st' where "site_step env st x = Some st'" "steps_ok env st'"
    "length (ss_requests st') = length (ss_requests st) + length (requests [x])"
    "\<forall>i < length (ss_requests st).
       fst (ss_requests st' ! i) = fst (ss_requests st ! i) \<and>
       file_rank (snd (ss_requests st' ! i)) \<le> file_rank (snd (ss_requests st ! i)) - polls_of i [x]"
proof (cases x)
  case (Request fr)
  then show thesis
    using assms(2) by (intro that [of "st\<lparr>ss_requests := ss_requests st @ [(fr, AtStat)]\<rparr>"])
      (auto simp: steps_ok_def nth_append)
next
  case (Poll j fs)
  show thesis
  proof (cases "j < length (ss_requests st)")
    case False
    then show thesis using assms(2) Poll by (intro that [of st]) auto
  next
    case True
    obtain fr pc where pc: "ss_requests st ! j = (fr, pc)" by fastforce
    have ok: "cache_inv (he_lru env) (ss_cache st)" "body_ok pc"
      using assms(2) pc nth_mem [OF True] by (simp_all add: steps_ok_def) fastforce
    obtain pc' cc' where p: "file_poll env fs fr pc (ss_cache st) = Some (pc', cc')"
      "cache_inv (he_lru env) cc'" "body_ok pc'" "file_rank pc' \<le> file_rank pc - 1"
      using file_poll_progress [OF assms(1) ok] .
    show thesis
    proof (rule that [of "\<lparr>ss_requests = (ss_requests st)[j := (fr, pc')], ss_cache = cc'\<rparr>"])
      show "steps_ok env \<lparr>ss_requests = (ss_requests st)[j := (fr, pc')], ss_cache = cc'\<rparr>"
        using assms(2) p(2,3) by (auto simp: steps_ok_def dest!: subsetD [OF set_update_subset_insert])
    qed (use True pc p in \<open>auto simp: Poll nth_list_update\<close>)
  qed
qed

lemma site_acts_progress:
  assumes "http_laws env"
  shows "steps_ok env st \<Longrightarrow> \<exists>st'. site_acts env st as = Some st' \<and> steps_ok env st' \<and>
    length (ss_requests st') = length (ss_requests st) + length (requests as) \<and>
    (\<forall>i < length (ss_requests st).
       fst (ss_requests st' ! i) = fst (ss_requests st ! i) \<and>
       file_rank (snd (ss_requests st' ! i)) \<le> file_rank (snd (ss_requests st ! i)) - polls_of i as)"
proof (induction as arbitrary: st)
  case (Cons x as)
  obtain st1 where s1: "site_step env st x = Some st1" "steps_ok env st1"
    "length (ss_requests st1) = length (ss_requests st) + length (requests [x])"
    "\<forall>i < length (ss_requests st).
       fst (ss_requests st1 ! i) = fst (ss_requests st ! i) \<and>
       file_rank (snd (ss_requests st1 ! i)) \<le> file_rank (snd (ss_requests st ! i)) - polls_of i [x]"
    using site_step_progress [OF assms Cons.prems, of x] .
  obtain st2 where s2: "site_acts env st1 as = Some st2" "steps_ok env st2"
    "length (ss_requests st2) = length (ss_requests st1) + length (requests as)"
    "\<forall>i < length (ss_requests st1). fst (ss_requests st2 ! i) = fst (ss_requests st1 ! i) \<and>
       file_rank (snd (ss_requests st2 ! i)) \<le> file_rank (snd (ss_requests st1 ! i)) - polls_of i as"
    using Cons.IH [OF s1(2)] by blast
  have count: "polls_of i (x # as) = polls_of i [x] + polls_of i as" "length (requests (x # as)) =
      length (requests [x]) + length (requests as)" for i
    by (cases x; simp)+
  have "fst (ss_requests st2 ! i) = fst (ss_requests st ! i) \<and>
      file_rank (snd (ss_requests st2 ! i)) \<le> file_rank (snd (ss_requests st ! i)) - polls_of i (x # as)"
    if "i < length (ss_requests st)" for i
    using s1(3,4) s2(4) that count(1) [of i] by (smt (verit) diff_diff_left diff_le_mono le_trans trans_less_add1)
  then show ?case using s1 s2 count(2) by auto
qed simp

text \<open>C32: no request waits for ever. Whatever the other requests and the file system do, every step ends,
  the cache keeps its invariant, and a request that has made eight steps is over: it was
  answered, unless its file's date could not be printed.\<close>

theorem requests_settle:
  assumes "http_laws env" and "mb_ok mb"
  shows "\<exists>st fr' pc. site_acts env (site_init env mb) (pre @ Request fr # post) = Some st \<and>
    cache_inv (he_lru env) (ss_cache st) \<and> ss_requests st ! length (requests pre) = (fr', pc) \<and> fr' = fr \<and>
    (8 \<le> polls_of (length (requests pre)) post \<longrightarrow> pc = Panicked \<or> (\<exists>r. pc = Answered r))"
proof -
  have "steps_ok env (site_init env mb)"
    using site_inv_new [OF assms] by (simp add: steps_ok_def site_init_def site_inv_def)
  then obtain st1 where s1: "site_acts env (site_init env mb) pre = Some st1" "steps_ok env st1"
    "length (ss_requests st1) = length (requests pre)"
    using site_acts_progress [OF assms(1), of "site_init env mb" pre] by (auto simp: site_init_def)
  define st2 where "st2 = st1\<lparr>ss_requests := ss_requests st1 @ [(fr, AtStat)]\<rparr>"
  have s2: "site_step env st1 (Request fr) = Some st2" "steps_ok env st2"
    "ss_requests st2 ! length (requests pre) = (fr, AtStat)" "length (requests pre) < length (ss_requests st2)"
    using s1(2,3) by (auto simp: st2_def steps_ok_def nth_append)
  obtain st where st: "site_acts env st2 post = Some st" "steps_ok env st"
    "fst (ss_requests st ! length (requests pre)) = fr"
    "file_rank (snd (ss_requests st ! length (requests pre))) \<le> 8 - polls_of (length (requests pre)) post"
    using site_acts_progress [OF assms(1) s2(2), of post] s2(3,4) by auto
  show ?thesis
    using s1(1) s2(1) st by (cases "ss_requests st ! length (requests pre)")
      (auto simp: site_acts_append steps_ok_def file_rank_0)
qed

theorem requests_settle_witness:
  "\<exists>st fr' pc. site_acts demo_http (site_init demo_http 1)
       ([] @ Request demo_fr # map (Poll 0) (replicate 8 (demo_fs 7000000000))) = Some st \<and>
     ss_requests st ! 0 = (fr', pc) \<and> (pc = Panicked \<or> (\<exists>r. pc = Answered r))"
proof -
  have "8 \<le> polls_of 0 (map (Poll 0) (replicate 8 (demo_fs 7000000000)))"
    by (simp add: numeral_eq_Suc)
  then show ?thesis
    using requests_settle [OF demo_http_laws mb_ok_1, of "[]" demo_fr "map (Poll 0) (replicate 8 (demo_fs 7000000000))"]
    by (auto simp del: site_acts.simps polls_of.simps)
qed


section \<open>What the trace leaves open\<close>

text \<open>A new cache misses; what is then inserted is found, if its size allows it.\<close>

lemma miss_insert_hit:
  assumes "http_laws env" and "mb_ok mb" and "0 < mb" and "length c \<le> unat MAX_FILE_SIZE"
    and "length c \<le> unat mb * 2 ^ 20"
  obtains cc1 cc2 cc3 where "cache_get (he_lru env) p z t (cache_new (he_lru env) mb) = (None, cc1)"
    "cache_insert (he_lru env) p z t c cc1 = Some cc2" "cache_get (he_lru env) p z t cc2 = (Some c, cc3)"
proof -
  note lru = http_lawsD(1) [OF assms(1)]
  let ?ops = "he_lru env" and ?cc = "cache_new (he_lru env) mb"
  have inv: "cache_inv ?ops ?cc" by (rule lru_cache.inv_new [OF lru assms(2)])
  have cc: "cc_cache ?cc \<noteq> None" "cc_current_size ?cc = 0" "unat (cc_max_size ?cc) = unat mb * 2 ^ 20"
    using assms(3) unat_mult_MB [OF assms(2)] by (simp_all add: cache_new_def Let_def)
  obtain r cc1 where g: "cache_get ?ops p z t ?cc = (r, cc1)" by fastforce
  have r: "r = None" and keeps: "cache_keeps ?ops ?cc cc1" "cache_leak ?ops cc1 = 0"
    using lru_cache.get_result(1,4) [OF lru inv g] lru_cache.get_keeps [OF lru inv, of p z t] g cc(2)
      new_cache_empty [OF assms(1)] by (simp_all add: cache_leak_def)
  have inv1: "cache_inv ?ops cc1" "cc_cache cc1 \<noteq> None" "unat (cc_max_size cc1) = unat mb * 2 ^ 20"
    using keeps(1) cc by (auto simp: cache_keeps_def)
  have v: "vec_ok c" using assms(4) MAX_FILE_SIZE_val by (simp add: vec_ok_def)
  obtain cc2 where ins: "cache_insert ?ops p z t c cc1 = Some cc2" and inv2: "cache_inv ?ops cc2"
    using lru_cache.insert_keeps [OF lru inv1(1) v, of p z t] cache_keeps_inv by blast
  obtain r2 cc3 where g2: "cache_get ?ops p z t cc2 = (r2, cc3)" by fastforce
  have "r2 = Some c"
    using lru_cache.get_result(1) [OF lru inv2 g2] lru_cache.insert_lookup_same [OF lru inv1(1,2) assms(4) ins]
      keeps(2) inv1(3) assms(5) by simp
  then show thesis using that g r ins g2 by blast
qed

text \<open>The first request sees the old time and reads the new contents; the second one comes when the old
  file is back.\<close>

definition rollback_run :: "file_system \<Rightarrow> file_system \<Rightarrow> file_system \<Rightarrow> file_request \<Rightarrow> site_act list" where
  "rollback_run old new back fr =
     [Request fr, Poll 0 old, Poll 0 old, Poll 0 new, Poll 0 new, Poll 0 new, Poll 0 new,
      Request fr, Poll 1 back, Poll 1 back]"

text \<open>C33: the contents may be newer than the time they are cached under. A request looks at the modification
  time, the file is replaced, the request opens and reads it, and the compressed new contents enter the cache
  under the old time. If then the old file is put back with its time, as \<^verbatim>\<open>cp -p\<close>, \<^verbatim>\<open>tar\<close> or \<^verbatim>\<open>rsync -t\<close>
  do, the next request is answered 200 from the cache with the contents that are no longer there.\<close>

theorem stale_body_after_rollback:
  assumes "http_laws env" and "mb_ok mb" and "0 < mb"
    and "fr_host fr = fr_domain fr" and "want env fr ZSTD" and "\<not> want env fr BR"
    and "fs_meta old (file_path_of fr) = Some m" and "fs_meta back (file_path_of fr) = Some m"
    and "he_fmt_date env (mtime m) = Some lm" and "\<not> not_modified env (fr_ims fr) (mtime m)"
    and "fs_read new (file_path_of fr) = Contents raw" and "compress env ZSTD raw = Some c"
    and "length c \<le> unat MAX_FILE_SIZE" and "length c \<le> unat mb * 2 ^ 20"
    and "fs_read back (file_path_of fr) = Contents raw'" and "compress env ZSTD raw' \<noteq> Some c"
  shows "\<exists>st r. site_acts env (site_init env mb) (rollback_run old new back fr) = Some st \<and>
     snd (ss_requests st ! 1) = Answered (Inr r) \<and> rp_status r = 200 \<and> rp_body r = c \<and>
     declares (he_hdr env) r (Some ZSTD) \<and> (\<forall>enc. declares (he_hdr env) r enc \<longrightarrow> \<not> stands_for env fr raw' enc c)"
proof -
  obtain cc1 cc2 cc3 where cc: "cache_get (he_lru env) (file_path_of fr) ZSTD (mtime m) (cache_new (he_lru env) mb) = (None, cc1)"
    "cache_insert (he_lru env) (file_path_of fr) ZSTD (mtime m) c cc1 = Some cc2"
    "cache_get (he_lru env) (file_path_of fr) ZSTD (mtime m) cc2 = (Some c, cc3)"
    using miss_insert_hit [OF assms(1-3,13,14)] .
  obtain h where h: "fs_open new (file_path_of fr) = Some h" "fs_contents new h = Some raw"
    using assms(11) by (auto simp: fs_read_def split: option.splits)
  let ?r = "file_reply env (content_type env (file_path_of fr)) lm (Some ZSTD) (fr_cors fr) c"
  have run: "site_acts env (site_init env mb) (rollback_run old new back fr) =
      Some \<lparr>ss_requests = [(fr, Answered (Inr ?r)), (fr, Answered (Inr ?r))], ss_cache = cc3\<rparr>"
    using assms(4-10,12) cc h
    by (simp add: rollback_run_def site_init_def after_stat_def after_zstd_def after_open_def after_read_def
        after_compress_def reply_with_def)
  have lm: "list_all value_char lm" by (rule http_lawsD(4) [OF assms(1,9)])
  note tx = http_lawsD(5) [OF assms(1), of "file_path_of fr"] lm
  have r: "rp_status ?r = 200" "rp_body ?r = c" "declares (he_hdr env) ?r (Some ZSTD)"
    using file_reply_ok(1,2) [OF assms(1) tx _ refl, of "Some ZSTD"] file_reply_declares [OF assms(1) tx, of "Some ZSTD"]
    by simp_all
  have "\<not> stands_for env fr raw' enc c" if "declares (he_hdr env) ?r enc" for enc
    using that r(3) assms(16) by (auto simp: stands_for_def declares_def split: option.splits)
  with run r show ?thesis by auto
qed

theorem stale_body_after_rollback_witness:
  "\<exists>st r. site_acts demo_http (site_init demo_http 1)
       (rollback_run (demo_fs 7000000000) (demo_fs 8000000000) (demo_fs 7000000000) demo_fr) = Some st \<and>
     snd (ss_requests st ! 1) = Answered (Inr r) \<and> rp_body r = [8, 2, 1] \<and>
     \<not> stands_for demo_http demo_fr (demo_content demo_path 7000000000) (Some ZSTD) (rp_body r)"
proof -
  have w: "want demo_http demo_fr ZSTD" "\<not> want demo_http demo_fr BR" "fr_host demo_fr = fr_domain demo_fr"
    "\<not> not_modified demo_http (fr_ims demo_fr) (mtime (Some 7000000000))"
    "he_fmt_date demo_http (mtime (Some 7000000000)) = Some ''date''"
    "compress demo_http ZSTD (demo_content demo_path 8000000000) = Some [8, 2, 1]"
    "compress demo_http ZSTD (demo_content demo_path 7000000000) \<noteq> Some [8, 2, 1]"
    by code_simp+
  have sz: "length ([8, 2, 1] :: bytes) \<le> unat MAX_FILE_SIZE" "length ([8, 2, 1] :: bytes) \<le> unat (1 :: usize) * 2 ^ 20"
    by (simp_all add: MAX_FILE_SIZE_val)
  show ?thesis
    using stale_body_after_rollback [OF demo_http_laws mb_ok_1 _ w(3,1,2) demo_meta(1) demo_meta(1) w(5,4)
        demo_meta(2) w(6) sz demo_meta(2) w(7)]
    by (auto simp del: site_acts.simps)
qed

end
