(* ===== verification/Server_Run.thy ===== *)
theory Server_Run
  imports Front_Door Http_Concurrent
begin

text \<open>
  The running server: the ports and their connections (\<^verbatim>\<open>Front_Door\<close>), the WebSocket service
  (\<^verbatim>\<open>Ws_System\<close>) and the file requests (\<^verbatim>\<open>Http_Concurrent\<close>) in one state. A connection of the TLS port
  serves requests until one of them upgrades it; from then on it is a connection of the service, and
  its stream is dropped when the tasks of that connection have let go of it.

  A run of the server is by its construction a run of each part, so that what holds for the
  parts holds in the server. Shown: every WebSocket that holds its stream belongs to exactly one
  accepted connection, which bounds the WebSockets of a source, and what waits in their queues, by the
  cap.
\<close>

section \<open>State and steps\<close>

text \<open>The second component of a TLS connection is the number of its connection in the service, once it
  was upgraded.\<close>

record ('g, 'c, 'h, 'm) server_run =
  rv_rate :: "'g option"
  rv_tls_limiter :: per_ip_limiter
  rv_tls :: "(permitted_stream \<times> nat option) list"
  rv_http_limiter :: per_ip_limiter
  rv_http :: "permitted_stream list"
  rv_ws :: "'m ws_system"
  rv_site :: "('c, 'h) site_state"

definition server_init ::
  "('q, 'g) gov_ops \<Rightarrow> u32 \<Rightarrow> u32 option \<Rightarrow> ('c, 'h) http_env \<Rightarrow> usize \<Rightarrow> ('g, 'c, 'h, 'm) server_run" where
  "server_init gv per_ip_conn_limit rate_limit henv max_cache_size_mb =
     \<lparr>rv_rate = map_option (create_rate_limiter gv) rate_limit,
      rv_tls_limiter = limiter_new per_ip_conn_limit, rv_tls = [],
      rv_http_limiter = limiter_new per_ip_conn_limit, rv_http = [],
      rv_ws = sys_init, rv_site = site_init henv max_cache_size_mb\<rparr>"

datatype ('e, 'm) server_act =
    SvTls "'e + tcp_stream"
  | SvTlsEnds nat
  | SvUpgrade nat
  | SvWs "'m sys_act"
  | SvRequest nat file_request
  | SvPoll nat file_system
  | SvHttp "'e + tcp_stream"
  | SvHttpEnds nat
  | SvSweep
  | SvWait nat

text \<open>The parts the steps need: the limiter, the environment of a connection, the loop's limits, the
  web server.\<close>

record ('q, 'g, 'k, 'm, 'c, 'h) server_env =
  se_gov :: "('q, 'g) gov_ops"
  se_conn :: "('k, 'm) conn_env"
  se_loop :: loop_cfg
  se_http :: "('c, 'h) http_env"

definition let_go :: "'m ws_system \<Rightarrow> nat option \<Rightarrow> bool" where
  "let_go ws u = (case u of None \<Rightarrow> True | Some j \<Rightarrow> \<not> holds_stream (sy_conns ws ! j))"

definition idle :: "('g, 'c, 'h, 'm) server_run \<Rightarrow> nat \<Rightarrow> bool" where
  "idle st i \<longleftrightarrow> i < length (rv_tls st) \<and> snd (rv_tls st ! i) = None"

text \<open>None: the action cannot happen, or it never ends.\<close>

fun server_step ::
  "('q, 'g, 'k, 'm, 'c, 'h) server_env \<Rightarrow> ('g, 'c, 'h, 'm) server_run \<Rightarrow> ('e, 'm) server_act \<Rightarrow>
   ('g, 'c, 'h, 'm) server_run option" where
  "server_step se st (SvTls conn) =
     (case admit (gv_check (se_gov se)) (rv_rate st) (rv_tls_limiter st) conn of
        (rate, lim, new) \<Rightarrow>
          Some (st\<lparr>rv_rate := rate, rv_tls_limiter := lim, rv_tls := rv_tls st @ map (\<lambda>ps. (ps, None)) new\<rparr>))"
| "server_step se st (SvTlsEnds i) =
     (if i < length (rv_tls st) \<and> let_go (rv_ws st) (snd (rv_tls st ! i))
      then Some (st\<lparr>rv_tls_limiter := permit_drop (rv_tls_limiter st) (ps_permit (fst (rv_tls st ! i))),
                    rv_tls := take i (rv_tls st) @ drop (Suc i) (rv_tls st)\<rparr>)
      else None)"
| "server_step se st (SvUpgrade i) =
     (if idle st i
      then map_option
             (\<lambda>(ws, tr). st\<lparr>rv_tls := (rv_tls st)[i := (fst (rv_tls st ! i), Some (length (sy_conns (rv_ws st))))],
                           rv_ws := ws\<rparr>)
             (sys_step (se_conn se) (se_loop se) (rv_ws st) Connect)
      else None)"
| "server_step se st (SvWs a) =
     (case a of
        Connect \<Rightarrow> None
      | _ \<Rightarrow> map_option (\<lambda>(ws, tr). st\<lparr>rv_ws := ws\<rparr>) (sys_step (se_conn se) (se_loop se) (rv_ws st) a))"
| "server_step se st (SvRequest i fr) =
     (if idle st i
      then map_option (\<lambda>site. st\<lparr>rv_site := site\<rparr>) (site_step (se_http se) (rv_site st) (Request fr))
      else None)"
| "server_step se st (SvPoll k fs) =
     map_option (\<lambda>site. st\<lparr>rv_site := site\<rparr>) (site_step (se_http se) (rv_site st) (Poll k fs))"
| "server_step se st (SvHttp conn) =
     (case admit (gv_check (se_gov se)) (rv_rate st) (rv_http_limiter st) conn of
        (rate, lim, new) \<Rightarrow>
          Some (st\<lparr>rv_rate := rate, rv_http_limiter := lim, rv_http := rv_http st @ new\<rparr>))"
| "server_step se st (SvHttpEnds i) =
     (if i < length (rv_http st)
      then Some (st\<lparr>rv_http_limiter := permit_drop (rv_http_limiter st) (ps_permit (rv_http st ! i)),
                    rv_http := take i (rv_http st) @ drop (Suc i) (rv_http st)\<rparr>)
      else None)"
| "server_step se st SvSweep = Some (st\<lparr>rv_rate := map_option (gv_retain (se_gov se)) (rv_rate st)\<rparr>)"
| "server_step se st (SvWait n) = Some (st\<lparr>rv_rate := map_option (gv_wait (se_gov se) n) (rv_rate st)\<rparr>)"

fun server_acts ::
  "('q, 'g, 'k, 'm, 'c, 'h) server_env \<Rightarrow> ('g, 'c, 'h, 'm) server_run \<Rightarrow> ('e, 'm) server_act list \<Rightarrow>
   ('g, 'c, 'h, 'm) server_run option" where
  "server_acts se st [] = Some st"
| "server_acts se st (a # as) =
     (case server_step se st a of None \<Rightarrow> None | Some st' \<Rightarrow> server_acts se st' as)"

section \<open>The parts of a run\<close>

text \<open>What the server's actions are for the WebSocket service, for the files, and for the listeners.\<close>

fun ws_acts :: "('e, 'm) server_act list \<Rightarrow> 'm sys_act list" where
  "ws_acts [] = []"
| "ws_acts (SvUpgrade i # as) = Connect # ws_acts as"
| "ws_acts (SvWs a # as) = a # ws_acts as"
| "ws_acts (_ # as) = ws_acts as"

fun file_acts :: "('e, 'm) server_act list \<Rightarrow> site_act list" where
  "file_acts [] = []"
| "file_acts (SvRequest i fr # as) = Request fr # file_acts as"
| "file_acts (SvPoll k fs # as) = Poll k fs # file_acts as"
| "file_acts (_ # as) = file_acts as"

fun port_act :: "('e, 'm) front_act \<Rightarrow> bool" where
  "port_act (Upgrades i) = False"
| "port_act (WsAct i j a) = False"
| "port_act _ = True"

fun port_acts :: "('e, 'm) server_act list \<Rightarrow> ('e, 'm) front_act list" where
  "port_acts [] = []"
| "port_acts (SvTls c # as) = TlsItem c # port_acts as"
| "port_acts (SvTlsEnds i # as) = TlsEnds i # port_acts as"
| "port_acts (SvHttp c # as) = HttpItem c # port_acts as"
| "port_acts (SvHttpEnds i # as) = HttpEnds i # port_acts as"
| "port_acts (SvSweep # as) = Retain # port_acts as"
| "port_acts (SvWait n # as) = Wait n # port_acts as"
| "port_acts (_ # as) = port_acts as"

text \<open>The ports as \<^verbatim>\<open>Front_Door\<close> sees them: a connection of the service with its state.\<close>

definition use_of :: "'m ws_conn list \<Rightarrow> nat option \<Rightarrow> 'm conn_use" where
  "use_of conns u = (case u of None \<Rightarrow> Plain | Some j \<Rightarrow> Socket (conns ! j))"

definition uses :: "'m ws_conn list \<Rightarrow> (permitted_stream \<times> nat option) list \<Rightarrow> (permitted_stream \<times> 'm conn_use) list" where
  "uses conns xs = map (\<lambda>(ps, u). (ps, use_of conns u)) xs"

definition front_of :: "('g, 'c, 'h, 'm) server_run \<Rightarrow> ('g, 'm) front_state" where
  "front_of st =
     \<lparr>fd_rate = rv_rate st, fd_tls_limiter = rv_tls_limiter st, fd_tls = uses (sy_conns (rv_ws st)) (rv_tls st),
      fd_http_limiter = rv_http_limiter st, fd_http = rv_http st\<rparr>"

section \<open>The sockets of the connections\<close>

definition socks :: "(permitted_stream \<times> nat option) list \<Rightarrow> nat list" where
  "socks xs = List.map_filter snd xs"

lemma socks_simps [simp]:
  "socks [] = []" "socks ((ps, None) # xs) = socks xs" "socks ((ps, Some j) # xs) = j # socks xs"
  "socks (xs @ ys) = socks xs @ socks ys" "socks (map (\<lambda>ps. (ps, None)) pss) = []"
  by (simp_all add: socks_def List.map_filter_def)

lemma socks_set: "j \<in> set (socks xs) \<longleftrightarrow> (\<exists>ps. (ps, Some j) \<in> set xs)"
  by (force simp: socks_def List.map_filter_def)

text \<open>Every socket number names a connection of the service and occurs once; the connections of the service
  that no accepted connection names have let go of their stream. Queues are within their bound.\<close>

definition server_inv :: "('g, 'c, 'h, 'm) server_run \<Rightarrow> bool" where
  "server_inv st \<longleftrightarrow>
     distinct (socks (rv_tls st)) \<and> (\<forall>j \<in> set (socks (rv_tls st)). j < length (sy_conns (rv_ws st))) \<and>
     (\<forall>j < length (sy_conns (rv_ws st)). j \<notin> set (socks (rv_tls st)) \<longrightarrow> \<not> holds_stream (sy_conns (rv_ws st) ! j)) \<and>
     (\<forall>c \<in> set (sy_conns (rv_ws st)). length (c_queue c) \<le> WS_BUF)"

lemma let_go_trans:
  assumes "\<not> holds_stream s" and "conn_trans env s a s' out"
  shows "\<not> holds_stream s'"
  using assms(2)
proof (cases rule: conn_trans.cases)
  case (t_ping t)
  with assms(1) queue_send_fields [OF t_ping(5)] show ?thesis
    by (simp add: holds_stream_def pg_count_def pg_head_def Let_def)
next
  case (t_ping_err t)
  with assms(1) queue_send_fields [OF t_ping_err(5)] show ?thesis by (simp add: holds_stream_def)
next
  case (t_pg_end t sent)
  with assms(1) queue_send_fields [OF t_pg_end(5)] show ?thesis by (simp add: holds_stream_def)
next
  case (t_loop_send m sent)
  with assms(1) queue_send_fields [OF t_loop_send(4)] show ?thesis by (simp add: holds_stream_def)
qed (use assms(1) in \<open>auto simp: holds_stream_def pg_head_def tx_cleanup_def\<close>)

lemma queue_send_bound:
  "queue_send item s = Some (t, sent) \<Longrightarrow> length (c_queue s) \<le> WS_BUF \<Longrightarrow> length (c_queue t) \<le> WS_BUF"
  by (erule queue_send_cases) auto

lemma queue_bound_trans:
  assumes "length (c_queue s) \<le> WS_BUF" and "conn_trans env s a s' out"
  shows "length (c_queue s') \<le> WS_BUF"
  using assms(2)
proof (cases rule: conn_trans.cases)
  case (t_first m)
  then show ?thesis using assms(1)
    by (cases rule: rx_first_cases [of env m s]) (auto simp: rx_fail_def rx_return_def identify_def)
next
  case (t_loop m)
  then show ?thesis using assms(1) by (simp add: rx_loop_def rx_finish_def rx_return_def Let_def)
next
  case (t_rx_queue item t sent)
  then show ?thesis using queue_send_bound [OF t_rx_queue(5) assms(1)] by (simp add: rx_return_def)
next
  case (t_ping t)
  then show ?thesis using queue_send_bound [OF t_ping(5) assms(1)] by (simp add: pg_count_def pg_head_def Let_def)
next
  case (t_ping_err t)
  then show ?thesis using queue_send_bound [OF t_ping_err(5) assms(1)] by simp
next
  case (t_pg_end t sent)
  then show ?thesis using queue_send_bound [OF t_pg_end(5) assms(1)] by simp
next
  case (t_loop_send m sent)
  then show ?thesis using queue_send_bound [OF t_loop_send(4) assms(1)] by simp
qed (use assms(1) in \<open>auto simp: pg_head_def tx_cleanup_def rx_fail_def rx_finish_def rx_return_def\<close>)

text \<open>A step of the service other than a new connection is a step of at most one connection.\<close>

lemma sys_step_one_conn:
  assumes "sys_step env cfg s act = Some (s', tr)" and "act \<noteq> Connect"
  obtains (none) "sy_conns s' = sy_conns s"
    | (one) j a c out where "j < length (sy_conns s)"
        "conn_step (env_at env j) (sy_conns s ! j) a = Some (c, out)" "sy_conns s' = (sy_conns s)[j := c]"
  using assms(1)
proof (cases rule: sys_step_cases)
  case connect
  with assms show thesis by (cases act) (auto simp: poke_def split: if_splits option.splits list.splits prod.splits
      dest: arg_cong [where f = "\<lambda>s. length (sy_conns s)"])
next
  case (conn i a c out)
  then show thesis using one [of i a c out] by simp
next
  case (take e chan t1 t2 r)
  from take(3) show thesis
  proof (cases rule: release_cases)
    case same
    then show thesis using none take(4) by simp
  next
    case (forget h ch i c out)
    then show thesis using one [of i LoopForget c out] take(4) by simp
  qed
next
  case (clean now)
  then show thesis using none by simp
next
  case (perform x todo c out)
  then show thesis using one [OF perform(2,3)] by simp
qed

section \<open>A step of the server is a step of its parts\<close>

lemma uses_append [simp]: "uses conns (xs @ ys) = uses conns xs @ uses conns ys"
  by (simp add: uses_def)

lemma length_uses [simp]: "length (uses conns xs) = length xs"
  by (simp add: uses_def)

lemma uses_nth: "i < length xs \<Longrightarrow> uses conns xs ! i = (fst (xs ! i), use_of conns (snd (xs ! i)))"
  by (simp add: uses_def case_prod_unfold)

lemma uses_take_drop: "take i (uses conns xs) @ drop (Suc i) (uses conns xs) = uses conns (take i xs @ drop (Suc i) xs)"
  by (simp add: uses_def take_map drop_map)

lemma uses_new [simp]: "uses conns (map (\<lambda>ps. (ps, None)) new) = map (\<lambda>ps. (ps, Plain)) new"
  by (simp add: uses_def use_of_def)

lemma uses_cong:
  assumes "\<And>j. j \<in> set (socks xs) \<Longrightarrow> conns ! j = conns' ! j"
  shows "uses conns xs = uses conns' xs"
proof -
  have "use_of conns u = use_of conns' u" if "(ps, u) \<in> set xs" for ps u
    using that assms socks_set by (cases u) (auto simp: use_of_def)
  then show ?thesis by (auto simp: uses_def)
qed

lemma may_end_use: "may_end (use_of (sy_conns ws) u) \<longleftrightarrow> let_go ws u"
  by (cases u) (simp_all add: use_of_def let_go_def)

text \<open>A step of one connection of the service, seen at the port.\<close>

lemma uses_step:
  assumes "distinct (socks xs)" and "j < length conns"
    and "conn_step (env_at env j) (conns ! j) a = Some (c, out)"
  shows "uses (conns[j := c]) xs = uses conns xs \<or>
    (\<exists>i. uses (conns[j := c]) xs = change_use i (ws_act (env_at env j) a) (uses conns xs))"
proof (cases "j \<in> set (socks xs)")
  case False
  have "uses (conns[j := c]) xs = uses conns xs"
    by (rule uses_cong) (use False in \<open>metis nth_list_update_neq\<close>)
  then show ?thesis ..
next
  case True
  then obtain as ps bs where xs: "xs = as @ (ps, Some j) # bs"
    using socks_set by (metis split_list)
  have other: "uses (conns[j := c]) ys = uses conns ys" if "j \<notin> set (socks ys)" for ys
    by (rule uses_cong) (use that in \<open>metis nth_list_update_neq\<close>)
  have "j \<notin> set (socks as)" "j \<notin> set (socks bs)" using assms(1) by (auto simp: xs)
  then have "uses (conns[j := c]) xs = uses conns as @ (ps, Socket c) # uses conns bs"
    using other assms(2) by (simp add: xs) (simp add: uses_def use_of_def)
  moreover have "uses conns xs = uses conns as @ (ps, Socket (conns ! j)) # uses conns bs"
    by (simp add: xs) (simp add: uses_def use_of_def)
  ultimately have "uses (conns[j := c]) xs = change_use (length as) (ws_act (env_at env j) a) (uses conns xs)"
    using assms(3) by (simp add: change_use_def ws_act_def nth_append list_update_append)
  then show ?thesis by blast
qed


lemma server_invD:
  assumes "server_inv st"
  shows "distinct (socks (rv_tls st))" and "j \<in> set (socks (rv_tls st)) \<Longrightarrow> j < length (sy_conns (rv_ws st))"
    and "j < length (sy_conns (rv_ws st)) \<Longrightarrow> j \<notin> set (socks (rv_tls st)) \<Longrightarrow> \<not> holds_stream (sy_conns (rv_ws st) ! j)"
    and "c \<in> set (sy_conns (rv_ws st)) \<Longrightarrow> length (c_queue c) \<le> WS_BUF"
  using assms by (auto simp: server_inv_def)

lemma server_inv_frame:
  "server_inv st \<Longrightarrow> socks (rv_tls st') = socks (rv_tls st) \<Longrightarrow> sy_conns (rv_ws st') = sy_conns (rv_ws st) \<Longrightarrow>
   server_inv st'"
  by (simp add: server_inv_def)

lemma server_inv_conn:
  assumes "server_inv st" and "conn_step env (sy_conns (rv_ws st) ! j) a = Some (c, out)"
    and "j < length (sy_conns (rv_ws st))"
    and "sy_conns ws = (sy_conns (rv_ws st))[j := c]"
  shows "server_inv (st\<lparr>rv_ws := ws\<rparr>)"
proof -
  note tr = conn_step_trans [OF assms(2)]
  have "\<not> holds_stream (sy_conns ws ! i)" if "i < length (sy_conns ws)" "i \<notin> set (socks (rv_tls st))" for i
    using that assms(3,4) server_invD(3) [OF assms(1), of i] let_go_trans [OF _ tr] by (cases "i = j") auto
  moreover have "length (c_queue c) \<le> WS_BUF"
    using queue_bound_trans [OF _ tr] server_invD(4) [OF assms(1)] assms(3) nth_mem by blast
  ultimately show ?thesis
    using server_invD(1,2,4) [OF assms(1)] assms(4)
    by (auto simp: server_inv_def dest!: subsetD [OF set_update_subset_insert])
qed

lemma front_run_one: "front_step gv env st a = st' \<Longrightarrow> front_run gv env st [a] = st'"
  by simp

definition follows ::
  "('q, 'g, 'k, 'm, 'c, 'h) server_env \<Rightarrow> ('g, 'c, 'h, 'm) server_run \<Rightarrow> ('e, 'm) server_act list \<Rightarrow>
   ('g, 'c, 'h, 'm) server_run \<Rightarrow> bool" where
  "follows se st as st' \<longleftrightarrow>
     (\<exists>fas. filter port_act fas = port_acts as \<and> front_run (se_gov se) (se_conn se) (front_of st) fas = front_of st') \<and>
     (\<exists>tr. sys_run (se_conn se) (se_loop se) (rv_ws st) (ws_acts as) = Some (rv_ws st', tr)) \<and>
     site_acts (se_http se) (rv_site st) (file_acts as) = Some (rv_site st')"

lemma followsI:
  assumes "filter port_act fas = port_acts as" "front_run (se_gov se) (se_conn se) (front_of st) fas = front_of st'"
    "sys_run (se_conn se) (se_loop se) (rv_ws st) (ws_acts as) = Some (rv_ws st', tr)"
    "site_acts (se_http se) (rv_site st) (file_acts as) = Some (rv_site st')"
  shows "follows se st as st'"
  using assms by (auto simp: follows_def)

lemma server_step_ws:
  assumes "server_inv st" and "server_step se st (SvWs b) = Some st'"
  shows "server_inv st' \<and> follows se st [SvWs b :: ('e, 'm) server_act] st'"
proof -
  obtain ws tr where s: "sys_step (se_conn se) (se_loop se) (rv_ws st) b = Some (ws, tr)" "st' = st\<lparr>rv_ws := ws\<rparr>"
    and b: "b \<noteq> Connect"
    using assms(2) by (auto split: sys_act.splits)
  have "server_inv st' \<and> (\<exists>fas. filter port_act fas = ([] :: ('e, 'm) front_act list) \<and>
      front_run (se_gov se) (se_conn se) (front_of st) fas = front_of st')"
    using s(1) b
  proof (cases rule: sys_step_one_conn)
    case none
    then have "server_inv st'" "front_of st' = front_of st"
      using server_inv_frame [OF assms(1), of st'] by (simp_all add: s(2) front_of_def)
    then show ?thesis by (auto intro: exI [of _ "[]"])
  next
    case (one j a c out)
    then have inv: "server_inv st'" using server_inv_conn [OF assms(1)] s(2) by simp
    let ?f = "front_of st"
    have "front_of st' = ?f \<or> (\<exists>i. front_of st' = front_step (se_gov se) (se_conn se) ?f (WsAct i j a :: ('e, 'm) front_act))"
      using uses_step [OF server_invD(1) [OF assms(1)] one(1,2)] by (auto simp: s(2) front_of_def one(3))
    then obtain fas :: "('e, 'm) front_act list" where "filter port_act fas = []"
      "front_run (se_gov se) (se_conn se) ?f fas = front_of st'"
    proof (elim disjE exE)
      assume "front_of st' = ?f"
      then show thesis using that [of "[]"] by simp
    next
      fix i
      assume "front_of st' = front_step (se_gov se) (se_conn se) ?f (WsAct i j a :: ('e, 'm) front_act)"
      then show thesis using that [of "[WsAct i j a]"] by simp
    qed
    with inv show ?thesis by blast
  qed
  moreover have "sys_run (se_conn se) (se_loop se) (rv_ws st) [b] = Some (rv_ws st', tr)"
    using s by simp
  ultimately show ?thesis by (auto simp: follows_def s(2))
qed


lemma server_step_upgrade:
  assumes "server_inv st" and "server_step se st (SvUpgrade i) = Some st'"
  shows "server_inv st' \<and> follows se st [SvUpgrade i :: ('e, 'm) server_act] st'"
proof -
  let ?conns = "sy_conns (rv_ws st)"
  let ?n = "length ?conns"
  obtain as ps bs where xs: "rv_tls st = as @ (ps, None) # bs" and i: "i = length as"
    using assms(2) id_take_nth_drop [of i "rv_tls st"] unfolding server_step.simps idle_def
    by (metis (no_types, lifting) length_take less_imp_le min_absorb2 option.distinct(1) prod.collapse)
  have st': "st' = st\<lparr>rv_tls := as @ (ps, Some ?n) # bs, rv_ws := (rv_ws st)\<lparr>sy_conns := ?conns @ [conn_init]\<rparr>\<rparr>"
    using assms(2) by (simp add: xs i idle_def list_update_append nth_append)
  have lt: "j < ?n" if "j \<in> set (socks as) \<union> set (socks bs)" for j
    using server_invD(2) [OF assms(1), of j] that by (auto simp: xs)
  have inv: "server_inv st'"
  proof -
    have "distinct (socks (rv_tls st'))"
      using server_invD(1) [OF assms(1)] lt by (auto simp: st' xs)
    moreover have "\<forall>j \<in> set (socks (rv_tls st')). j < length (sy_conns (rv_ws st'))"
      using lt by (auto simp: st' intro: less_SucI)
    moreover have "\<not> holds_stream (sy_conns (rv_ws st') ! j)"
      if "j < length (sy_conns (rv_ws st'))" "j \<notin> set (socks (rv_tls st'))" for j
      using that server_invD(3) [OF assms(1), of j] by (auto simp: st' xs nth_append less_Suc_eq)
    moreover have "length (c_queue c) \<le> WS_BUF" if "c \<in> set (sy_conns (rv_ws st'))" for c
      using that server_invD(4) [OF assms(1), of c] by (auto simp: st' conn_init_def)
    ultimately show ?thesis by (simp add: server_inv_def)
  qed
  have same: "uses (?conns @ [conn_init]) ys = uses ?conns ys" if "set (socks ys) \<subseteq> set (socks as) \<union> set (socks bs)" for ys
    by (rule uses_cong) (use lt that in \<open>auto simp: nth_append\<close>)
  have a: "uses (?conns @ [conn_init]) as = uses ?conns as" and b: "uses (?conns @ [conn_init]) bs = uses ?conns bs"
    by (rule same; simp)+
  have hd: "uses conns ((ps, u) # ys) = (ps, use_of conns u) # uses conns ys" for conns :: "'m ws_conn list" and u ys
    by (simp add: uses_def)
  have "front_run (se_gov se) (se_conn se) (front_of st) [Upgrades i :: ('e, 'm) front_act] = front_of st'"
    by (simp add: front_of_def st' xs i a b hd use_of_def change_use_def nth_append list_update_append)
  moreover have "sys_run (se_conn se) (se_loop se) (rv_ws st) [Connect] = Some (rv_ws st', [])"
    by (simp add: st')
  ultimately have "follows se st [SvUpgrade i :: ('e, 'm) server_act] st'"
    by (intro followsI [where fas = "[Upgrades i]"]) (simp_all add: st')
  with inv show ?thesis ..
qed

lemma server_step_ends:
  assumes "server_inv st" and "server_step se st (SvTlsEnds i) = Some st'"
  shows "server_inv st' \<and> follows se st [SvTlsEnds i :: ('e, 'm) server_act] st'"
proof -
  have i: "i < length (rv_tls st)" and lg: "let_go (rv_ws st) (snd (rv_tls st ! i))"
    and st': "st' = st\<lparr>rv_tls_limiter := permit_drop (rv_tls_limiter st) (ps_permit (fst (rv_tls st ! i))),
                    rv_tls := take i (rv_tls st) @ drop (Suc i) (rv_tls st)\<rparr>"
    using assms(2) by (auto split: if_splits)
  obtain as ps u bs where xs: "rv_tls st = as @ (ps, u) # bs" and ia: "i = length as"
    using id_take_nth_drop [OF i] i by (metis length_take less_imp_le min_absorb2 prod.collapse)
  have tls: "rv_tls st' = as @ bs" by (simp add: st' xs ia)
  have ws: "rv_ws st' = rv_ws st" by (simp add: st')
  have gone: "\<not> holds_stream (sy_conns (rv_ws st) ! j)" if "u = Some j" for j
    using lg that by (simp add: xs ia nth_append let_go_def)
  have "server_inv st'"
  proof -
    have "distinct (socks (rv_tls st'))"
      using server_invD(1) [OF assms(1)] by (cases u) (auto simp: tls xs)
    moreover have "\<forall>j \<in> set (socks (rv_tls st')). j < length (sy_conns (rv_ws st'))"
      using server_invD(2) [OF assms(1)] by (cases u) (auto simp: tls xs ws)
    moreover have "\<not> holds_stream (sy_conns (rv_ws st') ! j)"
      if "j < length (sy_conns (rv_ws st'))" "j \<notin> set (socks (rv_tls st'))" for j
      using that server_invD(3) [OF assms(1), of j] gone by (cases u) (auto simp: tls xs ws)
    ultimately show ?thesis using server_invD(4) [OF assms(1)] by (simp add: server_inv_def ws)
  qed
  moreover have "follows se st [SvTlsEnds i :: ('e, 'm) server_act] st'"
  proof (rule followsI [where fas = "[TlsEnds i]"])
    show "front_run (se_gov se) (se_conn se) (front_of st) [TlsEnds i :: ('e, 'm) front_act] = front_of st'"
      using i lg by (simp add: front_of_def st' uses_nth may_end_use uses_take_drop)
  qed (simp_all add: st')
  ultimately show ?thesis ..
qed

lemma server_step_follows:
  assumes "server_inv st" and "server_step se st a = Some st'"
  shows "server_inv st' \<and> follows se st [a :: ('e, 'm) server_act] st'"
proof (cases a)
  case (SvTls conn)
  obtain rate lim new where ad: "admit (gv_check (se_gov se)) (rv_rate st) (rv_tls_limiter st) conn = (rate, lim, new)"
    by (cases "admit (gv_check (se_gov se)) (rv_rate st) (rv_tls_limiter st) conn")
  then show ?thesis
    using assms SvTls server_inv_frame [OF assms(1), of st']
    by (auto intro!: followsI [where fas = "[TlsItem conn]"] simp: front_of_def)
next
  case (SvHttp conn)
  obtain rate lim new where ad: "admit (gv_check (se_gov se)) (rv_rate st) (rv_http_limiter st) conn = (rate, lim, new)"
    by (cases "admit (gv_check (se_gov se)) (rv_rate st) (rv_http_limiter st) conn")
  then show ?thesis
    using assms SvHttp server_inv_frame [OF assms(1), of st']
    by (auto intro!: followsI [where fas = "[HttpItem conn]"] simp: front_of_def)
next
  case (SvTlsEnds i)
  then show ?thesis using server_step_ends [OF assms(1)] assms(2) by simp
next
  case (SvUpgrade i)
  then show ?thesis using server_step_upgrade [OF assms(1)] assms(2) by simp
next
  case (SvWs b)
  then show ?thesis using server_step_ws [OF assms(1)] assms(2) by simp
next
  case (SvHttpEnds i)
  then show ?thesis
    using assms server_inv_frame [OF assms(1), of st']
    by (auto intro!: followsI [where fas = "[HttpEnds i]"] simp: front_of_def split: if_splits)
next
  case SvSweep
  then show ?thesis
    using assms server_inv_frame [OF assms(1), of st']
    by (auto intro!: followsI [where fas = "[Retain]"] simp: front_of_def)
next
  case (SvWait n)
  then show ?thesis
    using assms server_inv_frame [OF assms(1), of st']
    by (auto intro!: followsI [where fas = "[Wait n]"] simp: front_of_def)
next
  case (SvRequest i fr)
  then show ?thesis
    using assms server_inv_frame [OF assms(1), of st']
    by (auto intro!: followsI [where fas = "[]"] simp: front_of_def split: if_splits)
next
  case (SvPoll k fs)
  then obtain site where "site_step (se_http se) (rv_site st) (Poll k fs) = Some site" "st' = st\<lparr>rv_site := site\<rparr>"
    using assms(2) by (auto simp del: site_step.simps)
  then show ?thesis
    using SvPoll server_inv_frame [OF assms(1), of st']
    by (auto intro!: followsI [where fas = "[]"] simp: front_of_def simp del: site_step.simps)
qed


lemma acts_Cons:
  "port_acts (a # as) = port_acts [a] @ port_acts as" "ws_acts (a # as) = ws_acts [a] @ ws_acts as"
  "file_acts (a # as) = file_acts [a] @ file_acts as"
  by (cases a; simp)+

lemma follows_trans:
  assumes "follows se st [a] st1" and "follows se st1 as st2"
  shows "follows se st (a # as) st2"
proof -
  obtain fas tr where 1: "filter port_act fas = port_acts [a]"
    "front_run (se_gov se) (se_conn se) (front_of st) fas = front_of st1"
    "sys_run (se_conn se) (se_loop se) (rv_ws st) (ws_acts [a]) = Some (rv_ws st1, tr)"
    "site_acts (se_http se) (rv_site st) (file_acts [a]) = Some (rv_site st1)"
    using assms(1) unfolding follows_def by blast
  obtain fas' tr' where 2: "filter port_act fas' = port_acts as"
    "front_run (se_gov se) (se_conn se) (front_of st1) fas' = front_of st2"
    "sys_run (se_conn se) (se_loop se) (rv_ws st1) (ws_acts as) = Some (rv_ws st2, tr')"
    "site_acts (se_http se) (rv_site st1) (file_acts as) = Some (rv_site st2)"
    using assms(2) unfolding follows_def by blast
  show ?thesis
    unfolding follows_def acts_Cons [of a as] site_acts_append 1(4)
    using 1(1,2) 2 sys_run_append [OF 1(3) 2(3)]
    by (auto simp: front_run_append intro!: exI [of _ "fas @ fas'"])
qed

lemma server_acts_follow:
  "server_inv st \<Longrightarrow> server_acts se st as = Some st' \<Longrightarrow> server_inv st' \<and> follows se st as st'"
proof (induction as arbitrary: st)
  case Nil
  then show ?case by (auto simp: follows_def intro: exI [of _ "[]"])
next
  case (Cons a as)
  then obtain st1 where s: "server_step se st a = Some st1" "server_acts se st1 as = Some st'"
    by (auto split: option.splits)
  note 1 = server_step_follows [OF Cons.prems(1) s(1)]
  have "server_inv st' \<and> follows se st1 as st'" using Cons.IH [OF _ s(2)] 1 by simp
  then show ?case using follows_trans 1 by blast
qed

lemma server_inv_init: "server_inv (server_init gv n rate henv mb)"
  by (simp add: server_inv_def server_init_def sys_init_def)

lemma front_of_init: "front_of (server_init gv n rate henv mb) = front_init gv n rate"
  by (simp add: front_of_def server_init_def front_init_def uses_def)

lemma parts_of_init:
  "rv_ws (server_init gv n rate henv mb) = sys_init" "rv_site (server_init gv n rate henv mb) = site_init henv mb"
  by (simp_all add: server_init_def)

lemmas server_acts_init = server_acts_follow [OF server_inv_init]

text \<open>The server is the composition of its parts. Any run of it is a run of the two ports in which
  exactly its own arrivals, ends, sweeps and waits happen, in their order, a run of the WebSocket service
  whose connections are the upgraded ones, and a run of the file requests on the shared cache; the parts end
  in the states they have in the server. What was shown of each part for all its runs
  therefore holds in the server.\<close>

theorem server_runs_its_parts:
  assumes "server_acts se (server_init (se_gov se) n rate (se_http se) mb) as = Some st"
  shows "(\<exists>fas. filter port_act fas = port_acts as \<and>
            front_run (se_gov se) (se_conn se) (front_init (se_gov se) n rate) fas = front_of st) \<and>
    (\<exists>tr. sys_run (se_conn se) (se_loop se) sys_init (ws_acts as) = Some (rv_ws st, tr)) \<and>
    site_acts (se_http se) (site_init (se_http se) mb) (file_acts as) = Some (rv_site st)"
  using server_acts_init [OF assms] unfolding follows_def front_of_init parts_of_init by blast

text \<open>The WebSockets of a source, and the items that wait in their queues.\<close>

definition sockets_of :: "ip_addr \<Rightarrow> ('g, 'c, 'h, 'm) server_run \<Rightarrow> nat list" where
  "sockets_of k st = socks (filter (\<lambda>(ps, u). ps_permit ps = k) (rv_tls st))"

definition queued_for :: "ip_addr \<Rightarrow> ('g, 'c, 'h, 'm) server_run \<Rightarrow> nat" where
  "queued_for k st = (\<Sum>j\<leftarrow>sockets_of k st. length (c_queue (sy_conns (rv_ws st) ! j)))"

text \<open>A client is accepted, gets the page, upgrades and joins; a second one is refused.\<close>

definition demo_server :: "(int \<times> int, gcra, string, string, nat \<times> lru_items, (string \<times> string) list) server_env" where
  "demo_server = \<lparr>se_gov = gcra_ops, se_conn = demo_env, se_loop = cfg2, se_http = demo_http\<rparr>"

definition demo_day :: "(string, string) server_act list" where
  "demo_day =
     [SvTls (Inr client_v4), SvRequest 0 demo_fr, SvPoll 0 (demo_fs 7000000000), SvUpgrade 0,
      SvWs (Conn 0 (RxFrame ''join'')), SvTls (Inr client_mapped), SvWs (Conn 0 (RxEvent True)), SvSweep,
      SvWs (Take 5 5), SvWs Perform]"

lemma demo_day_runs:
  "map_option (\<lambda>st. (length (rv_tls st), sockets_of (stream_key client_v4) st))
     (server_acts demo_server (server_init gcra_ops 1 (Some 60) demo_http 1) demo_day) = Some (1, [0])"
  by code_simp

theorem server_runs_its_parts_witness:
  "\<exists>st tr. server_acts demo_server (server_init gcra_ops 1 (Some 60) demo_http 1) demo_day = Some st \<and>
     sys_run demo_env cfg2 sys_init
       [Connect, Conn 0 (RxFrame ''join''), Conn 0 (RxEvent True), Take 5 5, Perform] = Some (rv_ws st, tr)"
proof -
  obtain st where st: "server_acts demo_server (server_init gcra_ops 1 (Some 60) demo_http 1) demo_day = Some st"
    using demo_day_runs by (auto simp del: server_acts.simps)
  have se: "se_gov demo_server = gcra_ops" "se_conn demo_server = demo_env" "se_loop demo_server = cfg2"
    "se_http demo_server = demo_http"
    by (simp_all add: demo_server_def)
  have acts: "ws_acts demo_day = [Connect, Conn 0 (RxFrame ''join''), Conn 0 (RxEvent True), Take 5 5, Perform]"
    by (simp add: demo_day_def)
  from server_runs_its_parts [of demo_server 1 "Some 60" 1 demo_day st] st show ?thesis
    unfolding se acts by blast
qed

section \<open>What one source can hold\<close>

lemma count_distinct: "distinct xs \<Longrightarrow> x \<in> set xs \<Longrightarrow> count_list xs x = 1"
  by (induction xs) auto

lemma length_socks: "length (socks (filter (\<lambda>(ps, u). ps_permit ps = k) xs)) \<le> count_list (permits (map fst xs)) k"
proof (induction xs)
  case (Cons x xs)
  then show ?case by (cases x; cases "snd x") (auto simp: permits_def)
qed (simp add: permits_def)

lemma sockets_of_subset: "set (sockets_of k st) \<subseteq> set (socks (rv_tls st))"
  by (auto simp: sockets_of_def socks_set)

lemma map_fst_uses: "map fst (uses conns xs) = map fst xs"
  by (simp add: uses_def case_prod_unfold comp_def)

text \<open>C7: what one source can make the server hold. In every state the server can reach, a WebSocket that
  holds its stream belongs to exactly one accepted connection and so counts against the cap of the
  source; hence a source never has more open WebSockets than the cap, and never more than the cap
  times the queue size of messages waiting for them, whoever sent those.\<close>

theorem source_bounded:
  assumes "0 < n" and "server_acts se (server_init (se_gov se) n rate (se_http se) mb) as = Some st"
  shows "(\<forall>j < length (sy_conns (rv_ws st)).
            holds_stream (sy_conns (rv_ws st) ! j) \<longrightarrow> count_list (socks (rv_tls st)) j = 1) \<and>
    length (sockets_of k st) \<le> unat n \<and> queued_for k st \<le> unat n * WS_BUF"
proof -
  have inv: "server_inv st" and fol: "follows se (server_init (se_gov se) n rate (se_http se) mb) as st"
    using server_acts_init [OF assms(2)] by simp_all
  have "tls_accounts (unat n) (front_of st)"
    using fol tls_accounts_run [OF tls_accounts_init [OF assms(1)]] unfolding follows_def front_of_init by metis
  then have "count_list (permits (map fst (rv_tls st))) k \<le> unat n"
    using pl.accounts_le [of "fd_tls_limiter (front_of st)" "tls_permits (front_of st)" k]
    by (simp add: tls_accounts_def tls_permits_def front_of_def map_fst_uses)
  then have len: "length (sockets_of k st) \<le> unat n"
    using length_socks [of k "rv_tls st"] by (simp add: sockets_of_def)
  have "length (c_queue (sy_conns (rv_ws st) ! j)) \<le> WS_BUF" if "j \<in> set (sockets_of k st)" for j
    using that sockets_of_subset server_invD(2,4) [OF inv] nth_mem by blast
  then have "queued_for k st \<le> (\<Sum>j\<leftarrow>sockets_of k st. WS_BUF)"
    unfolding queued_for_def by (intro sum_list_mono)
  also have "\<dots> \<le> unat n * WS_BUF" using len by (simp add: sum_list_triv)
  finally have "queued_for k st \<le> unat n * WS_BUF" .
  moreover have "count_list (socks (rv_tls st)) j = 1"
    if "j < length (sy_conns (rv_ws st))" "holds_stream (sy_conns (rv_ws st) ! j)" for j
    using count_distinct [OF server_invD(1) [OF inv]] server_invD(3) [OF inv that(1)] that(2) by blast
  ultimately show ?thesis using len by blast
qed


theorem source_bounded_witness:
  "\<exists>st. server_acts demo_server (server_init gcra_ops 1 (Some 60) demo_http 1) demo_day = Some st \<and>
     sockets_of (stream_key client_v4) st = [0] \<and> queued_for (stream_key client_v4) st \<le> WS_BUF"
proof -
  obtain st where st: "server_acts demo_server (server_init gcra_ops 1 (Some 60) demo_http 1) demo_day = Some st"
    "sockets_of (stream_key client_v4) st = [0]"
    using demo_day_runs by (auto simp del: server_acts.simps)
  have se: "se_gov demo_server = gcra_ops" "se_http demo_server = demo_http" and pos: "0 < (1 :: u32)"
    by (simp_all add: demo_server_def)
  have "queued_for (stream_key client_v4) st \<le> unat (1 :: u32) * WS_BUF"
    using source_bounded [OF pos, of demo_server "Some 60" 1 demo_day st] st(1) unfolding se by blast
  with st show ?thesis by simp
qed

end
