(* ===== verification/Stream_Layers.thy ===== *)
theory Stream_Layers
  imports Ip_Policy
begin

text \<open>
  The stream that carries a permit (\<^verbatim>\<open>src/src/server.rs\<close>, \<^verbatim>\<open>PermittedStream\<close>) as a stream: its
  implementations of \<^verbatim>\<open>AsyncRead\<close>, \<^verbatim>\<open>AsyncWrite\<close> and \<^verbatim>\<open>PeerAddr\<close>, and the way the client's address is found
  through the layers that TLS puts around it. The operations of the bare stream and the layers'
  \<^verbatim>\<open>get_ref\<close> are parameters.

  Shown: the wrapper is transparent, call by call, and keeps its permit and address whatever is
  read and written; the address that is found through the layers is the one of the accepted
  stream.
\<close>

section \<open>Reading and writing\<close>

datatype 'a poll = Pending | Ready 'a

text \<open>
  The operations of a stream of type \<^verbatim>\<open>'t\<close>. Each takes the task's context; reading fills a buffer; the
  stream is changed in place.
\<close>

record ('x, 'b, 'e, 't) async_io =
  io_poll_read :: "'x \<Rightarrow> 'b \<Rightarrow> 't \<Rightarrow> ('e + unit) poll \<times> 'b \<times> 't"
  io_poll_write :: "'x \<Rightarrow> bytes \<Rightarrow> 't \<Rightarrow> ('e + usize) poll \<times> 't"
  io_poll_flush :: "'x \<Rightarrow> 't \<Rightarrow> ('e + unit) poll \<times> 't"
  io_poll_shutdown :: "'x \<Rightarrow> 't \<Rightarrow> ('e + unit) poll \<times> 't"
  io_poll_write_vectored :: "'x \<Rightarrow> bytes list \<Rightarrow> 't \<Rightarrow> ('e + usize) poll \<times> 't"
  io_is_write_vectored :: "'t \<Rightarrow> bool"

definition permitted_read ::
  "('x, 'b, 'e, tcp_stream) async_io \<Rightarrow> 'x \<Rightarrow> 'b \<Rightarrow> permitted_stream \<Rightarrow> ('e + unit) poll \<times> 'b \<times> permitted_stream" where
  "permitted_read io cx buf s =
     (case io_poll_read io cx buf (ps_inner s) of (r, buf', inner) \<Rightarrow> (r, buf', s\<lparr>ps_inner := inner\<rparr>))"

definition permitted_write ::
  "('x, 'b, 'e, tcp_stream) async_io \<Rightarrow> 'x \<Rightarrow> bytes \<Rightarrow> permitted_stream \<Rightarrow> ('e + usize) poll \<times> permitted_stream" where
  "permitted_write io cx buf s =
     (case io_poll_write io cx buf (ps_inner s) of (r, inner) \<Rightarrow> (r, s\<lparr>ps_inner := inner\<rparr>))"

definition permitted_flush ::
  "('x, 'b, 'e, tcp_stream) async_io \<Rightarrow> 'x \<Rightarrow> permitted_stream \<Rightarrow> ('e + unit) poll \<times> permitted_stream" where
  "permitted_flush io cx s =
     (case io_poll_flush io cx (ps_inner s) of (r, inner) \<Rightarrow> (r, s\<lparr>ps_inner := inner\<rparr>))"

definition permitted_shutdown ::
  "('x, 'b, 'e, tcp_stream) async_io \<Rightarrow> 'x \<Rightarrow> permitted_stream \<Rightarrow> ('e + unit) poll \<times> permitted_stream" where
  "permitted_shutdown io cx s =
     (case io_poll_shutdown io cx (ps_inner s) of (r, inner) \<Rightarrow> (r, s\<lparr>ps_inner := inner\<rparr>))"

definition permitted_write_vectored ::
  "('x, 'b, 'e, tcp_stream) async_io \<Rightarrow> 'x \<Rightarrow> bytes list \<Rightarrow> permitted_stream \<Rightarrow> ('e + usize) poll \<times> permitted_stream" where
  "permitted_write_vectored io cx bufs s =
     (case io_poll_write_vectored io cx bufs (ps_inner s) of (r, inner) \<Rightarrow> (r, s\<lparr>ps_inner := inner\<rparr>))"

definition permitted_io ::
  "('x, 'b, 'e, tcp_stream) async_io \<Rightarrow> ('x, 'b, 'e, permitted_stream) async_io" where
  "permitted_io io =
     \<lparr>io_poll_read = permitted_read io, io_poll_write = permitted_write io,
      io_poll_flush = permitted_flush io, io_poll_shutdown = permitted_shutdown io,
      io_poll_write_vectored = permitted_write_vectored io,
      io_is_write_vectored = (\<lambda>s. io_is_write_vectored io (ps_inner s))\<rparr>"

section \<open>Sequences of calls\<close>

text \<open>The calls a user of the stream makes, and what each gives back.\<close>

datatype ('x, 'b) io_call =
    Read 'x 'b | Write 'x bytes | Flush 'x | Shutdown 'x | WriteVectored 'x "bytes list" | IsWriteVectored

datatype ('b, 'e) io_answer =
    ReadInto "('e + unit) poll" 'b | Wrote "('e + usize) poll" | Did "('e + unit) poll" | Can bool

fun io_step ::
  "('x, 'b, 'e, 't) async_io \<Rightarrow> ('x, 'b) io_call \<Rightarrow> 't \<Rightarrow> ('b, 'e) io_answer \<times> 't" where
  "io_step io (Read cx buf) s = (case io_poll_read io cx buf s of (r, buf', s') \<Rightarrow> (ReadInto r buf', s'))"
| "io_step io (Write cx buf) s = map_prod Wrote id (io_poll_write io cx buf s)"
| "io_step io (Flush cx) s = map_prod Did id (io_poll_flush io cx s)"
| "io_step io (Shutdown cx) s = map_prod Did id (io_poll_shutdown io cx s)"
| "io_step io (WriteVectored cx bufs) s = map_prod Wrote id (io_poll_write_vectored io cx bufs s)"
| "io_step io IsWriteVectored s = (Can (io_is_write_vectored io s), s)"

fun io_run ::
  "('x, 'b, 'e, 't) async_io \<Rightarrow> ('x, 'b) io_call list \<Rightarrow> 't \<Rightarrow> ('b, 'e) io_answer list \<times> 't" where
  "io_run io [] s = ([], s)"
| "io_run io (c # cs) s =
     (case io_step io c s of (a, s') \<Rightarrow> (case io_run io cs s' of (as, s'') \<Rightarrow> (a # as, s'')))"

section \<open>The client's address\<close>

definition peer_addr :: "permitted_stream \<Rightarrow> socket_addr option" where
  "peer_addr s = ps_peer s"

definition compat_peer_addr :: "('w \<Rightarrow> 't) \<Rightarrow> ('t \<Rightarrow> socket_addr option) \<Rightarrow> 'w \<Rightarrow> socket_addr option" where
  "compat_peer_addr get_ref inner w = inner (get_ref w)"

definition tls_peer_addr :: "('w \<Rightarrow> 't \<times> 'c) \<Rightarrow> ('t \<Rightarrow> socket_addr option) \<Rightarrow> 'w \<Rightarrow> socket_addr option" where
  "tls_peer_addr get_ref inner w = inner (fst (get_ref w))"

text \<open>The address of a connection as \<^verbatim>\<open>serve_tls\<close> asks for it: the stream it gets is a
  TLS stream over the accepted one, each in an adapter between the two families of I/O traits.\<close>

definition served_peer_addr ::
  "('o \<Rightarrow> 't) \<Rightarrow> ('t \<Rightarrow> 'i \<times> 'c) \<Rightarrow> ('i \<Rightarrow> permitted_stream) \<Rightarrow> 'o \<Rightarrow> socket_addr option" where
  "served_peer_addr outer tls inner = compat_peer_addr outer (tls_peer_addr tls (compat_peer_addr inner peer_addr))"

section \<open>The wrapper is transparent\<close>

lemma permitted_step:
  "io_step (permitted_io io) c s =
     (case io_step io c (ps_inner s) of (a, inner) \<Rightarrow> (a, s\<lparr>ps_inner := inner\<rparr>))"
  by (cases c)
     (simp_all add: permitted_io_def permitted_read_def permitted_write_def permitted_flush_def
        permitted_shutdown_def permitted_write_vectored_def split: prod.split)

text \<open>A stream that carries a permit behaves as the bare one. Any sequence of reads, writes, flushes
  and shutdowns gives the same answers, bytes and errors as on the accepted TCP stream and leaves it in
  the same state, while the permit and the client's address stay what they were at the
  admission. Through the layers of TLS the server then finds the canonical address of the
  peer, if it had one.\<close>

theorem permitted_stream_transparent:
  assumes "io_run io calls stream = (answers, stream')"
    and "inner (fst (tls (outer w))) = snd (io_run (permitted_io io) calls (admitted_as stream))"
  shows "io_run (permitted_io io) calls (admitted_as stream) = (answers, (admitted_as stream)\<lparr>ps_inner := stream'\<rparr>) \<and>
    served_peer_addr outer tls inner w = peer_socket_addr stream"
proof -
  have run: "io_run (permitted_io io) calls s =
      (case io_run io calls (ps_inner s) of (as, i) \<Rightarrow> (as, s\<lparr>ps_inner := i\<rparr>))" for s
  proof (induction calls arbitrary: s)
    case (Cons c cs)
    then show ?case by (simp add: permitted_step split: prod.split)
  qed simp
  have *: "io_run (permitted_io io) calls (admitted_as stream) = (answers, (admitted_as stream)\<lparr>ps_inner := stream'\<rparr>)"
    using assms(1) by (simp add: run admitted_as_def)
  moreover have "served_peer_addr outer tls inner w = peer_socket_addr stream"
    using assms(2) unfolding * served_peer_addr_def compat_peer_addr_def tls_peer_addr_def peer_addr_def
    by (simp add: admitted_as_def)
  ultimately show ?thesis ..
qed

text \<open>A stream that answers every read with one byte and accepts every write.\<close>

definition demo_io :: "(unit, bytes, string, tcp_stream) async_io" where
  "demo_io =
     \<lparr>io_poll_read = (\<lambda>cx buf s. (Ready (Inr ()), buf @ [of_nat (ts_id s)], s\<lparr>ts_id := ts_id s + 1\<rparr>)),
      io_poll_write = (\<lambda>cx buf s. (Ready (Inr (of_nat (length buf))), s)),
      io_poll_flush = (\<lambda>cx s. (Pending, s)), io_poll_shutdown = (\<lambda>cx s. (Ready (Inl ''closed''), s)),
      io_poll_write_vectored = (\<lambda>cx bufs s. (Ready (Inr (of_nat (length (concat bufs)))), s)),
      io_is_write_vectored = (\<lambda>s. True)\<rparr>"

definition demo_calls :: "(unit, bytes) io_call list" where
  "demo_calls = [Read () [9], Write () [1, 2], Flush (), IsWriteVectored, Shutdown ()]"

theorem permitted_stream_transparent_witness:
  "fst (io_run (permitted_io demo_io) demo_calls (admitted_as client_v4)) =
     [ReadInto (Ready (Inr ())) [9, 1], Wrote (Ready (Inr 2)), Did Pending, Can True, Did (Ready (Inl ''closed''))] \<and>
   served_peer_addr id (\<lambda>t. (t, ())) id (snd (io_run (permitted_io demo_io) demo_calls (admitted_as client_v4))) =
     Some \<lparr>sa_ip = V4 (Ipv4 81 2 3 4), sa_port = 4000\<rparr>"
proof -
  have run: "io_run demo_io demo_calls client_v4 =
      ([ReadInto (Ready (Inr ())) [9, 1], Wrote (Ready (Inr 2)), Did Pending, Can True, Did (Ready (Inl ''closed''))],
       client_v4\<lparr>ts_id := 2\<rparr>)"
    by code_simp
  have peer: "peer_socket_addr client_v4 = Some \<lparr>sa_ip = V4 (Ipv4 81 2 3 4), sa_port = 4000\<rparr>" by code_simp
  show ?thesis
    using permitted_stream_transparent [OF run, where outer = id and tls = "\<lambda>t. (t, ())" and inner = id and
        w = "snd (io_run (permitted_io demo_io) demo_calls (admitted_as client_v4))"] peer
    by fastforce
qed

end
