(* ===== verification/Ws_Liveness.thy ===== *)
theory Ws_Liveness
  imports Ws_System
begin

text \<open>
  What the event loop of the running service (\<^verbatim>\<open>Ws_System\<close>) can wait for: a bookkeeping
  invariant on confirmations and queue senders shows that only a full queue can stop it, and a
  run shows how a full queue and a full event channel stop it for good. And how a connection that is lost while
  its Init waits in the channel logs off the session it duplicates.
\<close>

section \<open>What the loop waits for\<close>

text \<open>The sending half of the confirmation channel is with the receiver task until the Init is sent.\<close>

lemma conn_hist_held:
  "conn_hist env s out got sent \<Longrightarrow> c_rx s = RxFirst \<or> (\<exists>e. c_rx s = RxSendInit e) \<Longrightarrow> c_err s = ErrHeld"
proof (induction rule: conn_hist.induct)
  case start
  show ?case by (simp add: conn_init_def)
next
  case (step s out got sent a s' out')
  from conn_step_trans [OF step.hyps(2)] show ?case
  proof (cases rule: conn_trans.cases)
    case (t_first m)
    with step show ?thesis
      by (cases rule: rx_first_cases [of env m s]) (auto simp: rx_fail_def rx_return_def identify_def)
  qed (use step in \<open>auto simp: rx_fail_def rx_return_def rx_finish_def rx_loop_def Let_def tx_cleanup_def
         queue_send_fields elim: queue_send_cases split: if_splits\<close>)
qed

lemma rx_first_err:
  "c_loop_tx (rx_first env m s) = c_loop_tx s \<and> (c_err (rx_first env m s) = ErrInFlight \<longleftrightarrow> c_err s = ErrInFlight)"
proof (cases rule: rx_first_cases [of env m s])
  case refused
  then show ?thesis by (elim disjE) (simp_all add: rx_fail_def rx_return_def)
next
  case (denied hdr)
  then show ?thesis by (simp add: rx_fail_def rx_return_def identify_def)
next
  case (accepted hdr)
  then show ?thesis by (simp add: identify_def)
qed

lemma loop_fields [simp]:
  "c_loop_tx (rx_loop env m s) = c_loop_tx s" "c_err (rx_loop env m s) = c_err s"
  "c_loop_tx (tx_cleanup s) = c_loop_tx s" "c_err (tx_cleanup s) = c_err s"
  by (simp_all add: rx_loop_def rx_finish_def tx_cleanup_def Let_def)

text \<open>A step of a connection's own tasks: the Init is sent, or the loop's view does not change.\<close>

lemma own_step_cases:
  assumes "conn_hist env s out got sent" and "conn_step env s a = Some (c, new)" and "own_act a"
  obtains (init) h ch m where "events_of new = [Init h ch (env_tx2 env) (env_err env) m]" "c_err s = ErrHeld"
      "c_err c = ErrInFlight" "c_loop_tx c"
    | (other) "\<And>i. filter (init_for i) (events_of new) = []" "c_loop_tx c = c_loop_tx s"
      "c_err c = ErrInFlight \<longleftrightarrow> c_err s = ErrInFlight"
proof -
  have pend: "e = Init (event_session e) (event_channel e) (env_tx2 env) (env_err env) (the (payload e))"
    if "c_rx s = RxSendInit e" for e
    using that trace_inv_reach [OF conn_hist_reach [OF assms(1)]]
    by (auto simp: trace_inv_def unidentified_def identified_def init_of_def)
  have msg: "\<not> init_for i e" if "c_rx s = RxSendMsg e" for e i
    using that trace_inv_reach [OF conn_hist_reach [OF assms(1)]]
    by (auto simp: trace_inv_def unidentified_def identified_def)
  from conn_step_trans [OF assms(2)] show thesis
  proof (cases rule: conn_trans.cases)
    case (t_first m)
    with rx_first_err [of env m s] show thesis by (intro other) simp_all
  next
    case (t_init e)
    with pend [OF t_init(4)] conn_hist_held [OF assms(1)] show thesis by (intro init) auto
  next
    case (t_msg e)
    with msg show thesis by (intro other) auto
  next
    case (t_rx_queue item t sent')
    with queue_send_fields [OF t_rx_queue(5)] show thesis
      by (intro other) (auto simp: rx_return_def elim: queue_send_cases)
  next
    case (t_ping t)
    with queue_send_fields [OF t_ping(5)] show thesis by (intro other) (auto elim: queue_send_cases)
  next
    case (t_ping_err t)
    with queue_send_fields [OF t_ping_err(5)] show thesis by (intro other) (auto elim: queue_send_cases)
  next
    case (t_pg_end t sent')
    with queue_send_fields [OF t_pg_end(5)] show thesis by (intro other) (auto elim: queue_send_cases)
  qed (use assms(3) in \<open>auto intro!: other simp: rx_fail_def rx_return_def rx_finish_def\<close>)
qed

lemma emitted_init:
  assumes "sys_reach env cfg s tr" and "Init h ch tx e m \<in> set (emitted tr)"
  shows "e = tx \<and> tx < length (sy_conns s)"
proof -
  obtain j where j: "Init h ch tx e m \<in> set (events_of (outs_of j tr))" using emitted_by [OF assms(2)] by blast
  with hists_reach [OF assms(1)] have jn: "j < length (sy_conns s)"
    by (cases "j < length (sy_conns s)") (auto simp: hists_def)
  then have "conn_hist (env_at env j) (sy_conns s ! j) (outs_of j tr) (got_by j tr) (sent_to j (did tr))"
    using hists_reach [OF assms(1)] by (simp add: hists_def)
  then obtain m0 hdr where "session_events (env_at env j) m0 hdr (events_of (outs_of j tr))"
    using conn_hist_session j by fastforce
  from session_event_cases [OF this j] jn show ?thesis by (auto simp: init_of_def)
qed

fun answers :: "nat \<Rightarrow> 'm loop_out \<Rightarrow> bool" where
  "answers i (Confirm e h) \<longleftrightarrow> e = i"
| "answers i (DropErr e) \<longleftrightarrow> e = i"
| "answers i (SendMsg tx m) \<longleftrightarrow> False"

text \<open>
  Every confirmation that a connection waits for is under way exactly once, as an Init in the
  channel or as an answer the loop has still to give; the loop's tables and its sends only name
  connections whose queue it holds a sender of; a refusal is all a turn does.
\<close>

definition tokens :: "nat \<Rightarrow> 'm ws_system \<Rightarrow> nat" where
  "tokens i s = length (filter (init_for i) (sy_chan s)) + length (filter (answers i) (sy_todo s))"

definition holds :: "'m ws_system \<Rightarrow> nat \<Rightarrow> bool" where
  "holds s i \<longleftrightarrow> i < length (sy_conns s) \<and> c_loop_tx (sy_conns s ! i)"

definition token_inv :: "'m ws_system \<Rightarrow> bool" where
  "token_inv s \<longleftrightarrow>
     (\<forall>i < length (sy_conns s). tokens i s = (if c_err (sy_conns s ! i) = ErrInFlight then 1 else 0) \<and>
        (c_err (sy_conns s ! i) = ErrInFlight \<longrightarrow> c_loop_tx (sy_conns s ! i))) \<and>
     (\<forall>i h ch. member (sy_loop s) ch h = Some i \<longrightarrow> holds s i) \<and>
     (\<forall>x \<in> set (sy_todo s). holds s (fst (out_act x))) \<and>
     (\<forall>e. DropErr e \<in> set (sy_todo s) \<longrightarrow> sy_todo s = [DropErr e] \<and> (\<forall>ch h. member (sy_loop s) ch h \<noteq> Some e))"

lemma token_invD:
  assumes "token_inv s"
  shows "i < length (sy_conns s) \<Longrightarrow> tokens i s = (if c_err (sy_conns s ! i) = ErrInFlight then 1 else 0)"
    and "i < length (sy_conns s) \<Longrightarrow> c_err (sy_conns s ! i) = ErrInFlight \<Longrightarrow> c_loop_tx (sy_conns s ! i)"
    and "member (sy_loop s) ch h = Some i \<Longrightarrow> holds s i"
    and "x \<in> set (sy_todo s) \<Longrightarrow> holds s (fst (out_act x))"
    and "DropErr e \<in> set (sy_todo s) \<Longrightarrow> sy_todo s = [DropErr e]"
    and "DropErr e \<in> set (sy_todo s) \<Longrightarrow> member (sy_loop s) ch h \<noteq> Some e"
  using assms unfolding token_inv_def by blast+

lemma answers_target: "answers i x \<Longrightarrow> fst (out_act x) = i"
  by (cases x) simp_all

text \<open>The invariant after a step of connection \<open>i\<close>, taken alone.\<close>

lemma token_update:
  assumes inv: "token_inv s" and "i < length (sy_conns s)"
    and new: "sy_conns s' = (sy_conns s)[i := c]" "sy_loop s' = sy_loop s"
    and todo: "set (sy_todo s') \<subseteq> set (sy_todo s)" "\<And>e. DropErr e \<in> set (sy_todo s') \<Longrightarrow> sy_todo s' = sy_todo s"
    and others: "\<And>j. j \<noteq> i \<Longrightarrow> tokens j s' = tokens j s"
    and own: "tokens i s' = (if c_err c = ErrInFlight then 1 else 0)" "c_err c = ErrInFlight \<Longrightarrow> c_loop_tx c"
    and keep: "c_loop_tx (sy_conns s ! i) \<Longrightarrow> c_loop_tx c \<or>
      (\<forall>ch h. member (sy_loop s) ch h \<noteq> Some i) \<and> (\<forall>x \<in> set (sy_todo s'). fst (out_act x) \<noteq> i)"
  shows "token_inv s'"
proof -
  have held: "holds s' j" if "holds s j" "j = i \<Longrightarrow> c_loop_tx c" for j
    using that assms(2) new(1) by (auto simp: holds_def nth_list_update)
  have "holds s' j" if "member (sy_loop s) ch h = Some j" for j ch h
    using token_invD(3) [OF inv that] keep that by (intro held) (auto simp: holds_def)
  moreover have "holds s' (fst (out_act x))" if "x \<in> set (sy_todo s')" for x
    using token_invD(4) [OF inv subsetD [OF todo(1) that]] keep that by (intro held) (auto simp: holds_def)
  moreover have "sy_todo s' = [DropErr e] \<and> (\<forall>ch h. member (sy_loop s) ch h \<noteq> Some e)"
    if "DropErr e \<in> set (sy_todo s')" for e
    using token_invD(5,6) [OF inv, of e] todo(2) [OF that] that by simp
  moreover have "tokens j s' = (if c_err (sy_conns s' ! j) = ErrInFlight then 1 else 0) \<and>
      (c_err (sy_conns s' ! j) = ErrInFlight \<longrightarrow> c_loop_tx (sy_conns s' ! j))" if "j < length (sy_conns s')" for j
    using that new(1) others [of j] own token_invD(1,2) [OF inv, of j] by (cases "j = i") auto
  ultimately show ?thesis unfolding token_inv_def new(2) by blast
qed

lemma token_connect:
  assumes "sys_reach env cfg s tr" and "token_inv s"
  shows "token_inv (s\<lparr>sy_conns := sy_conns s @ [conn_init]\<rparr>)"
proof -
  let ?n = "length (sy_conns s)"
  have "\<not> init_for ?n e" if "e \<in> set (sy_chan s)" for e
  proof (cases e)
    case (Init h ch tx e' m)
    with that have "Init h ch tx e' m \<in> set (emitted tr)" using loop_along(3) [OF assms(1), symmetric] by simp
    with emitted_init [OF assms(1)] Init show ?thesis by fastforce
  qed simp_all
  moreover have "\<not> answers ?n x" if "x \<in> set (sy_todo s)" for x
    using token_invD(4) [OF assms(2) that] answers_target [of ?n x] by (auto simp: holds_def)
  ultimately have "tokens ?n s = 0" by (auto simp: tokens_def filter_empty_conv)
  with assms(2) show ?thesis
    by (simp add: token_inv_def tokens_def holds_def nth_append less_Suc_eq conn_init_def)
qed

lemma token_conn:
  assumes "token_inv s" and "i < length (sy_conns s)"
    and "conn_hist (env_at env i) (sy_conns s ! i) out got sent"
    and "conn_step (env_at env i) (sy_conns s ! i) a = Some (c, new)" and "own_act a"
  shows "token_inv (s\<lparr>sy_conns := (sy_conns s)[i := c], sy_chan := sy_chan s @ events_of new\<rparr>)"
  using assms(3-5)
proof (cases rule: own_step_cases)
  case (init h ch m)
  with token_invD(1) [OF assms(1,2)] show ?thesis
    by (intro token_update [OF assms(1,2), where c = c]) (auto simp: tokens_def)
next
  case other
  with token_invD(1,2) [OF assms(1,2)] show ?thesis
    by (intro token_update [OF assms(1,2), where c = c]) (auto simp: tokens_def)
qed

lemma token_perform:
  assumes "token_inv s" and "sy_todo s = x # todo"
    and "conn_step env (sy_conns s ! fst (out_act x)) (snd (out_act x)) = Some (c, out)"
  shows "token_inv (s\<lparr>sy_conns := (sy_conns s)[fst (out_act x) := c], sy_todo := todo\<rparr>)"
proof -
  have n: "fst (out_act x) < length (sy_conns s)" using token_invD(4) [OF assms(1), of x] assms(2) by (simp add: holds_def)
  have drop: "DropErr e \<notin> set todo" for e
    using token_invD(5) [OF assms(1), of e] assms(2) by auto
  note upd = token_update [OF assms(1) n, where c = c]
  note tok = token_invD(1,2) [OF assms(1) n]
  show ?thesis
  proof (cases x)
    case (SendMsg tx m)
    with assms(3) have "c_err c = c_err (sy_conns s ! tx)" "c_loop_tx c = c_loop_tx (sy_conns s ! tx)"
      by (auto simp: quiet_def elim: queue_send_cases split: if_splits)
    with tok SendMsg assms(2) show ?thesis by (intro upd) (auto simp: tokens_def drop)
  next
    case (Confirm e h)
    with assms(3) have "c_err (sy_conns s ! e) = ErrInFlight" "c = (sy_conns s ! e)\<lparr>c_err := ErrConfirmed\<rparr>"
      by (auto simp: quiet_def split: if_splits)
    with tok Confirm assms(2) show ?thesis by (intro upd) (auto simp: tokens_def drop)
  next
    case (DropErr e)
    with assms(3) have "c_err (sy_conns s ! e) = ErrInFlight"
      "c = (sy_conns s ! e)\<lparr>c_err := ErrGone, c_loop_tx := False\<rparr>"
      by (auto simp: quiet_def split: if_splits)
    moreover have "todo = []" "\<And>ch h. member (sy_loop s) ch h \<noteq> Some e"
      using token_invD(5,6) [OF assms(1), of e] DropErr assms(2) by simp_all
    ultimately show ?thesis using tok DropErr assms(2) by (intro upd) (auto simp: tokens_def)
  qed
qed

lemma handled_split: "ev \<in> set (handled is) \<Longrightarrow> \<exists>pre t1 t2 post. is = pre @ Event ev t1 t2 # post"
proof (induction "is" rule: handled.induct)
  case (2 e t1 t2 "is")
  then show ?case by (metis Cons_eq_appendI eq_Nil_appendI handled.simps(2) set_ConsD)
next
  case (3 t "is")
  then show ?case by (metis Cons_eq_appendI handled.simps(3))
qed simp

text \<open>A registered session was brought by an Init the loop has handled.\<close>

lemma member_source:
  assumes "sys_reach env cfg s tr" and "member (sy_loop s) ch h = Some i"
  shows "\<exists>e m. Init h ch i e m \<in> set (handled (turns tr))"
  using sourced_run [of cfg "turns tr"] assms(2) loop_along(1) [OF assms(1)] by (simp add: sourced_def)

text \<open>A connection is registered for one session at most, and its Init is not in the channel any more.\<close>

lemma registered_once:
  assumes "sys_reach env cfg s tr" and "member (sy_loop s) ch h = Some i"
  shows "filter (init_for i) (sy_chan s) = []" and "member (sy_loop s) ch' h' = Some i \<Longrightarrow> ch' = ch \<and> h' = h"
proof -
  obtain e m pre t1 t2 post where tn: "turns tr = pre @ Event (Init h ch i e m) t1 t2 # post"
    using member_source [OF assms] handled_split by metis
  note once = init_unique [OF assms(1) tn]
  from once(3) show "filter (init_for i) (sy_chan s) = []" .
  assume "member (sy_loop s) ch' h' = Some i"
  then obtain e' m' where "Init h' ch' i e' m' \<in> set (handled (turns tr))" using member_source [OF assms(1)] by blast
  then show "ch' = ch \<and> h' = h"
    using once(1,2) unfolding tn by (auto simp: handled_append filter_empty_conv)
qed

lemma in_flight_token:
  assumes "token_inv s" and "i < length (sy_conns s)" and "0 < tokens i s"
  shows "c_err (sy_conns s ! i) = ErrInFlight" "holds s i"
  using token_invD(1,2) [OF assms(1,2)] assms(2,3) by (auto simp: holds_def split: if_splits)

lemma token_take_init:
  assumes "sys_reach env cfg s tr" and "token_inv s" and "sy_todo s = []"
    and chan: "sy_chan s = Init h ch tx e m # chan"
  shows "token_inv (s\<lparr>sy_chan := chan, sy_loop := fst (handle_init cfg t1 t2 h ch tx e m (sy_loop s)),
           sy_todo := snd (handle_init cfg t1 t2 h ch tx e m (sy_loop s))\<rparr>)" (is "token_inv ?s'")
proof -
  have "Init h ch tx e m \<in> set (emitted tr)" using loop_along(3) [OF assms(1), symmetric] chan by simp
  from emitted_init [OF assms(1) this] have e: "e = tx" and n: "tx < length (sy_conns s)" by simp_all
  have "0 < tokens tx s" by (simp add: tokens_def chan)
  note fl = in_flight_token [OF assms(2) n this]
  have reg: "member (sy_loop s) c x \<noteq> Some tx" for c x
    using registered_once(1) [OF assms(1), of c x tx] chan by auto
  note mem = member_handle_init [OF prod.collapse [symmetric], of cfg t1 t2 h ch tx e m "sy_loop s"]
  have sends: "tokens i ?s' = tokens i s \<and> (\<forall>x \<in> set (sy_todo ?s'). fst (out_act x) = tx) \<and>
     (\<forall>d. DropErr d \<in> set (sy_todo ?s') \<longrightarrow> sy_todo ?s' = [DropErr d] \<and> d = tx \<and> member (sy_loop s) ch h \<noteq> None)" for i
  proof (cases "member (sy_loop s) ch h")
    case None
    have "filter (answers i) (map (SendMsg tx) ms) = []" for ms :: "'b list" by (simp add: filter_empty_conv)
    with handle_init_new(1) [OF None prod.collapse [symmetric]] assms(3) chan e show ?thesis
      by (auto simp: tokens_def)
  next
    case (Some v)
    with handle_init_dup [of "sy_loop s" ch h] assms(3) chan e show ?thesis by (auto simp: tokens_def)
  qed
  have "holds ?s' i = holds s i" for i by (simp add: holds_def)
  moreover have "member (sy_loop ?s') c x = Some i \<Longrightarrow> holds s i" for c x i
    using mem [of c x] fl(2) token_invD(3) [OF assms(2)] by (auto split: if_splits)
  moreover have "\<forall>c x. member (sy_loop ?s') c x \<noteq> Some tx" if "member (sy_loop s) ch h \<noteq> None"
    using mem that reg by auto
  ultimately show ?thesis
    using sends fl(2) token_invD(1,2) [OF assms(2)] unfolding token_inv_def by fastforce
qed

lemma token_take_msg:
  assumes "sys_reach env cfg s tr" and "token_inv s" and "sy_todo s = []" and chan: "sy_chan s = Msg h ch m # chan"
  shows "token_inv (s\<lparr>sy_chan := chan, sy_loop := fst (handle_msg cfg t h ch m (sy_loop s)),
           sy_todo := snd (handle_msg cfg t h ch m (sy_loop s))\<rparr>)" (is "token_inv ?s'")
proof -
  have inv: "loop_inv cfg (sy_loop s)" using loop_along(1) [OF assms(1)] loop_run_inv [OF loop_inv_init] by simp
  have mem: "(k, v) \<in> set (members (sy_loop s) ch) \<Longrightarrow> member (sy_loop s) ch k = Some v" for k v
    using hm_get_set [OF loop_invD(3) [OF inv]] by (auto simp: member_def)
  have loop: "member (sy_loop ?s') = member (sy_loop s)"
    using handle_msg_state(2) [OF prod.collapse [symmetric], of cfg t h ch m "sy_loop s"]
    by (simp add: member_def fun_eq_iff)
  have todo: "sy_todo ?s' = map (\<lambda>(k, v). SendMsg v m) (filter (\<lambda>(k, v). k \<noteq> h) (members (sy_loop s) ch))"
    by (simp add: handle_msg_outs)
  then have "filter (answers i) (sy_todo ?s') = []" for i by (auto simp: filter_empty_conv)
  then have "tokens i ?s' = tokens i s" for i using assms(3) chan by (simp add: tokens_def)
  moreover have "holds s (fst (out_act x))" if "x \<in> set (sy_todo ?s')" for x
  proof -
    from that have "x \<in> set (map (\<lambda>(k, v). SendMsg v m) (filter (\<lambda>(k, v). k \<noteq> h) (members (sy_loop s) ch)))"
      by (simp only: todo)
    then obtain k v where "(k, v) \<in> set (members (sy_loop s) ch)" "x = SendMsg v m" by auto
    with token_invD(3) [OF assms(2) mem] show ?thesis by simp
  qed
  moreover have "DropErr d \<notin> set (sy_todo ?s')" for d unfolding todo by auto
  moreover have "holds ?s' i = holds s i" for i by (simp add: holds_def)
  ultimately show ?thesis using token_invD(1-3) [OF assms(2)] unfolding token_inv_def loop by simp
qed

text \<open>Logging a session off releases its queue; nothing else of the loop names the connection.\<close>

lemma forget_enabled:
  assumes "sys_reach env cfg s tr" and "token_inv s" and "sy_todo s = []" and "member (sy_loop s) ch h = Some i"
  shows "conn_step (env_at env i) (sy_conns s ! i) LoopForget = Some ((sy_conns s ! i)\<lparr>c_loop_tx := False\<rparr>, [])"
proof -
  have hold: "holds s i" by (rule token_invD(3) [OF assms(2,4)])
  have "tokens i s = 0" using registered_once(1) [OF assms(1,4)] assms(3) by (simp add: tokens_def)
  then have "c_err (sy_conns s ! i) \<noteq> ErrInFlight"
    using token_invD(1) [OF assms(2), of i] hold by (auto simp: holds_def)
  with hold show ?thesis by (simp add: quiet_def holds_def)
qed

lemma release_enabled:
  assumes "sys_reach env cfg s tr" and "token_inv s" and "sy_todo s = []"
  shows "release env e s \<noteq> None"
proof (cases "\<exists>h ch i. e = Logoff h ch \<and> member (sy_loop s) ch h = Some i")
  case True
  then obtain h ch i where e: "e = Logoff h ch" "member (sy_loop s) ch h = Some i" by blast
  with forget_enabled [OF assms e(2)] token_invD(3) [OF assms(2) e(2)] show ?thesis
    by (simp add: poke_def holds_def)
next
  case False
  then show ?thesis by (cases e) (auto split: option.splits)
qed

lemma token_take_logoff:
  assumes "sys_reach env cfg s tr" and "token_inv s" and "sy_todo s = []" and chan: "sy_chan s = Logoff h ch # chan"
    and "release env (Logoff h ch) s = Some r"
  shows "token_inv (r\<lparr>sy_chan := chan, sy_loop := handle_logoff h ch (sy_loop s), sy_todo := []\<rparr>)"
  using assms(5)
proof (cases rule: release_cases)
  case same
  have "member (handle_logoff h ch (sy_loop s)) = member (sy_loop s)"
    using same(2) by (auto simp: member_handle_logoff fun_eq_iff)
  with assms(2,3) chan same(1) show ?thesis by (simp add: token_inv_def tokens_def holds_def)
next
  case (forget h' ch' i c out)
  then have i: "member (sy_loop s) ch h = Some i" and c: "c = (sy_conns s ! i)\<lparr>c_loop_tx := False\<rparr>"
    using forget_enabled [OF assms(1-3)] by auto
  let ?s' = "r\<lparr>sy_chan := chan, sy_loop := handle_logoff h ch (sy_loop s), sy_todo := []\<rparr>"
  have "tokens i s = 0" using registered_once(1) [OF assms(1) i] assms(3) by (simp add: tokens_def)
  then have nf: "c_err (sy_conns s ! i) \<noteq> ErrInFlight" using token_invD(1) [OF assms(2) forget(3)] by auto
  have tok: "tokens j ?s' = tokens j s" for j using assms(3) chan by (simp add: tokens_def)
  have "holds ?s' j" if "member (handle_logoff h ch (sy_loop s)) c' x = Some j" for c' x j
  proof -
    have j: "member (sy_loop s) c' x = Some j" "\<not> (c' = ch \<and> x = h)"
      using that by (auto simp: member_handle_logoff split: if_splits)
    then have "j \<noteq> i" using registered_once(2) [OF assms(1) i] by blast
    with token_invD(3) [OF assms(2) j(1)] forget(5) show ?thesis by (auto simp: holds_def)
  qed
  moreover have "tokens j ?s' = (if c_err (sy_conns ?s' ! j) = ErrInFlight then 1 else 0) \<and>
      (c_err (sy_conns ?s' ! j) = ErrInFlight \<longrightarrow> c_loop_tx (sy_conns ?s' ! j))" if "j < length (sy_conns ?s')" for j
    using token_invD(1,2) [OF assms(2), of j] that nf forget(5) c unfolding tok by (cases "j = i") auto
  ultimately show ?thesis unfolding token_inv_def by simp
qed

lemma token_reach: "sys_reach env cfg s tr \<Longrightarrow> token_inv s"
proof (induction rule: sys_reach.induct)
  case start
  show ?case by (simp add: token_inv_def sys_init_def loop_init_def member_def members_def)
next
  case (step s tr a s' tr')
  note r = step.hyps(1) and inv = step.IH
  from step.hyps(2) show ?case
  proof (cases rule: sys_step_cases)
    case connect
    with token_connect [OF r inv] show ?thesis by simp
  next
    case (conn i a c out)
    have "conn_hist (env_at env i) (sy_conns s ! i) (outs_of i tr) (got_by i tr) (sent_to i (did tr))"
      using hists_reach [OF r] conn(2) by (simp add: hists_def)
    from token_conn [OF inv conn(2) this conn(3,1)] conn(5) show ?thesis by simp
  next
    case (take e chan t1 t2 q)
    show ?thesis
    proof (cases e)
      case (Init h ch tx e' m)
      with take(3) have "q = s" by simp
      with token_take_init [OF r inv take(2)] take Init show ?thesis by simp
    next
      case (Msg h ch m)
      with take(3) have "q = s" by simp
      with token_take_msg [OF r inv take(2)] take Msg show ?thesis by simp
    next
      case (Logoff h ch)
      with token_take_logoff [OF r inv take(2)] take show ?thesis by simp
    qed
  next
    case (clean now)
    have "member (handle_cleanup now (sy_loop s)) = member (sy_loop s)" by (simp add: member_def fun_eq_iff)
    with clean inv show ?thesis by (simp add: token_inv_def tokens_def holds_def)
  next
    case (perform x todo c out)
    with token_perform [OF inv perform(1,3)] show ?thesis by simp
  qed
qed

text \<open>
  C12: the event loop never fails and waits for one thing only. Between turns it can always take the
  next event; within a turn it can always do its next send, except a message to a connection whose
  queue is full and whose sender task has not ended. In particular a confirmation or a refusal
  is always possible, and a message is never addressed to a queue the loop no longer holds.
\<close>

theorem loop_waits_for_queue_only:
  assumes "sys_run env cfg sys_init as = Some (s, tr)"
  shows "(sy_todo s = [] \<longrightarrow> sy_chan s \<noteq> [] \<longrightarrow> sys_step env cfg s (Take t1 t2) \<noteq> None) \<and>
         (\<forall>x todo. sy_todo s = x # todo \<longrightarrow>
            (sys_step env cfg s Perform = None \<longleftrightarrow>
             (\<exists>i m. x = SendMsg i m \<and> i < length (sy_conns s) \<and> c_tx (sy_conns s ! i) \<noteq> TxDone \<and>
                WS_BUF \<le> length (c_queue (sy_conns s ! i)))))"
proof -
  note r = sys_run_init_reach [OF assms]
  note inv = token_reach [OF r]
  have "sys_step env cfg s Perform = None \<longleftrightarrow>
      (\<exists>i m. x = SendMsg i m \<and> i < length (sy_conns s) \<and> c_tx (sy_conns s ! i) \<noteq> TxDone \<and>
         WS_BUF \<le> length (c_queue (sy_conns s ! i)))" if x: "sy_todo s = x # todo" for x todo
  proof -
    have hold: "holds s (fst (out_act x))" by (rule token_invD(4) [OF inv]) (simp add: x)
    have "c_err (sy_conns s ! fst (out_act x)) = ErrInFlight" if "answers (fst (out_act x)) x"
      by (rule in_flight_token(1) [OF inv]) (use hold that x in \<open>simp_all add: holds_def tokens_def\<close>)
    with hold x show ?thesis
      by (cases x) (auto simp: poke_def holds_def quiet_def queue_send_def)
  qed
  moreover have "sys_step env cfg s (Take t1 t2) \<noteq> None" if "sy_todo s = []" "sy_chan s \<noteq> []"
    using release_enabled [OF r inv that(1)] that
    by (cases "sy_chan s") (auto split: prod.splits)
  ultimately show ?thesis by blast
qed

definition knock_acts :: "string sys_act list" where
  "knock_acts = [Connect, Conn 0 (RxFrame ''join''), Conn 0 (RxEvent True)]"

theorem loop_waits_for_queue_only_witness:
  "\<exists>s tr. sys_run room_env cfg2 sys_init knock_acts = Some (s, tr) \<and>
     sys_step room_env cfg2 s (Take 1 1) \<noteq> None"
proof -
  have "map_option (\<lambda>(s, tr). (sy_todo s, sy_chan s = [])) (sys_run room_env cfg2 sys_init knock_acts) = Some ([], False)"
    by code_simp
  then obtain s tr where "sys_run room_env cfg2 sys_init knock_acts = Some (s, tr)" "sy_todo s = []" "sy_chan s \<noteq> []"
    by auto
  with loop_waits_for_queue_only [of room_env cfg2 knock_acts s tr 1 1] show ?thesis by blast
qed

section \<open>A deadlock\<close>

text \<open>
  The loop waits for room in the queue of connection \<open>i\<close>; the sender task of that connection, which
  owns the receiving end of the queue, has left its loop and waits for room in the event channel,
  which is full.
\<close>

definition deadlocked :: "'m ws_system \<Rightarrow> nat \<Rightarrow> bool" where
  "deadlocked s i \<longleftrightarrow>
     i < length (sy_conns s) \<and>
     (case sy_todo s of SendMsg j m # todo \<Rightarrow> j = i | _ \<Rightarrow> False) \<and>
     TASK_BUF \<le> length (sy_chan s) \<and>
     WS_BUF \<le> length (c_queue (sy_conns s ! i)) \<and>
     (case c_tx (sy_conns s ! i) of TxLogoff h ch \<Rightarrow> True | _ \<Rightarrow> False)"

lemma logoff_stuck:
  assumes "conn_step env c a = Some (c', out)" and "own_act a" and "events_of out = []"
    and "c_tx c = TxLogoff h ch" and "WS_BUF \<le> length (c_queue c)"
  shows "c_tx c' = c_tx c \<and> c_queue c' = c_queue c"
proof -
  have full: "queue_send item c = None" for item using assms(4,5) by (simp add: queue_send_def)
  from conn_step_trans [OF assms(1)] show ?thesis
  proof (cases rule: conn_trans.cases)
    case (t_first m)
    then show ?thesis
      by (cases rule: rx_first_cases [of env m c]) (auto simp: rx_fail_def rx_return_def identify_def)
  qed (use assms(2-5) full in \<open>auto simp: rx_fail_def rx_return_def rx_finish_def rx_loop_def pg_head_def Let_def\<close>)
qed

lemma deadlocked_step:
  assumes "deadlocked s i" and "sys_step env cfg s act = Some (s', tr)"
  shows "deadlocked s' i \<and> turns tr = [] \<and> did tr = [] \<and> emitted tr = [] \<and>
         sy_loop s' = sy_loop s \<and> sy_todo s' = sy_todo s"
proof -
  obtain m todo h ch where d: "i < length (sy_conns s)" "sy_todo s = SendMsg i m # todo"
    "TASK_BUF \<le> length (sy_chan s)" "WS_BUF \<le> length (c_queue (sy_conns s ! i))" "c_tx (sy_conns s ! i) = TxLogoff h ch"
    using assms(1) by (auto simp: deadlocked_def split: list.splits loop_out.splits tx_pc.splits)
  from assms(2) show ?thesis
  proof (cases rule: sys_step_cases)
    case connect
    with d show ?thesis by (simp add: deadlocked_def nth_append)
  next
    case (conn j a c out)
    have quiet: "events_of out = []" using conn(4) d(3) by (cases "events_of out") simp_all
    have "c_tx c = TxLogoff h ch \<and> c_queue c = c_queue (sy_conns s ! i)" if "j = i"
      using logoff_stuck [OF conn(3,1) quiet] that d(4,5) by simp
    with conn quiet d show ?thesis
      by (cases "j = i") (auto simp: deadlocked_def trace_simps gots_simps)
  next
    case (perform x todo' c out)
    with d show ?thesis by (auto simp: quiet_def queue_send_def split: if_splits)
  qed (use d in simp_all)
qed

text \<open>
  C13: a lost client can stop the service for good. If a client's connection fails while its queue
  is full, the loop is waiting to send to it and the event channel is full, its sender task waits
  for the channel to take its Logoff and the loop waits for the sender task: from then on the loop
  takes no event and sends nothing, whatever happens, and no connection can post any more.
\<close>

theorem logoff_deadlock:
  assumes "deadlocked s i" and "sys_run env cfg s as = Some (s', tr)"
  shows "deadlocked s' i \<and> turns tr = [] \<and> did tr = [] \<and> emitted tr = [] \<and>
         sy_loop s' = sy_loop s \<and> sy_todo s' = sy_todo s"
  using assms
proof (induction as arbitrary: s tr)
  case (Cons a as)
  then obtain s1 tr1 tr2 where *: "sys_step env cfg s a = Some (s1, tr1)"
    "sys_run env cfg s1 as = Some (s', tr2)" "tr = tr1 @ tr2"
    by (auto split: option.splits)
  note step = deadlocked_step [OF Cons.prems(1) *(1)]
  with Cons.IH [OF _ *(2)] *(3) show ?case by (simp add: trace_simps)
qed simp

text \<open>
  How a run gets there: connection 0 posts, connection 1 is registered on the same channel and its
  sender task is stuck writing to a client that does not read.
\<close>

definition jamming :: "nat \<Rightarrow> 'm ws_system \<Rightarrow> bool" where
  "jamming k s \<longleftrightarrow>
     length (sy_conns s) = 2 \<and>
     (let c0 = sy_conns s ! 0; c1 = sy_conns s ! 1
      in c_rx c0 = RxNext \<and> \<not> c_closed c0 \<and> c_h c0 \<noteq> 0 \<and>
         map snd (filter (\<lambda>(xh, tx). xh \<noteq> c_h c0) (members (sy_loop s) (c_ch c0))) = [1] \<and>
         c_loop_tx c1 \<and> c_h c1 \<noteq> 0 \<and> c_ch c1 \<noteq> 0 \<and> length (c_queue c1) = k \<and>
         (case c_tx c1 of TxSend m \<Rightarrow> True | _ \<Rightarrow> False))"

definition idle_loop :: "'m ws_system \<Rightarrow> bool" where
  "idle_loop s \<longleftrightarrow> sy_todo s = [] \<and> sy_chan s = []"

definition speak_acts :: "'m \<Rightarrow> 'm sys_act list" where
  "speak_acts m = [Conn 0 (RxFrame m), Conn 0 (RxEvent True)]"

lemma jam_speak:
  assumes "jamming k s" and "\<not> is_close (env_msg env) m" and "\<not> is_pong (env_msg env) m" and "length (sy_chan s) < TASK_BUF"
  shows "\<exists>s' tr h ch. sys_run env cfg s (speak_acts m) = Some (s', tr) \<and> jamming k s' \<and> sy_todo s' = sy_todo s \<and>
           sy_chan s' = sy_chan s @ [Msg h ch m] \<and> h = c_h (sy_conns s' ! 0) \<and> ch = c_ch (sy_conns s' ! 0)"
proof -
  obtain c0 c1 where c: "sy_conns s = [c0, c1]"
    using assms(1) by (auto simp: jamming_def length_Suc_conv numeral_2_eq_2)
  show ?thesis
    using assms by (auto simp: speak_acts_def jamming_def c Let_def poke_def quiet_def rx_frame_def rx_loop_def rx_event_def)
qed

lemma jam_take:
  assumes "jamming k s" and "sy_todo s = []"
    and "sy_chan s = [Msg (c_h (sy_conns s ! 0)) (c_ch (sy_conns s ! 0)) m]"
  shows "\<exists>s' tr. sys_run env cfg s [Take t1 t2] = Some (s', tr) \<and> jamming k s' \<and> sy_chan s' = [] \<and> sy_todo s' = [SendMsg 1 m]"
proof -
  let ?h = "c_h (sy_conns s ! 0)" and ?ch = "c_ch (sy_conns s ! 0)"
  have one: "map snd (filter (\<lambda>(xh, tx). xh \<noteq> ?h) (members (sy_loop s) ?ch)) = [1]"
    using assms(1) by (simp add: jamming_def Let_def)
  obtain l outs where run: "handle_msg cfg t1 ?h ?ch m (sy_loop s) = (l, outs)" by fastforce
  have "outs = [SendMsg 1 m]"
    using handle_msg_outs [of cfg t1 ?h ?ch m "sy_loop s"] run one
    by (cases "filter (\<lambda>(xh, tx). xh \<noteq> ?h) (members (sy_loop s) ?ch)") auto
  moreover have "members l = members (sy_loop s)" by (rule handle_msg_state(2) [OF run])
  ultimately show ?thesis using assms run by (simp add: jamming_def Let_def)
qed

lemma jam_send:
  assumes "jamming k s" and "sy_chan s = []" and "sy_todo s = [SendMsg 1 m]" and "k < WS_BUF"
  shows "\<exists>s' tr. sys_run env cfg s [Perform] = Some (s', tr) \<and> jamming (Suc k) s' \<and> idle_loop s'"
proof -
  obtain c0 c1 where c: "sy_conns s = [c0, c1]"
    using assms(1) by (auto simp: jamming_def length_Suc_conv numeral_2_eq_2)
  have "c_tx c1 \<noteq> TxDone" using assms(1) by (auto simp: jamming_def c Let_def)
  with assms show ?thesis
    by (auto simp: jamming_def idle_loop_def c Let_def poke_def quiet_def queue_send_def)
qed

text \<open>A message in the queue; a message the loop is to send.\<close>

lemma jam_blocked:
  assumes "jamming k s" and "idle_loop s" and "\<not> is_close (env_msg env) m" and "\<not> is_pong (env_msg env) m"
  shows "\<exists>s' tr. sys_run env cfg s (speak_acts m @ [Take t1 t2]) = Some (s', tr) \<and> jamming k s' \<and>
           sy_chan s' = [] \<and> sy_todo s' = [SendMsg 1 m]"
proof -
  have "length (sy_chan s) < TASK_BUF" using assms(2) by (simp add: idle_loop_def TASK_BUF_def)
  from jam_speak [OF assms(1,3,4) this, of cfg] obtain s1 tr1 where 1: "sys_run env cfg s (speak_acts m) = Some (s1, tr1)"
    "jamming k s1" "sy_todo s1 = []" "sy_chan s1 = [Msg (c_h (sy_conns s1 ! 0)) (c_ch (sy_conns s1 ! 0)) m]"
    using assms(2) by (auto simp: idle_loop_def)
  from jam_take [OF this(2-4)] sys_run_append [OF 1(1)] show ?thesis by blast
qed

lemma jam_queue:
  assumes "jamming k s" and "idle_loop s" and "\<not> is_close (env_msg env) m" and "\<not> is_pong (env_msg env) m"
    and "k + n \<le> WS_BUF"
  shows "\<exists>s' tr. sys_run env cfg s (concat (replicate n (speak_acts m @ [Take t1 t2] @ [Perform]))) = Some (s', tr) \<and>
           jamming (k + n) s' \<and> idle_loop s'"
  using assms
proof (induction n arbitrary: k s)
  case (Suc n)
  obtain s1 tr1 where 1: "sys_run env cfg s (speak_acts m @ [Take t1 t2]) = Some (s1, tr1)" "jamming k s1"
    "sy_chan s1 = []" "sy_todo s1 = [SendMsg 1 m]"
    using jam_blocked [OF Suc.prems(1-4), of cfg t1 t2] by blast
  obtain s2 tr2 where 2: "sys_run env cfg s1 [Perform] = Some (s2, tr2)" "jamming (Suc k) s2" "idle_loop s2"
    using jam_send [OF 1(2-4), of env cfg] Suc.prems(5) by (auto simp del: sys_run.simps)
  obtain s3 tr3 where 3: "sys_run env cfg s2 (concat (replicate n (speak_acts m @ [Take t1 t2] @ [Perform]))) = Some (s3, tr3)"
    "jamming (Suc k + n) s3" "idle_loop s3"
    using Suc.IH [OF 2(2,3) Suc.prems(3,4)] Suc.prems(5) by (auto simp del: sys_run.simps)
  from sys_run_append [OF sys_run_append [OF 1(1) 2(1)] 3(1)] 3(2,3) show ?case by auto
qed simp

lemma jam_channel:
  assumes "jamming k s" and "\<not> is_close (env_msg env) m" and "\<not> is_pong (env_msg env) m"
    and "length (sy_chan s) + n \<le> TASK_BUF"
  shows "\<exists>s' tr. sys_run env cfg s (concat (replicate n (speak_acts m))) = Some (s', tr) \<and>
           jamming k s' \<and> sy_todo s' = sy_todo s \<and> length (sy_chan s') = length (sy_chan s) + n"
  using assms
proof (induction n arbitrary: s)
  case (Suc n)
  obtain s1 tr1 h ch where 1: "sys_run env cfg s (speak_acts m) = Some (s1, tr1)" "jamming k s1"
    "sy_todo s1 = sy_todo s" "sy_chan s1 = sy_chan s @ [Msg h ch m]"
    using jam_speak [OF Suc.prems(1-3), of cfg] Suc.prems(4) by auto
  from Suc.IH [OF 1(2) Suc.prems(2,3)] 1(3,4) Suc.prems(4) sys_run_append [OF 1(1)] show ?case by fastforce
qed simp

lemma jam_lost:
  assumes "jamming WS_BUF s" and "sy_todo s = [SendMsg 1 m]" and "length (sy_chan s) = TASK_BUF"
  shows "\<exists>s' tr. sys_run env cfg s [Conn 1 (TxSent False), Conn 1 (TxSent False)] = Some (s', tr) \<and> deadlocked s' 1"
proof -
  obtain c0 c1 where c: "sy_conns s = [c0, c1]"
    using assms(1) by (auto simp: jamming_def length_Suc_conv numeral_2_eq_2)
  obtain m' where "c_tx c1 = TxSend m'" using assms(1) by (auto simp: jamming_def c Let_def split: tx_pc.splits)
  with assms show ?thesis
    by (auto simp: jamming_def deadlocked_def c Let_def poke_def tx_sent_def tx_cleanup_def)
qed

definition jam_acts :: "'m \<Rightarrow> 'm sys_act list" where
  "jam_acts m =
     (concat (replicate WS_BUF (speak_acts m @ [Take 2 2] @ [Perform])) @ (speak_acts m @ [Take 2 2])) @
     concat (replicate TASK_BUF (speak_acts m)) @ [Conn 1 (TxSent False), Conn 1 (TxSent False)]"

lemma jam_run:
  assumes "jamming 0 s" and "idle_loop s" and "\<not> is_close (env_msg env) m" and "\<not> is_pong (env_msg env) m"
  shows "\<exists>s' tr. sys_run env cfg s (jam_acts m) = Some (s', tr) \<and> deadlocked s' 1"
proof -
  obtain s1 tr1 where 1: "sys_run env cfg s (concat (replicate WS_BUF (speak_acts m @ [Take 2 2] @ [Perform]))) = Some (s1, tr1)"
    "jamming WS_BUF s1" "idle_loop s1"
    using jam_queue [OF assms, of WS_BUF cfg 2 2] by auto
  obtain s2 tr2 where 2: "sys_run env cfg s1 (speak_acts m @ [Take 2 2]) = Some (s2, tr2)" "jamming WS_BUF s2"
    "sy_chan s2 = []" "sy_todo s2 = [SendMsg 1 m]"
    using jam_blocked [OF 1(2,3) assms(3,4), of cfg 2 2] by blast
  obtain s3 tr3 where 3: "sys_run env cfg s2 (concat (replicate TASK_BUF (speak_acts m))) = Some (s3, tr3)"
    "jamming WS_BUF s3" "sy_todo s3 = [SendMsg 1 m]" "length (sy_chan s3) = TASK_BUF"
    using jam_channel [OF 2(2) assms(3,4), of TASK_BUF cfg] 2(3,4) by auto
  obtain s4 tr4 where 4: "sys_run env cfg s3 [Conn 1 (TxSent False), Conn 1 (TxSent False)] = Some (s4, tr4)" "deadlocked s4 1"
    using jam_lost [OF 3(2-4), of env cfg] by blast
  show ?thesis
    unfolding jam_acts_def
    using sys_run_append [OF sys_run_append [OF 1(1) 2(1)] sys_run_append [OF 3(1) 4(1)]] 4(2) by blast
qed

definition meet_acts :: "string sys_act list" where
  "meet_acts = join_acts 0 ''join'' @ join_acts 1 ''enter'' @ [Perform, Conn 1 TxTake]"

theorem logoff_deadlock_witness:
  "\<exists>s tr. sys_run room_env cfg2 sys_init (meet_acts @ jam_acts ''m'') = Some (s, tr) \<and>
     (\<forall>as s' tr'. sys_run room_env cfg2 s as = Some (s', tr') \<longrightarrow> turns tr' = [] \<and> emitted tr' = [])"
proof -
  have "map_option (\<lambda>(s, tr). (jamming 0 s, idle_loop s)) (sys_run room_env cfg2 sys_init meet_acts) = Some (True, True)"
    by code_simp
  then obtain s tr where 1: "sys_run room_env cfg2 sys_init meet_acts = Some (s, tr)" and "jamming 0 s" "idle_loop s"
    by auto
  moreover have "\<not> is_close (env_msg room_env) ''m''" "\<not> is_pong (env_msg room_env) ''m''" by code_simp+
  ultimately obtain s' tr' where 2: "sys_run room_env cfg2 s (jam_acts ''m'') = Some (s', tr')" and "deadlocked s' 1"
    using jam_run [of s room_env "''m''" cfg2] by blast
  with logoff_deadlock [OF this(2)] sys_run_append [OF 1 2] show ?thesis by blast
qed

section \<open>A duplicate that dies early\<close>

text \<open>A connection the loop no longer holds a sender for, and that has sent its Init.\<close>

definition deaf :: "'m ws_conn \<Rightarrow> bool" where
  "deaf c \<longleftrightarrow> \<not> c_loop_tx c \<and> c_rx c \<noteq> RxFirst \<and> (\<forall>e. c_rx c \<noteq> RxSendInit e)"

lemma deaf_trans:
  assumes "deaf s" and "conn_trans env s a s' out"
  shows "deaf s' \<and> (\<forall>m. a \<noteq> LoopSend m)"
  using assms(2)
proof (cases rule: conn_trans.cases)
  case (t_loop m)
  with assms(1) show ?thesis by (auto simp: deaf_def rx_loop_def rx_finish_def Let_def)
next
  case (t_rx_queue item t sent)
  with assms(1) show ?thesis by (auto simp: deaf_def rx_return_def elim: queue_send_cases)
next
  case (t_ping t)
  with assms(1) queue_send_fields [OF t_ping(5)] show ?thesis
    by (auto simp: deaf_def pg_count_def pg_head_def Let_def elim: queue_send_cases)
next
  case (t_ping_err t)
  with assms(1) show ?thesis by (auto simp: deaf_def elim: queue_send_cases)
next
  case (t_pg_end t sent)
  with assms(1) show ?thesis by (auto simp: deaf_def elim: queue_send_cases)
qed (use assms(1) in \<open>auto simp: deaf_def rx_finish_def rx_fail_def rx_return_def pg_head_def tx_cleanup_def\<close>)

lemma deaf_step:
  assumes "sys_step env cfg s act = Some (s', tr)" and "i < length (sy_conns s)" and "deaf (sy_conns s ! i)"
  shows "i < length (sy_conns s') \<and> deaf (sy_conns s' ! i) \<and> sent_to i (did tr) = []"
proof -
  have one: "deaf ((sy_conns s)[j := c] ! i)" if "conn_step (env_at env j) (sy_conns s ! j) a = Some (c, out)" for j a c out
    using deaf_trans [OF assms(3)] conn_step_trans that assms(2,3) by (cases "j = i") fastforce+
  from assms(1) show ?thesis
  proof (cases rule: sys_step_cases)
    case connect
    with assms(2,3) show ?thesis by (simp add: nth_append)
  next
    case (conn j a c out)
    with one [OF conn(3)] assms(2) show ?thesis by (simp add: trace_simps gots_simps)
  next
    case (take e chan t1 t2 r)
    from take(3) show ?thesis
    proof (cases rule: release_cases)
      case same
      with take assms(2,3) show ?thesis by simp
    next
      case (forget h ch j c out)
      with one [OF forget(4)] take assms(2) show ?thesis by simp
    qed
  next
    case (perform x todo c out)
    have "sent_to i [x] = []"
      using deaf_trans [OF assms(3)] conn_step_trans [OF perform(3)] by (cases x) fastforce+
    with one [OF perform(3)] perform assms(2) show ?thesis by simp
  qed (use assms(2,3) in simp_all)
qed

lemma deaf_run:
  assumes "sys_run env cfg s as = Some (s', tr)" and "i < length (sy_conns s)" and "deaf (sy_conns s ! i)"
  shows "sent_to i (did tr) = []"
  using assms
proof (induction as arbitrary: s tr)
  case (Cons a as)
  then obtain s1 tr1 tr2 where *: "sys_step env cfg s a = Some (s1, tr1)"
    "sys_run env cfg s1 as = Some (s', tr2)" "tr = tr1 @ tr2"
    by (auto split: option.splits)
  from deaf_step [OF *(1) Cons.prems(2,3)] Cons.IH [OF *(2)] *(3) show ?case by (simp add: trace_simps)
qed simp

text \<open>A registered connection has sent its Init.\<close>

lemma member_past_init:
  assumes "sys_reach env cfg s tr" and "member (sy_loop s) ch h = Some i"
  shows "i < length (sy_conns s)" "deaf ((sy_conns s ! i)\<lparr>c_loop_tx := False\<rparr>)"
proof -
  obtain e m where "Init h ch i e m \<in> set (handled (turns tr))"
    using member_source [OF assms] by blast
  then have em: "Init h ch i e m \<in> set (emitted tr)" using loop_along(3) [OF assms(1), symmetric] by simp
  obtain j where j: "Init h ch i e m \<in> set (events_of (outs_of j tr))" using emitted_by [OF em] by blast
  show n: "i < length (sy_conns s)" using emitted_init [OF assms(1) em] by simp
  have "j < length (sy_conns s)"
    using hists_reach [OF assms(1)] j by (cases "j < length (sy_conns s)") (auto simp: hists_def)
  then have hist: "conn_hist (env_at env j) (sy_conns s ! j) (outs_of j tr) (got_by j tr) (sent_to j (did tr))"
    using hists_reach [OF assms(1)] by (simp add: hists_def)
  obtain m0 hdr where "session_events (env_at env j) m0 hdr (events_of (outs_of j tr))"
    using conn_hist_session [OF hist] j by fastforce
  from session_event_cases [OF this j] have ji: "j = i" by (auto simp: init_of_def)
  have "trace_inv (env_at env j) (sy_conns s ! j) (events_of (outs_of j tr))"
    using trace_inv_reach [OF conn_hist_reach [OF hist]] .
  with j show "deaf ((sy_conns s ! i)\<lparr>c_loop_tx := False\<rparr>)"
    by (auto simp: ji deaf_def trace_inv_def unidentified_def identified_def)
qed

text \<open>The duplicate: it starts pinging, sends the header of a session that is there, and, with its Init
  still in the event channel, fails to write its ping and the Close frame; its Logoff follows the
  Init into the channel. Then the loop takes the Init, gives its answer, and takes the Logoff.\<close>

definition evict_acts :: "nat \<Rightarrow> 'm \<Rightarrow> system_time \<Rightarrow> 'm sys_act list" where
  "evict_acts n m now =
     (Connect # map (Conn n) [PgFires, PgFires, PgQueue, RxFrame m, RxEvent True, TxTake, TxSent False,
                              TxSent False, TxEvent True]) @
     [Take now now, Perform, Take now now]"

definition dead_duplicate :: "'m ws_conn" where
  "dead_duplicate =
     conn_init\<lparr>c_ping := 1, c_closed := True, c_err := ErrInFlight, c_loop_tx := True, c_rx := RxAwaitErr,
               c_pg := PgTick, c_tx := TxDone\<rparr>"

lemma evict_dies:
  assumes "valid_first env m hdr" and "auth_ok env hdr" and "sy_chan s = []"
    and "hash_header (env_sip env) hdr \<noteq> 0" and "hash_channel (env_sip env) hdr \<noteq> 0"
  shows "\<exists>tr. sys_run env cfg s (Connect # map (Conn (length (sy_conns s))) [PgFires, PgFires, PgQueue, RxFrame m,
      RxEvent True, TxTake, TxSent False, TxSent False, TxEvent True]) =
    Some (s\<lparr>sy_conns := sy_conns s @ [dead_duplicate],
            sy_chan := [init_of (env_at env (length (sy_conns s))) m hdr,
                        Logoff (hash_header (env_sip env) hdr) (hash_channel (env_sip env) hdr)]\<rparr>, tr) \<and>
    did tr = []"
  using assms
  by (simp add: poke_def quiet_def conn_init_def dead_duplicate_def pg_fires_def pg_head_def pg_queue_def
      queue_send_def WS_BUF_def TASK_BUF_def pg_count_def rx_frame_def rx_first_valid identify_def rx_event_def
      tx_take_def tx_sent_def tx_cleanup_def tx_event_def rx_event_pending_def Let_def)

lemma evict_removes:
  assumes "i < length conns" and "member l ch h = Some i"
    and "conn_step (env_at env i) (conns ! i) LoopForget = Some (c, [])"
    and "n = length conns" and "sy_conns s = conns @ [dead_duplicate]" and "sy_loop s = l" and "sy_todo s = []"
    and "sy_chan s = [Init h ch n n m, Logoff h ch]"
  shows "sys_run env cfg s [Take t t, Perform, Take t t] =
    Some (s\<lparr>sy_conns := conns[i := c] @ [dead_duplicate\<lparr>c_err := ErrGone, c_loop_tx := False\<rparr>], sy_chan := [],
            sy_loop := handle_logoff h ch l, sy_todo := []\<rparr>,
          [Turn (Event (Init h ch n n m) t t), Did (DropErr n), Turn (Event (Logoff h ch) t t)])"
  using assms handle_init_dup [of l ch h]
  by (simp add: poke_def quiet_def dead_duplicate_def nth_append list_update_append)

text \<open>C29: a duplicate connection can log off the session it duplicates. In any state in which the loop
  has nothing to do and connection \<^verbatim>\<open>i\<close> holds a session, let another client present the same
  header and be lost while its Init is still in the event channel: its sender task sends the Logoff
  before the refusal has reset the hashes. The loop refuses the duplicate, which was never a member,
  and then removes the original session; connection \<^verbatim>\<open>i\<close> stays as it was but for the loop's sender, and
  is never sent a message again.\<close>

theorem duplicate_evicts_original:
  assumes "sys_run env cfg sys_init as = Some (s, tr)" and "sy_todo s = []" and "sy_chan s = []"
    and "valid_first env m hdr" and "auth_ok env hdr"
    and "h = hash_header (env_sip env) hdr" and "h \<noteq> 0"
    and "ch = hash_channel (env_sip env) hdr" and "ch \<noteq> 0"
    and "member (sy_loop s) ch h = Some i"
  shows "\<exists>s' tr'. sys_run env cfg s (evict_acts (length (sy_conns s)) m now) = Some (s', tr') \<and>
    did tr' = [DropErr (length (sy_conns s))] \<and> member (sy_loop s') ch h = None \<and>
    sy_conns s' ! i = (sy_conns s ! i)\<lparr>c_loop_tx := False\<rparr> \<and>
    (\<forall>bs s'' tr''. sys_run env cfg s' bs = Some (s'', tr'') \<longrightarrow> sent_to i (did tr'') = [])"
proof -
  note r = sys_run_init_reach [OF assms(1)]
  let ?n = "length (sy_conns s)" and ?c = "(sy_conns s ! i)\<lparr>c_loop_tx := False\<rparr>"
  note past = member_past_init [OF r assms(10)]
  let ?s1 = "s\<lparr>sy_conns := sy_conns s @ [dead_duplicate], sy_chan := [Init h ch ?n ?n m, Logoff h ch]\<rparr>"
  obtain tr1 where 1: "sys_run env cfg s (Connect # map (Conn ?n) [PgFires, PgFires, PgQueue, RxFrame m,
      RxEvent True, TxTake, TxSent False, TxSent False, TxEvent True]) = Some (?s1, tr1)" "did tr1 = []"
    using evict_dies [OF assms(4,5,3), of cfg] assms(6-9) by (auto simp: init_of_def env_at_def)
  note 2 = evict_removes [OF past(1) assms(10) forget_enabled [OF r token_reach [OF r] assms(2,10)] refl,
      of ?s1 m cfg now]
  define s' where "s' = ?s1\<lparr>sy_conns := (sy_conns s)[i := ?c] @ [dead_duplicate\<lparr>c_err := ErrGone, c_loop_tx := False\<rparr>],
      sy_chan := [], sy_loop := handle_logoff h ch (sy_loop s), sy_todo := []\<rparr>"
  have "sys_run env cfg s (evict_acts ?n m now) = Some (s', tr1 @ [Turn (Event (Init h ch ?n ?n m) now now), Did (DropErr ?n),
      Turn (Event (Logoff h ch) now now)])"
    unfolding evict_acts_def s'_def using sys_run_append [OF 1(1) 2] assms(2) by simp
  moreover have "sy_conns s' ! i = ?c" "i < length (sy_conns s')" using past(1) by (simp_all add: s'_def nth_append)
  moreover have "member (sy_loop s') ch h = None" by (simp add: s'_def member_handle_logoff)
  ultimately show ?thesis using 1(2) past(2) deaf_run [of env cfg s'] by (auto simp: trace_simps)
qed

definition alone_acts :: "string sys_act list" where
  "alone_acts = join_acts 0 ''join''"

theorem duplicate_evicts_original_witness:
  "\<exists>s tr s' tr'. sys_run room_env cfg2 sys_init alone_acts = Some (s, tr) \<and>
     sys_run room_env cfg2 s (evict_acts 1 ''join'' 6) = Some (s', tr') \<and>
     \<not> c_closed (sy_conns s' ! 0) \<and> c_rx (sy_conns s' ! 0) = RxNext \<and> c_tx (sy_conns s' ! 0) = TxNext \<and>
     member (sy_loop s) 4 19 = Some 0 \<and> member (sy_loop s') 4 19 = None"
proof -
  have "map_option (\<lambda>(s, tr). (sy_todo s, sy_chan s, length (sy_conns s), member (sy_loop s) 4 19,
      c_closed (sy_conns s ! 0), c_rx (sy_conns s ! 0), c_tx (sy_conns s ! 0))) (sys_run room_env cfg2 sys_init alone_acts) =
    Some ([], [], 1, Some 0, False, RxNext, TxNext)"
    by code_simp
  then obtain s tr where s: "sys_run room_env cfg2 sys_init alone_acts = Some (s, tr)" "sy_todo s = []" "sy_chan s = []"
    "length (sy_conns s) = 1" "member (sy_loop s) 4 19 = Some 0"
    "\<not> c_closed (sy_conns s ! 0)" "c_rx (sy_conns s ! 0) = RxNext" "c_tx (sy_conns s ! 0) = TxNext"
    by auto
  have hdr: "valid_first room_env ''join'' demo_hdr" "auth_ok room_env demo_hdr"
    "19 = hash_header (env_sip room_env) demo_hdr" "4 = hash_channel (env_sip room_env) demo_hdr"
    by code_simp+
  show ?thesis
    using duplicate_evicts_original [OF s(1-3) hdr(1,2,3) _ hdr(4) _ s(5), of 6] s by auto
qed

end
