(* ===== verification/Proxy.thy ===== *)
theory Proxy
  imports Http_Headers Rust_Net
begin

text \<open>
  The reverse proxy (\<^verbatim>\<open>src/src/proxy.rs\<close>): matching and stripping a path prefix, the routes of a
  list of rules, forwarding a request to the upstream and its answer to the client, and the
  \<^verbatim>\<open>X-Forwarded-For\<close> header.

  The path filter of warp, the URI parser, the request builder and the HTTP client are
  parameters; so is the header map (\<^verbatim>\<open>Http_Headers\<close>). The client may fail, and it may never answer.
\<close>

section \<open>Requests\<close>

record ('h, 'u) up_request =
  uq_method :: string
  uq_uri :: 'u
  uq_headers :: 'h
  uq_body :: bytes

text \<open>An upstream's answer; collecting its body may fail, or never end (None).\<close>

record 'h up_response =
  us_status :: nat
  us_headers :: 'h
  us_body :: "(string + bytes) option"

text \<open>
  \<^verbatim>\<open>pe_path seg\<close> is the filter \<^verbatim>\<open>warp::path(seg)\<close> on what is left of the path: the rest after the
  segment, or None when it does not match. \<^verbatim>\<open>pe_build\<close> is the builder's verdict on a request
  (an error message or None), \<^verbatim>\<open>pe_send\<close> the client: None is an upstream that never answers, for which the
  code sets no time limit.
\<close>

record ('h, 'u) proxy_env =
  pe_hdr :: "'h header_ops"
  pe_path :: "string \<Rightarrow> string \<Rightarrow> string option"
  pe_parse :: "string \<Rightarrow> string + 'u"
  pe_build :: "('h, 'u) up_request \<Rightarrow> string option"
  pe_send :: "('h, 'u) up_request \<Rightarrow> (string + 'h up_response) option"

text \<open>
  A request as the filters see it. \<^verbatim>\<open>rq_body\<close> is what \<^verbatim>\<open>warp::body::bytes()\<close> yields next: None
  when reading it fails, and once a filter has taken it.
\<close>

record 'h request =
  rq_path :: string
  rq_query :: "string option"
  rq_method :: string
  rq_headers :: 'h
  rq_client :: "socket_addr option"
  rq_body :: "bytes option"

datatype rejection = Rejected | Filtered

text \<open>What a route makes of a request: the request as it leaves it and the outcome; None if it never returns.\<close>

type_synonym 'h route = "'h request \<Rightarrow> ('h request \<times> (rejection + 'h reply)) option"

section \<open>The prefix filter\<close>

definition prefix_segments :: "string \<Rightarrow> string list" where
  "prefix_segments p = filter (\<lambda>s. s \<noteq> []) (str_split (CHR ''/'') p)"

fun match_segments :: "(string \<Rightarrow> string \<Rightarrow> string option) \<Rightarrow> string list \<Rightarrow> string \<Rightarrow> string option" where
  "match_segments path [] rest = Some rest"
| "match_segments path (seg # segs) rest =
     (case path seg rest of None \<Rightarrow> None | Some rest' \<Rightarrow> match_segments path segs rest')"

definition prefix_filter :: "(string \<Rightarrow> string \<Rightarrow> string option) \<Rightarrow> string \<Rightarrow> string \<Rightarrow> string option" where
  "prefix_filter path p rest = match_segments path (prefix_segments p) rest"

section \<open>X-Forwarded-For\<close>

definition X_FORWARDED_FOR :: string where
  "X_FORWARDED_FOR = ''x-forwarded-for''"

definition prior_entries :: "'h header_ops \<Rightarrow> 'h \<Rightarrow> string list" where
  "prior_entries ops headers =
     filter (\<lambda>v. v \<noteq> [])
       (map str_trim (List.map_filter (hv_to_str ops) (hdr_get_all ops headers X_FORWARDED_FOR)))"

definition forwarded_for :: "'h header_ops \<Rightarrow> 'h \<Rightarrow> ip_addr option \<Rightarrow> string option" where
  "forwarded_for ops headers client_ip =
     (let prior = prior_entries ops headers
      in case (prior = [], client_ip) of
           (True, None) \<Rightarrow> None
         | (True, Some ip) \<Rightarrow> Some (ip_string ip)
         | (False, None) \<Rightarrow> Some (str_join '', '' prior)
         | (False, Some ip) \<Rightarrow> Some (str_join '', '' prior @ '', '' @ ip_string ip))"

definition with_forwarded_for :: "'h header_ops \<Rightarrow> 'h \<Rightarrow> ip_addr option \<Rightarrow> 'h" where
  "with_forwarded_for ops headers client_ip =
     (case Option.bind (forwarded_for ops headers client_ip) (hv_from_str ops) of
        Some v \<Rightarrow> hdr_insert ops X_FORWARDED_FOR v headers
      | None \<Rightarrow> headers)"

section \<open>Forwarding\<close>

definition forward_url :: "string \<Rightarrow> string \<Rightarrow> string \<Rightarrow> string" where
  "forward_url upstream tail query =
     (let path = (if tail = [] then [] else ''/'' @ tail)
      in if query = [] then upstream @ path else upstream @ path @ ''?'' @ query)"

definition request_headers :: "'h header_ops \<Rightarrow> 'h \<Rightarrow> 'h" where
  "request_headers ops headers =
     foldl (\<lambda>h (n, v). hdr_append ops n v h) (hdr_new ops)
       (filter (\<lambda>(n, v). n \<noteq> ''host'') (hdr_iter ops headers))"

definition reply_headers :: "'h header_ops \<Rightarrow> 'h \<Rightarrow> 'h" where
  "reply_headers ops headers =
     foldl (\<lambda>h (n, v). hdr_insert ops n v h) (hdr_new ops)
       (filter (\<lambda>(n, v). n \<noteq> ''transfer-encoding'') (hdr_iter ops headers))"

text \<open>None: the upstream does not answer, or its body does not end, and the request waits for ever.\<close>

definition forward ::
  "('h, 'u) proxy_env \<Rightarrow> string \<Rightarrow> string \<Rightarrow> string \<Rightarrow> string \<Rightarrow> 'h \<Rightarrow> bytes \<Rightarrow> (string + 'h reply) option" where
  "forward env upstream tail query method headers body =
     (case pe_parse env (forward_url upstream tail query) of
        Inl e \<Rightarrow> Some (Inl (''bad uri: '' @ e))
      | Inr uri \<Rightarrow>
          let req = \<lparr>uq_method = method, uq_uri = uri,
                     uq_headers = request_headers (pe_hdr env) headers, uq_body = body\<rparr>
          in case pe_build env req of
               Some e \<Rightarrow> Some (Inl (''build request: '' @ e))
             | None \<Rightarrow>
                 (case pe_send env req of
                    None \<Rightarrow> None
                  | Some (Inl e) \<Rightarrow> Some (Inl (''upstream error: '' @ e))
                  | Some (Inr resp) \<Rightarrow>
                      (case us_body resp of
                         None \<Rightarrow> None
                       | Some (Inl e) \<Rightarrow> Some (Inl (''collect body: '' @ e))
                       | Some (Inr b) \<Rightarrow>
                           Some (Inr \<lparr>rp_status = us_status resp,
                                      rp_headers = reply_headers (pe_hdr env) (us_headers resp),
                                      rp_body = b\<rparr>))))"

section \<open>Routes\<close>

text \<open>
  \<^verbatim>\<open>f.or(g)\<close>: the second filter is tried when the first one rejects. The path is matched anew; a
  body that was taken stays taken.
\<close>

definition or_route :: "'h route \<Rightarrow> 'h route \<Rightarrow> 'h route" where
  "or_route f g rq =
     (case f rq of
        None \<Rightarrow> None
      | Some (rq', Inr r) \<Rightarrow> Some (rq', Inr r)
      | Some (rq', Inl e) \<Rightarrow> g rq')"

definition proxy_route :: "('h, 'u) proxy_env \<Rightarrow> string \<times> string \<Rightarrow> 'h route" where
  "proxy_route env rule rq =
     (case prefix_filter (pe_path env) (fst rule) (rq_path rq) of
        None \<Rightarrow> Some (rq, Inl Filtered)
      | Some tail \<Rightarrow>
          let query = (case rq_query rq of Some q \<Rightarrow> q | None \<Rightarrow> [])
          in case rq_body rq of
               None \<Rightarrow> Some (rq, Inl Filtered)
             | Some body \<Rightarrow>
                 let rq' = rq\<lparr>rq_body := None\<rparr>;
                     headers = with_forwarded_for (pe_hdr env) (rq_headers rq)
                                 (map_option sa_ip (rq_client rq))
                 in case forward env (snd rule) tail query (rq_method rq) headers body of
                      None \<Rightarrow> None
                    | Some (Inl e) \<Rightarrow> Some (rq', Inl Rejected)
                    | Some (Inr r) \<Rightarrow> Some (rq', Inr r))"

text \<open>The loop over the rules; None is the panic on an empty list.\<close>

fun combine_routes :: "('h, 'u) proxy_env \<Rightarrow> 'h route option \<Rightarrow> (string \<times> string) list \<Rightarrow> 'h route option" where
  "combine_routes env combined [] = combined"
| "combine_routes env combined (rule # rules) =
     combine_routes env
       (Some (case combined of
                None \<Rightarrow> proxy_route env rule
              | Some prev \<Rightarrow> or_route prev (proxy_route env rule))) rules"

definition create_proxy_routes :: "('h, 'u) proxy_env \<Rightarrow> (string \<times> string) list \<Rightarrow> 'h route option" where
  "create_proxy_routes env rules = combine_routes env None rules"

section \<open>Matching a prefix\<close>

text \<open>What the prefix filter relies on: \<^verbatim>\<open>warp::path(seg)\<close> matches exactly the next segment.\<close>

locale warp_paths =
  fixes path :: "string \<Rightarrow> string \<Rightarrow> string option"
  assumes path_iff: "seg \<noteq> [] \<Longrightarrow> CHR ''/'' \<notin> set seg \<Longrightarrow>
    path seg rest = Some r \<longleftrightarrow> rest = seg @ CHR ''/'' # r \<or> rest = seg \<and> r = []"
begin

lemma match_segments_iff:
  assumes "ss \<noteq> []" and "\<forall>s \<in> set ss. s \<noteq> [] \<and> CHR ''/'' \<notin> set s"
  shows "match_segments path ss rest = Some r \<longleftrightarrow>
    rest = str_join ''/'' ss @ CHR ''/'' # r \<or> rest = str_join ''/'' ss \<and> r = []"
  using assms
proof (induction ss arbitrary: rest)
  case (Cons s ss)
  show ?case
  proof (cases "ss = []")
    case True
    with Cons.prems path_iff [of s rest r] show ?thesis by (cases "path s rest") auto
  next
    case False
    then obtain q qs where q: "ss = q # qs" by (cases ss) auto
    have ne: "str_join ''/'' ss \<noteq> []"
      using Cons.prems(2) q by (intro str_join_not_Nil) simp_all
    have "match_segments path (s # ss) rest = Some r \<longleftrightarrow>
          (\<exists>r'. path s rest = Some r' \<and> match_segments path ss r' = Some r)"
      by (simp split: option.split)
    also have "\<dots> \<longleftrightarrow> (\<exists>r'. (rest = s @ CHR ''/'' # r' \<or> rest = s \<and> r' = []) \<and>
        (r' = str_join ''/'' ss @ CHR ''/'' # r \<or> r' = str_join ''/'' ss \<and> r = []))"
      using Cons.IH False Cons.prems path_iff by simp
    also have "\<dots> \<longleftrightarrow> rest = s @ CHR ''/'' # str_join ''/'' ss @ CHR ''/'' # r \<or>
        rest = s @ CHR ''/'' # str_join ''/'' ss \<and> r = []"
      using ne by auto
    finally show ?thesis by (simp add: q)
  qed
qed simp

lemma prefix_filter_iff_segments:
  assumes "prefix_segments p \<noteq> []"
  shows "prefix_filter path p rest = Some r \<longleftrightarrow>
    rest = str_join ''/'' (prefix_segments p) @ CHR ''/'' # r \<or>
    rest = str_join ''/'' (prefix_segments p) \<and> r = []"
  unfolding prefix_filter_def
  by (rule match_segments_iff [OF assms]) (auto simp: prefix_segments_def dest: str_split_piece)

end

definition warp_path :: "string \<Rightarrow> string \<Rightarrow> string option" where
  "warp_path seg rest =
     (case splitn2 (CHR ''/'') rest of
        (s, r) \<Rightarrow> if s = seg then Some (case r of Some r \<Rightarrow> r | None \<Rightarrow> []) else None)"

lemma splitn2_cases:
  obtains (none) "c \<notin> set s" "splitn2 c s = (s, None)"
    | (some) a b where "s = a @ c # b" "c \<notin> set a" "splitn2 c s = (a, Some b)"
  using splitn2_no_sep splitn2_sep by (cases "c \<in> set s") (metis split_list_first)+

lemma split_unique:
  assumes "a @ (c :: char) # b = a' @ c # b'" and "c \<notin> set a" and "c \<notin> set a'"
  shows "a = a' \<and> b = b'"
proof -
  have "(a, Some b) = (a', Some b')"
    by (simp only: splitn2_sep [OF assms(2), symmetric] splitn2_sep [OF assms(3), symmetric] assms(1))
  then show ?thesis by simp
qed

interpretation wp: warp_paths warp_path
proof
  fix seg rest r :: string
  assume "seg \<noteq> []" and "CHR ''/'' \<notin> set seg"
  then show "warp_path seg rest = Some r \<longleftrightarrow> rest = seg @ CHR ''/'' # r \<or> rest = seg \<and> r = []"
    by (cases rule: splitn2_cases [of "CHR ''/''" rest])
       (auto simp: warp_path_def splitn2_sep dest: split_unique)
qed

text \<open>A rule with at least one non-empty segment in its prefix matches exactly the paths that
  are the prefix, or the prefix, a slash and a tail, where the prefix is read without leading,
  trailing or doubled slashes; the tail is what is forwarded. So a path that merely begins with
  the same letters is not captured.\<close>

theorem prefix_filter_iff:
  assumes "warp_paths path" and "prefix_segments p \<noteq> []"
  shows "prefix_filter path p rest = Some tail \<longleftrightarrow>
    rest = str_join ''/'' (prefix_segments p) @ CHR ''/'' # tail \<or>
    rest = str_join ''/'' (prefix_segments p) \<and> tail = []"
  using warp_paths.prefix_filter_iff_segments [OF assms] .

theorem prefix_filter_iff_witness:
  "prefix_filter warp_path ''/api//keeper/'' ''api/keeper/verify'' = Some ''verify'' \<and>
   prefix_filter warp_path ''/api//keeper/'' ''api/keepers'' = None"
proof -
  have seg: "prefix_segments ''/api//keeper/'' = [''api'', ''keeper'']" by code_simp
  have "prefix_filter warp_path ''/api//keeper/'' ''api/keepers'' \<noteq> Some t" for t
    using prefix_filter_iff [OF wp.warp_paths_axioms, of "''/api//keeper/''" "''api/keepers''" t] seg
    by simp
  then have "prefix_filter warp_path ''/api//keeper/'' ''api/keepers'' = None" by blast
  then show ?thesis
    using prefix_filter_iff [OF wp.warp_paths_axioms, of "''/api//keeper/''" "''api/keeper/verify''" "''verify''"] seg
    by simp
qed

section \<open>The first matching rule\<close>

lemma or_route_assoc: "or_route (or_route f g) h = or_route f (or_route g h)"
  by (rule ext) (auto simp: or_route_def split: option.split prod.split sum.split)

lemma combine_routes_Some:
  "combine_routes env (Some f) rules = Some (foldl or_route f (map (proxy_route env) rules))"
  by (induction rules arbitrary: f) simp_all

lemma create_proxy_routes_Cons:
  "create_proxy_routes env (rule # rules) =
   Some (foldl or_route (proxy_route env rule) (map (proxy_route env) rules))"
  by (simp add: create_proxy_routes_def combine_routes_Some)

lemma foldl_or_rejected:
  "f rq = Some (rq', Inl e) \<Longrightarrow> gs \<noteq> [] \<Longrightarrow>
   foldl or_route f gs rq = foldl or_route (hd gs) (tl gs) rq'"
proof (induction gs arbitrary: f rule: rev_induct)
  case (snoc g gs)
  then show ?case by (cases "gs = []") (simp_all add: or_route_def)
qed simp

lemma foldl_or_replied:
  "f rq = Some (rq', Inr r) \<Longrightarrow> foldl or_route f gs rq = Some (rq', Inr r)"
  "f rq = None \<Longrightarrow> foldl or_route f gs rq = None"
  by (induction gs rule: rev_induct) (simp_all add: or_route_def)

lemma proxy_route_filtered:
  "prefix_filter (pe_path env) (fst rule) (rq_path rq) = None \<or> rq_body rq = None \<Longrightarrow>
   proxy_route env rule rq = Some (rq, Inl Filtered)"
  by (auto simp: proxy_route_def split: option.split)

lemma foldl_or_filtered:
  assumes "f rq = Some (rq, Inl e)" and "\<forall>g \<in> set gs. g rq = Some (rq, Inl Filtered)"
  shows "\<exists>e'. foldl or_route f gs rq = Some (rq, Inl e')"
  using assms(2)
proof (induction gs rule: rev_induct)
  case Nil
  with assms(1) show ?case by simp
qed (auto simp: or_route_def)

text \<open>Rules that do not match are passed over.\<close>

lemma foldl_or_skip:
  assumes "f rq = Some (rq, Inl e)" and "\<forall>r \<in> set pre. proxy_route env r rq = Some (rq, Inl Filtered)"
  shows "foldl or_route f (map (proxy_route env) (pre @ rule # post)) rq =
         foldl or_route (proxy_route env rule) (map (proxy_route env) post) rq"
  using assms
proof (induction pre arbitrary: f e)
  case Nil
  then show ?case using foldl_or_rejected [of f rq rq e "map (proxy_route env) (rule # post)"] by simp
next
  case (Cons r pre)
  have "foldl or_route f (map (proxy_route env) ((r # pre) @ rule # post)) rq =
        foldl or_route (proxy_route env r) (map (proxy_route env) (pre @ rule # post)) rq"
    using foldl_or_rejected [of f rq rq e "map (proxy_route env) ((r # pre) @ rule # post)"] Cons.prems
    by simp
  with Cons.IH [of "proxy_route env r" Filtered] Cons.prems show ?case by simp
qed

lemma create_proxy_routes_skip:
  assumes "\<forall>r \<in> set pre. prefix_filter (pe_path env) (fst r) (rq_path rq) = None"
  obtains f where "create_proxy_routes env (pre @ rule # post) = Some f"
    "f rq = foldl or_route (proxy_route env rule) (map (proxy_route env) post) rq"
proof (cases pre)
  case Nil
  with that show thesis by (simp add: create_proxy_routes_Cons)
next
  case (Cons r pre')
  let ?f = "foldl or_route (proxy_route env r) (map (proxy_route env) (pre' @ rule # post))"
  have "create_proxy_routes env (pre @ rule # post) = Some ?f"
    by (simp add: Cons create_proxy_routes_Cons)
  moreover have "?f rq = foldl or_route (proxy_route env rule) (map (proxy_route env) post) rq"
    using assms by (intro foldl_or_skip [where e = Filtered]) (auto simp: Cons proxy_route_filtered)
  ultimately show thesis by (rule that)
qed

text \<open>The outcome of handing the request to one rule.\<close>

definition forwarded_by :: "('h, 'u) proxy_env \<Rightarrow> string \<Rightarrow> string \<Rightarrow> bytes \<Rightarrow> 'h request \<Rightarrow> (string + 'h reply) option" where
  "forwarded_by env upstream tail body rq =
     forward env upstream tail (case rq_query rq of Some q \<Rightarrow> q | None \<Rightarrow> []) (rq_method rq)
       (with_forwarded_for (pe_hdr env) (rq_headers rq) (map_option sa_ip (rq_client rq))) body"

lemma proxy_route_matched:
  assumes "prefix_filter (pe_path env) (fst rule) (rq_path rq) = Some tail" and "rq_body rq = Some body"
  shows "proxy_route env rule rq =
    map_option (\<lambda>res. (rq\<lparr>rq_body := None\<rparr>, case res of Inl e \<Rightarrow> Inl Rejected | Inr r \<Rightarrow> Inr r))
      (forwarded_by env (snd rule) tail body rq)"
  using assms by (simp add: proxy_route_def forwarded_by_def Let_def split: option.split sum.split)

lemma failed_rule_rejects:
  assumes "\<forall>r \<in> set pre. prefix_filter (pe_path env) (fst r) (rq_path rq) = None"
    and "prefix_filter (pe_path env) (fst rule) (rq_path rq) = Some tail"
    and "rq_body rq = Some body" and "forwarded_by env (snd rule) tail body rq = Some (Inl e)"
  shows "\<exists>f e'. create_proxy_routes env (pre @ rule # post) = Some f \<and> f rq = Some (rq\<lparr>rq_body := None\<rparr>, Inl e')"
proof -
  obtain f where f: "create_proxy_routes env (pre @ rule # post) = Some f"
    "f rq = foldl or_route (proxy_route env rule) (map (proxy_route env) post) rq"
    using create_proxy_routes_skip [OF assms(1)] .
  let ?rq = "rq\<lparr>rq_body := None\<rparr>"
  have rej: "proxy_route env rule rq = Some (?rq, Inl Rejected)"
    using proxy_route_matched [OF assms(2,3)] assms(4) by simp
  have late: "proxy_route env r ?rq = Some (?rq, Inl Filtered)" for r
    by (rule proxy_route_filtered) simp
  show ?thesis
  proof (cases post)
    case Nil
    with rej f show ?thesis by simp
  next
    case (Cons r rs)
    have "\<exists>e'. foldl or_route (proxy_route env r) (map (proxy_route env) rs) ?rq = Some (?rq, Inl e')"
      using late by (intro foldl_or_filtered [where e = Filtered]) auto
    with f Cons foldl_or_rejected [of "proxy_route env rule" rq ?rq Rejected "map (proxy_route env) post"] rej
    show ?thesis by auto
  qed
qed

text \<open>A path under a prefix, and what is left of it: the prefix is read without leading, trailing or doubled
  slashes; a prefix without a segment is every path's.\<close>

definition stripped :: "string \<Rightarrow> string \<Rightarrow> string \<Rightarrow> bool" where
  "stripped p path tail \<longleftrightarrow>
     (if prefix_segments p = [] then tail = path
      else path = str_join ''/'' (prefix_segments p) @ CHR ''/'' # tail \<or>
           path = str_join ''/'' (prefix_segments p) \<and> tail = [])"

lemma prefix_filter_stripped:
  assumes "warp_paths path"
  shows "prefix_filter path p rest = Some tail \<longleftrightarrow> stripped p rest tail"
proof (cases "prefix_segments p = []")
  case True
  then show ?thesis by (auto simp: prefix_filter_def stripped_def)
next
  case False
  then show ?thesis
    using warp_paths.prefix_filter_iff_segments [OF assms False] by (simp add: stripped_def)
qed

lemma prefix_filter_unmatched:
  "warp_paths path \<Longrightarrow> prefix_filter path p rest = None \<longleftrightarrow> (\<forall>t. \<not> stripped p rest t)"
  by (metis not_None_eq prefix_filter_stripped)

text \<open>C37: a request is handled by the first rule whose prefix its path has, and by that rule alone. What is
  forwarded to the rule's upstream is the path after the prefix and its slash (nothing, when the path is the
  prefix), with the query, the method, the headers with the client's address, and the body. If the
  upstream answers, that is the reply; if it fails, the request is rejected, whatever rules follow,
  because its body has been taken; if it never answers, neither does the route. Without rules there are no routes
  to build.\<close>

theorem proxy_first_match:
  assumes "warp_paths (pe_path env)"
    and "\<forall>r \<in> set pre. \<forall>t. \<not> stripped (fst r) (rq_path rq) t"
    and "stripped (fst rule) (rq_path rq) tail"
    and "rq_body rq = Some body"
  shows "create_proxy_routes env [] = None \<and>
    (\<exists>f. create_proxy_routes env (pre @ rule # post) = Some f \<and>
       (case forward env (snd rule) tail (case rq_query rq of Some q \<Rightarrow> q | None \<Rightarrow> []) (rq_method rq)
               (with_forwarded_for (pe_hdr env) (rq_headers rq) (map_option sa_ip (rq_client rq))) body of
          None \<Rightarrow> f rq = None
        | Some (Inr r) \<Rightarrow> f rq = Some (rq\<lparr>rq_body := None\<rparr>, Inr r)
        | Some (Inl e) \<Rightarrow> (\<exists>e'. f rq = Some (rq\<lparr>rq_body := None\<rparr>, Inl e'))))"
proof -
  have pre: "\<forall>r \<in> set pre. prefix_filter (pe_path env) (fst r) (rq_path rq) = None"
    and hit: "prefix_filter (pe_path env) (fst rule) (rq_path rq) = Some tail"
    using assms(2,3) by (simp_all add: prefix_filter_unmatched [OF assms(1)] prefix_filter_stripped [OF assms(1)])
  obtain f where f: "create_proxy_routes env (pre @ rule # post) = Some f"
    "f rq = foldl or_route (proxy_route env rule) (map (proxy_route env) post) rq"
    using create_proxy_routes_skip [OF pre] .
  note m = proxy_route_matched [OF hit assms(4)]
  have "case forwarded_by env (snd rule) tail body rq of
          None \<Rightarrow> f rq = None
        | Some (Inr r) \<Rightarrow> f rq = Some (rq\<lparr>rq_body := None\<rparr>, Inr r)
        | Some (Inl e) \<Rightarrow> (\<exists>e'. f rq = Some (rq\<lparr>rq_body := None\<rparr>, Inl e'))"
  proof (cases "forwarded_by env (snd rule) tail body rq")
    case None
    then show ?thesis using f(2) m foldl_or_replied(2) [of "proxy_route env rule" rq] by simp
  next
    case (Some res)
    then show ?thesis
      using f m foldl_or_replied(1) [of "proxy_route env rule" rq "rq\<lparr>rq_body := None\<rparr>"]
        failed_rule_rejects [OF pre hit assms(4), of _ post] by (cases res) auto
  qed
  with f(1) show ?thesis unfolding forwarded_by_def by (auto simp: create_proxy_routes_def)
qed

section \<open>What the upstream and the client see\<close>

context header_map
begin

lemma get_request_headers:
  "hdr_get_all ops (request_headers ops headers) n =
   (if n = ''host'' then [] else hdr_get_all ops headers n)"
  by (simp add: request_headers_def get_append_all get_new values_of_filter get_iter)

lemma get_reply_headers:
  "hdr_get_all ops (reply_headers ops headers) n =
   (if n = ''transfer-encoding'' \<or> hdr_get_all ops headers n = [] then []
    else [last (hdr_get_all ops headers n)])"
  by (simp add: reply_headers_def get_insert_all get_new values_of_filter get_iter)

lemma prior_text: "p \<in> set (prior_entries ops headers) \<Longrightarrow> list_all value_char p \<and> p \<noteq> []"
  using set_str_trim
  by (fastforce simp: prior_entries_def map_filter_def to_str_iff list_all_iff split: if_splits)

lemma addr_value: "list_all value_char (ip_string ip)"
proof -
  have "value_char c" if "addr_char c" for c
    using that by (auto simp: addr_char_def value_char_def Let_def)
  with addr_char_ip [of ip] show ?thesis by (auto simp: list_all_iff)
qed

lemma comma_value: "list_all value_char '', ''"
  by (simp add: value_char_def)

lemma forwarded_for_text: "forwarded_for ops headers ip = Some v \<Longrightarrow> list_all value_char v"
proof -
  have "list_all value_char (str_join '', '' (prior_entries ops headers))"
    using comma_value prior_text by (intro list_all_join) (auto simp: list_all_iff [of "list_all _"])
  then show "list_all value_char v" if "forwarded_for ops headers ip = Some v"
    using that addr_value comma_value
    by (auto simp: forwarded_for_def Let_def split: bool.splits option.splits)
qed

lemma get_with_forwarded_for:
  "hdr_get_all ops (with_forwarded_for ops headers ip) n =
   (case forwarded_for ops headers ip of
      Some v \<Rightarrow> if n = X_FORWARDED_FOR then [v] else hdr_get_all ops headers n
    | None \<Rightarrow> hdr_get_all ops headers n)"
  using forwarded_for_text [of headers ip]
  by (simp add: with_forwarded_for_def from_str_text get_insert split: option.split)

lemma forwarded_for_client:
  obtains v where "forwarded_for ops headers (Some ip) = Some v"
    "str_trim (last (str_split (CHR '','') v)) = ip_string ip"
    "v = str_join '', '' (prior_entries ops headers @ [ip_string ip])"
proof (cases "prior_entries ops headers = []")
  case True
  then have "forwarded_for ops headers (Some ip) = Some (ip_string ip)"
    by (simp add: forwarded_for_def)
  then show thesis
    using True by (intro that) (simp_all add: str_split_no_sep ip_string_no_comma)
next
  case False
  let ?v = "str_join '', '' (prior_entries ops headers) @ '', '' @ ip_string ip"
  have "visible (hd (ip_string ip))" "visible (last (ip_string ip))"
    using addr_char_ip [of ip] addr_char_visible by (simp_all add: list_all_iff)
  have "last (str_split (CHR '','') ?v) = CHR '' '' # ip_string ip"
    using last_split_append_sep [of "CHR '',''" "CHR '' '' # ip_string ip"
        "str_join '', '' (prior_entries ops headers)"] ip_string_no_comma by simp
  moreover have "str_trim (CHR '' '' # ip_string ip) = ip_string ip"
    using ip_string_trim [of ip] by (simp add: str_trim_def trim_by.simps [of ws_front "CHR '' '' # _"] ascii_ws_def)
  ultimately show thesis
    using False by (intro that [of ?v]) (simp_all add: forwarded_for_def str_join_snoc)
qed

end

text \<open>A sample environment: one upstream answers, with two cookies, one never answers, every other one
  refuses.\<close>

definition demo_up :: "(string \<times> string) list up_response" where
  "demo_up =
     \<lparr>us_status = 200,
      us_headers = [(''set-cookie'', ''a=1''), (''transfer-encoding'', ''chunked''), (''set-cookie'', ''b=2'')],
      us_body = Some (Inr [79, 75])\<rparr>"

definition demo_proxy :: "((string \<times> string) list, string) proxy_env" where
  "demo_proxy =
     \<lparr>pe_hdr = list_headers, pe_path = warp_path, pe_parse = Inr, pe_build = (\<lambda>q. None),
      pe_send = (\<lambda>q. if prefix ''http://up'' (uq_uri q) then Some (Inr demo_up)
                     else if prefix ''http://mute'' (uq_uri q) then None else Some (Inl ''refused''))\<rparr>"

definition demo_rq :: "(string \<times> string) list request" where
  "demo_rq =
     \<lparr>rq_path = ''keeper/verify'', rq_query = Some ''x=1'', rq_method = ''GET'',
      rq_headers = [(''host'', ''mles.io''), (''x-forwarded-for'', ''10.0.0.1''),
                    (''x-forwarded-for'', '' 192.0.2.7'')],
      rq_client = Some \<lparr>sa_ip = V4 (Ipv4 81 2 3 4), sa_port = 4000\<rparr>, rq_body = Some []\<rparr>"

theorem proxy_first_match_witness:
  "\<exists>f r. create_proxy_routes demo_proxy [(''key'', ''http://down''), (''keeper'', ''http://up''), (''keeper'', ''http://down'')] = Some f \<and>
     f demo_rq = Some (demo_rq\<lparr>rq_body := None\<rparr>, Inr r) \<and> rp_body r = [79, 75]"
proof -
  have paths: "warp_paths (pe_path demo_proxy)" by (simp add: demo_proxy_def wp.warp_paths_axioms)
  have seg: "prefix_segments ''key'' = [''key'']" "prefix_segments ''keeper'' = [''keeper'']" by code_simp+
  have pre: "\<forall>r \<in> set [(''key'', ''http://down'')]. \<forall>t. \<not> stripped (fst r) (rq_path demo_rq) t"
    and hit: "stripped (fst (''keeper'', ''http://up'')) (rq_path demo_rq) ''verify''"
    and body: "rq_body demo_rq = Some []"
    by (simp_all add: stripped_def seg demo_rq_def)
  let ?fwd = "forward demo_proxy ''http://up'' ''verify'' (case rq_query demo_rq of Some q \<Rightarrow> q | None \<Rightarrow> [])
      (rq_method demo_rq) (with_forwarded_for (pe_hdr demo_proxy) (rq_headers demo_rq) (map_option sa_ip (rq_client demo_rq))) []"
  have "case ?fwd of Some (Inr r) \<Rightarrow> rp_body r = [79, 75] | _ \<Rightarrow> False" by code_simp
  then obtain r where r: "?fwd = Some (Inr r)" "rp_body r = [79, 75]"
    by (auto split: option.splits sum.splits)
  with proxy_first_match [OF paths pre hit body, of "[(''keeper'', ''http://down'')]"] show ?thesis by auto
qed

text \<open>When the client's address is known, the upstream receives exactly one
  \<^verbatim>\<open>X-Forwarded-For\<close> header: the client's own entries in their order, then the address. So its
  rightmost entry is always the address of the connection, whatever the client sent. All other
  headers are as they came.\<close>

theorem forwarded_for_rightmost:
  assumes "header_map ops"
  shows "(\<exists>v. hdr_get_all ops (with_forwarded_for ops headers (Some ip)) X_FORWARDED_FOR = [v] \<and>
            v = str_join '', '' (prior_entries ops headers @ [ip_string ip]) \<and>
            str_trim (last (str_split (CHR '','') v)) = ip_string ip) \<and>
         (\<forall>n. n \<noteq> X_FORWARDED_FOR \<longrightarrow>
            hdr_get_all ops (with_forwarded_for ops headers (Some ip)) n = hdr_get_all ops headers n)"
proof -
  obtain v where v: "forwarded_for ops headers (Some ip) = Some v"
    "str_trim (last (str_split (CHR '','') v)) = ip_string ip"
    "v = str_join '', '' (prior_entries ops headers @ [ip_string ip])"
    using header_map.forwarded_for_client [OF assms] .
  then show ?thesis using header_map.get_with_forwarded_for [OF assms, of headers "Some ip"] by simp
qed

theorem forwarded_for_rightmost_witness:
  "hdr_get_all list_headers
     (with_forwarded_for list_headers (rq_headers demo_rq) (Some (V4 (Ipv4 81 2 3 4)))) X_FORWARDED_FOR =
   [''10.0.0.1, 192.0.2.7, 81.2.3.4'']"
proof -
  have "str_join '', '' (prior_entries list_headers (rq_headers demo_rq) @ [ip_string (V4 (Ipv4 81 2 3 4))]) =
        ''10.0.0.1, 192.0.2.7, 81.2.3.4''"
    by code_simp
  then show ?thesis
    using forwarded_for_rightmost [OF lh.header_map_axioms, of "rq_headers demo_rq" "V4 (Ipv4 81 2 3 4)"]
    by auto
qed

text \<open>Without a client address several \<^verbatim>\<open>X-Forwarded-For\<close> headers are not passed on as they
  came: they are trimmed and merged into one.\<close>

theorem forwarded_for_merged:
  assumes "header_map ops" and "prior_entries ops headers \<noteq> []"
  shows "hdr_get_all ops (with_forwarded_for ops headers None) X_FORWARDED_FOR =
    [str_join '', '' (prior_entries ops headers)]"
  using header_map.get_with_forwarded_for [OF assms(1), of headers None] assms(2)
  by (simp add: forwarded_for_def)

theorem forwarded_for_merged_witness:
  "hdr_get_all list_headers (rq_headers demo_rq) X_FORWARDED_FOR = [''10.0.0.1'', '' 192.0.2.7''] \<and>
   hdr_get_all list_headers (with_forwarded_for list_headers (rq_headers demo_rq) None) X_FORWARDED_FOR =
   [''10.0.0.1, 192.0.2.7'']"
proof -
  have "prior_entries list_headers (rq_headers demo_rq) = [''10.0.0.1'', ''192.0.2.7'']" by code_simp
  then show ?thesis
    using forwarded_for_merged [OF lh.header_map_axioms, of "rq_headers demo_rq"]
    by (simp add: list_headers_def demo_rq_def X_FORWARDED_FOR_def)
qed

text \<open>C38: a reply of the proxy is the upstream's: its status and its body, for a request to the
  upstream's URL with the tail and the query that carries the client's method, its body and all
  its headers but Host. Of a response header with several values only the last value comes
  through, and Transfer-Encoding is dropped. Every failure on the way is an error, never a partial
  reply.\<close>

theorem forward_transparent:
  assumes "header_map (pe_hdr env)" and "forward env upstream tail query method headers body = Some (Inr r)"
  shows "\<exists>uri q resp. pe_parse env (forward_url upstream tail query) = Inr uri \<and>
    uq_uri q = uri \<and> uq_method q = method \<and> uq_body q = body \<and>
    (\<forall>n. hdr_get_all (pe_hdr env) (uq_headers q) n =
       (if n = ''host'' then [] else hdr_get_all (pe_hdr env) headers n)) \<and>
    pe_send env q = Some (Inr resp) \<and> rp_status r = us_status resp \<and> us_body resp = Some (Inr (rp_body r)) \<and>
    (\<forall>n. hdr_get_all (pe_hdr env) (rp_headers r) n =
       (if n = ''transfer-encoding'' \<or> hdr_get_all (pe_hdr env) (us_headers resp) n = [] then []
        else [last (hdr_get_all (pe_hdr env) (us_headers resp) n)]))"
proof -
  obtain uri where uri: "pe_parse env (forward_url upstream tail query) = Inr uri"
    using assms(2) by (cases "pe_parse env (forward_url upstream tail query)") (simp_all add: forward_def)
  let ?q = "\<lparr>uq_method = method, uq_uri = uri,
             uq_headers = request_headers (pe_hdr env) headers, uq_body = body\<rparr>"
  obtain resp where resp: "pe_send env ?q = Some (Inr resp)" and b: "us_body resp = Some (Inr (rp_body r))"
    and r: "rp_status r = us_status resp" "rp_headers r = reply_headers (pe_hdr env) (us_headers resp)"
    using assms(2) uri by (auto simp: forward_def Let_def split: option.splits sum.splits)
  show ?thesis
    using uri resp b r header_map.get_request_headers [OF assms(1)] header_map.get_reply_headers [OF assms(1)]
    by (intro exI [of _ uri] exI [of _ ?q] exI [of _ resp]) simp
qed

theorem forward_transparent_witness:
  "\<exists>r. forward demo_proxy ''http://up'' ''verify'' ''x=1'' ''GET'' (rq_headers demo_rq) [] = Some (Inr r) \<and>
     hdr_get_all list_headers (us_headers demo_up) ''set-cookie'' = [''a=1'', ''b=2''] \<and>
     hdr_get_all list_headers (rp_headers r) ''set-cookie'' = [''b=2'']"
proof -
  have "case forward demo_proxy ''http://up'' ''verify'' ''x=1'' ''GET'' (rq_headers demo_rq) [] of
          Some (Inr r) \<Rightarrow> True | _ \<Rightarrow> False"
    by code_simp
  then obtain r where r: "forward demo_proxy ''http://up'' ''verify'' ''x=1'' ''GET'' (rq_headers demo_rq) [] = Some (Inr r)"
    by (auto split: option.splits sum.splits)
  have ops: "pe_hdr demo_proxy = list_headers" by (simp add: demo_proxy_def)
  have up: "pe_send demo_proxy q = Some (Inr resp) \<Longrightarrow> resp = demo_up" for q resp
    by (simp add: demo_proxy_def split: if_splits)
  have cookies: "hdr_get_all list_headers (us_headers demo_up) ''set-cookie'' = [''a=1'', ''b=2'']"
    by code_simp
  from forward_transparent [OF _ r] lh.header_map_axioms ops up cookies
  have "hdr_get_all list_headers (rp_headers r) ''set-cookie'' = [''b=2'']" by fastforce
  with r cookies show ?thesis by blast
qed

end
