(* ===== verification/Mles_Server.thy ===== *)
theory Mles_Server
  imports Server_Run Stream_Layers Ws_Liveness Proxy
begin

text \<open>
  How the server is put together (\<^verbatim>\<open>src/src/main.rs\<close>, \<^verbatim>\<open>src/src/lib.rs\<close>): the command line, the
  configuration, the state \<^verbatim>\<open>run\<close> creates, and the routes of the TLS port, which try the
  WebSocket handler, then the proxy rules, then the files.
\<close>

section \<open>Configuration\<close>

record args =
  ar_domains :: "string list"
  ar_email :: "string list"
  ar_cache :: "string option"
  ar_limit :: u32
  ar_filelimit :: u32
  ar_wwwroot :: string
  ar_staging :: bool
  ar_port :: u16
  ar_redirect :: bool
  ar_compression_cache :: "usize option"
  ar_proxy :: "string list"
  ar_rate_limit :: "u32 option"
  ar_per_ip_limit :: u32
  ar_cors :: bool

text \<open>
  The values as the user gave them. Splitting the command line into them is clap's; so is reading
  a number (\<^verbatim>\<open>num\<close>, \<^verbatim>\<open>num_usize\<close>). Modelled is what the attributes of the arguments ask for: which ones are
  required, the defaults, and the ranges. None: clap prints the usage and exits.
\<close>

record raw_args =
  ra_domains :: "string list"
  ra_email :: "string list"
  ra_cache :: "string option"
  ra_limit :: "string option"
  ra_filelimit :: "string option"
  ra_wwwroot :: "string option"
  ra_staging :: bool
  ra_port :: "string option"
  ra_redirect :: bool
  ra_compression_cache :: "string option"
  ra_proxy :: "string list"
  ra_rate_limit :: "string option"
  ra_per_ip_limit :: "string option"
  ra_cors :: bool

definition HISTORY_LIMIT :: string where
  "HISTORY_LIMIT = ''200''"

definition MAX_FILES_OPEN :: string where
  "MAX_FILES_OPEN = ''256''"

definition TLS_PORT :: string where
  "TLS_PORT = ''443''"

definition PER_IP_CONN_LIMIT :: string where
  "PER_IP_CONN_LIMIT = ''32''"

definition default_value :: "string \<Rightarrow> string option \<Rightarrow> string" where
  "default_value d x = (case x of Some s \<Rightarrow> s | None \<Rightarrow> d)"

text \<open>The bounds are inclusive.\<close>

definition ranged :: "(string \<Rightarrow> int option) \<Rightarrow> int \<Rightarrow> int \<Rightarrow> string \<Rightarrow> 'a::len word option" where
  "ranged num lo hi s =
     (case num s of
        None \<Rightarrow> None
      | Some v \<Rightarrow> if lo \<le> v \<and> v \<le> hi then Some (word_of_int v) else None)"

text \<open>An argument that may be absent.\<close>

definition optional :: "(string \<Rightarrow> 'a option) \<Rightarrow> string option \<Rightarrow> 'a option option" where
  "optional p x = (case x of None \<Rightarrow> Some None | Some s \<Rightarrow> map_option Some (p s))"

definition parse_args :: "(string \<Rightarrow> int option) \<Rightarrow> (string \<Rightarrow> usize option) \<Rightarrow> raw_args \<Rightarrow> args option" where
  "parse_args num num_usize r =
     (if ra_domains r = [] then None
      else case ra_wwwroot r of None \<Rightarrow> None | Some wwwroot \<Rightarrow>
        (case ranged num 1 (1000000 - 1) (default_value HISTORY_LIMIT (ra_limit r)) of None \<Rightarrow> None | Some limit \<Rightarrow>
        (case ranged num 1 (1000000 - 1) (default_value MAX_FILES_OPEN (ra_filelimit r)) of None \<Rightarrow> None | Some filelimit \<Rightarrow>
        (case ranged num 1 (2 ^ 16 - 1) (default_value TLS_PORT (ra_port r)) of None \<Rightarrow> None | Some port \<Rightarrow>
        (case optional num_usize (ra_compression_cache r) of None \<Rightarrow> None | Some compression_cache \<Rightarrow>
        (case optional (ranged num 1 (2 ^ 32 - 1)) (ra_rate_limit r) of None \<Rightarrow> None | Some rate_limit \<Rightarrow>
        (case ranged num 1 (2 ^ 32 - 1) (default_value PER_IP_CONN_LIMIT (ra_per_ip_limit r)) of None \<Rightarrow> None | Some per_ip_limit \<Rightarrow>
           Some \<lparr>ar_domains = ra_domains r, ar_email = ra_email r, ar_cache = ra_cache r, ar_limit = limit,
                 ar_filelimit = filelimit, ar_wwwroot = wwwroot, ar_staging = ra_staging r, ar_port = port,
                 ar_redirect = ra_redirect r, ar_compression_cache = compression_cache, ar_proxy = ra_proxy r,
                 ar_rate_limit = rate_limit, ar_per_ip_limit = per_ip_limit, ar_cors = ra_cors r\<rparr>)))))))"

text \<open>What the ranges say of the arguments that come through.\<close>

definition args_ok :: "args \<Rightarrow> bool" where
  "args_ok a \<longleftrightarrow>
     ar_domains a \<noteq> [] \<and> 1 \<le> ar_limit a \<and> ar_limit a < 1000000 \<and>
     1 \<le> ar_filelimit a \<and> ar_filelimit a < 1000000 \<and> 1 \<le> ar_port a \<and>
     (case ar_rate_limit a of None \<Rightarrow> True | Some n \<Rightarrow> 1 \<le> n) \<and> 1 \<le> ar_per_ip_limit a"

record server_config =
  sc_domains :: "string list"
  sc_email :: "string list"
  sc_cache :: "string option"
  sc_limit :: u32
  sc_filelimit :: usize
  sc_wwwroot :: string
  sc_staging :: bool
  sc_port :: u16
  sc_redirect :: bool
  sc_max_cache_size_mb :: "usize option"
  sc_proxies :: "(string \<times> string) list"
  sc_rate_limit :: "u32 option"
  sc_per_ip_conn_limit :: u32
  sc_cors :: bool

definition nonzero :: "u32 \<Rightarrow> u32 option" where
  "nonzero n = (if n = 0 then None else Some n)"

definition parse_proxy :: "string \<Rightarrow> (string \<times> string) option" where
  "parse_proxy s =
     (case splitn2 (CHR ''='') s of
        (p, None) \<Rightarrow> None
      | (p, Some u) \<Rightarrow> Some (str_trim p, str_trim u))"

text \<open>None is the panic of \<^verbatim>\<open>expect\<close>.\<close>

definition main_config :: "args \<Rightarrow> server_config option" where
  "main_config a =
     (case nonzero (ar_per_ip_limit a) of
        None \<Rightarrow> None
      | Some per_ip \<Rightarrow>
          Some \<lparr>sc_domains = ar_domains a, sc_email = ar_email a, sc_cache = ar_cache a,
                sc_limit = ar_limit a, sc_filelimit = ucast (ar_filelimit a),
                sc_wwwroot = ar_wwwroot a, sc_staging = ar_staging a, sc_port = ar_port a,
                sc_redirect = ar_redirect a, sc_max_cache_size_mb = ar_compression_cache a,
                sc_proxies = List.map_filter parse_proxy (ar_proxy a),
                sc_rate_limit = Option.bind (ar_rate_limit a) nonzero,
                sc_per_ip_conn_limit = per_ip, sc_cors = ar_cors a\<rparr>)"

section \<open>Listeners\<close>

text \<open>
  The calls of \<^verbatim>\<open>TcpSocket\<close>, each of which may fail. The options are set on the socket, which is then
  bound and turned into a listener.
\<close>

record ('k, 'l, 'e) socket_ops =
  so_new_v6 :: "'e + 'k"
  so_set_keepalive :: "bool \<Rightarrow> 'k \<Rightarrow> 'e + 'k"
  so_set_nodelay :: "bool \<Rightarrow> 'k \<Rightarrow> 'e + 'k"
  so_set_reuseaddr :: "bool \<Rightarrow> 'k \<Rightarrow> 'e + 'k"
  so_bind :: "socket_addr \<Rightarrow> 'k \<Rightarrow> 'e + 'k"
  so_listen :: "u32 \<Rightarrow> 'k \<Rightarrow> 'e + 'l"

definition BACKLOG :: u32 where
  "BACKLOG = 1024"

text \<open>The question mark of Rust: the first error ends the function.\<close>

definition try_io :: "'e + 'a \<Rightarrow> ('a \<Rightarrow> 'e + 'b) \<Rightarrow> 'e + 'b" where
  "try_io r f = (case r of Inl e \<Rightarrow> Inl e | Inr x \<Rightarrow> f x)"

definition create_tcp_incoming :: "('k, 'l, 'e) socket_ops \<Rightarrow> socket_addr \<Rightarrow> 'e + 'l" where
  "create_tcp_incoming so addr =
     try_io (so_new_v6 so) (\<lambda>socket.
     try_io (so_set_keepalive so True socket) (\<lambda>socket.
     try_io (so_set_nodelay so True socket) (\<lambda>socket.
     try_io (so_set_reuseaddr so True socket) (\<lambda>socket.
     try_io (so_bind so addr socket) (\<lambda>socket.
     so_listen so BACKLOG socket)))))"

text \<open>The unspecified IPv6 address with a port: all addresses of the host, of both families.\<close>

definition listen_addr :: "u16 \<Rightarrow> socket_addr" where
  "listen_addr port = \<lparr>sa_ip = V6 (Ipv6 0 0 0 0 0 0 0 0), sa_port = port\<rparr>"

text \<open>
  The builder of the rustls-acme crate, and what the server asks of it: certificates for its domains, the
  contacts, a directory for the certificates, Let's Encrypt's production directory unless staging, and
  HTTP/1.1 as the only protocol over TLS. The incoming stream is the listener with the policy on it.
\<close>

record ('a, 'd, 'i, 'o) acme_ops =
  ac_new :: "string list \<Rightarrow> 'a"
  ac_contact :: "string list \<Rightarrow> 'a \<Rightarrow> 'a"
  ac_dir_cache :: "string \<Rightarrow> 'd"
  ac_cache_option :: "'d option \<Rightarrow> 'a \<Rightarrow> 'a"
  ac_lets_encrypt :: "bool \<Rightarrow> 'a \<Rightarrow> 'a"
  ac_tokio_incoming :: "'i \<Rightarrow> bytes list \<Rightarrow> 'a \<Rightarrow> 'o"

definition create_tls_incoming ::
  "('a, 'd, 'i, 'o) acme_ops \<Rightarrow> string list \<Rightarrow> string list \<Rightarrow> string option \<Rightarrow> bool \<Rightarrow> 'i \<Rightarrow> 'o" where
  "create_tls_incoming ao domains email cache staging tcp_incoming =
     ac_tokio_incoming ao tcp_incoming [ascii_bytes ''http/1.1'']
       (ac_lets_encrypt ao (\<not> staging)
         (ac_cache_option ao (map_option (ac_dir_cache ao) cache)
           (ac_contact ao (map (\<lambda>e. ''mailto:'' @ e) email) (ac_new ao domains))))"

text \<open>
  What the task of port 80 serves with: the policy on its listener, its routes, and its accept
  loop. The task ends at once when the port cannot be opened, and panics when there are no domains.
\<close>

record ('g, 's, 'h) redirect_server =
  rd_policy :: "'g policy_state"
  rd_routes :: "string \<Rightarrow> 'h \<Rightarrow> string \<Rightarrow> (http_rejection + 'h reply) option"
  rd_accept :: "'s accept_state"

definition spawn_http_redirect_server ::
  "('k, 'l, 'e) socket_ops \<Rightarrow> ('c, 'h) http_env \<Rightarrow> string list \<Rightarrow> 'g option \<Rightarrow> 's \<Rightarrow> per_ip_limiter \<Rightarrow>
   ('g, 's, 'h) redirect_server option" where
  "spawn_http_redirect_server so henv domains rate_limiter semaphore per_ip =
     (case create_tcp_incoming so (listen_addr 80) of
        Inl e \<Rightarrow> None
      | Inr tcp_incoming \<Rightarrow>
          (case create_http_redirect_routes henv domains of
             None \<Rightarrow> None
           | Some hindex \<Rightarrow>
               Some \<lparr>rd_policy = \<lparr>po_limiter = per_ip, po_rate = rate_limiter\<rparr>, rd_routes = hindex,
                     rd_accept = accept_init semaphore\<rparr>))"

section \<open>The state of the server\<close>

definition DEFAULT_CACHE_SIZE_MB :: usize where
  "DEFAULT_CACHE_SIZE_MB = 24"

text \<open>
  What \<^verbatim>\<open>run\<close> creates: one rate limiter for both ports, a connection cap and a semaphore for each,
  the incoming TLS stream, the event loop's state, the cache. \<^verbatim>\<open>new_sem\<close> builds a semaphore. \<^verbatim>\<open>sv_redirect\<close> is None when port 80 is not served. A failing listener of the TLS
  port makes \<^verbatim>\<open>run\<close> return its error.
\<close>

record ('g, 's, 'c, 'h, 'm, 'o) server_state =
  sv_rate :: "'g option"
  sv_tls_per_ip :: per_ip_limiter
  sv_redirect_per_ip :: per_ip_limiter
  sv_tls_incoming :: 'o
  sv_tls_accept :: "'s accept_state"
  sv_redirect :: "('g, 's, 'h) redirect_server option"
  sv_loop :: "'m loop_state"
  sv_loop_limit :: u32
  sv_cache :: "'c compression_cache"

definition run_init ::
  "('k, 'l, 'e) socket_ops \<Rightarrow> ('q, 'g) gov_ops \<Rightarrow> ('a, 'd, 'l \<times> 'g policy_state, 'o) acme_ops \<Rightarrow>
   (usize \<Rightarrow> 's) \<Rightarrow> ('c, 'h) http_env \<Rightarrow> server_config \<Rightarrow> 'e + ('g, 's, 'c, 'h, 'm, 'o) server_state" where
  "run_init so gv ao new_sem henv cfg =
     (let max_cache_size_mb = (case sc_max_cache_size_mb cfg of Some sz \<Rightarrow> sz | None \<Rightarrow> DEFAULT_CACHE_SIZE_MB);
          tls_semaphore = new_sem (sc_filelimit cfg);
          redirect_semaphore = new_sem (sc_filelimit cfg)
      in try_io (create_tcp_incoming so (listen_addr (sc_port cfg))) (\<lambda>tcp_incoming.
           let rate_limiter = map_option (create_rate_limiter gv) (sc_rate_limit cfg);
               tls_per_ip = limiter_new (sc_per_ip_conn_limit cfg);
               redirect_per_ip = limiter_new (sc_per_ip_conn_limit cfg);
               tcp_incoming = (tcp_incoming, \<lparr>po_limiter = tls_per_ip, po_rate = rate_limiter\<rparr>)
           in Inr \<lparr>sv_rate = rate_limiter,
                   sv_tls_per_ip = tls_per_ip,
                   sv_redirect_per_ip = redirect_per_ip,
                   sv_tls_incoming =
                     create_tls_incoming ao (sc_domains cfg) (sc_email cfg) (sc_cache cfg) (sc_staging cfg) tcp_incoming,
                   sv_tls_accept = accept_init tls_semaphore,
                   sv_redirect =
                     (if sc_redirect cfg
                      then spawn_http_redirect_server so henv (sc_domains cfg) rate_limiter redirect_semaphore
                             redirect_per_ip
                      else None),
                   sv_loop = loop_init,
                   sv_loop_limit = sc_limit cfg,
                   sv_cache = cache_new (he_lru henv) max_cache_size_mb\<rparr>))"

text \<open>The running server that this state starts: no connection, no event, no request yet.\<close>

definition started :: "('g, 's, 'c, 'h, 'm, 'o) server_state \<Rightarrow> ('g, 'c, 'h, 'm) server_run" where
  "started sv =
     \<lparr>rv_rate = sv_rate sv, rv_tls_limiter = sv_tls_per_ip sv, rv_tls = [],
      rv_http_limiter = sv_redirect_per_ip sv, rv_http = [],
      rv_ws = \<lparr>sy_conns = [], sy_chan = [], sy_loop = sv_loop sv, sy_todo = []\<rparr>,
      rv_site = \<lparr>ss_requests = [], ss_cache = sv_cache sv\<rparr>\<rparr>"

section \<open>The routes of the TLS port\<close>

definition ACCEPTED_PROTOCOL :: string where
  "ACCEPTED_PROTOCOL = ''mles-websocket''"

text \<open>
  The WebSocket route. \<^verbatim>\<open>ws\<close> is the filter \<^verbatim>\<open>warp::ws()\<close> with its reply: None when the request is not a
  WebSocket handshake, else the reply that switches protocols. It gets the accepted subprotocol as a header.
\<close>

definition upgrade_reply :: "'h header_ops \<Rightarrow> 'h reply \<Rightarrow> 'h reply" where
  "upgrade_reply ops r = r\<lparr>rp_headers := hdr_insert ops ''sec-websocket-protocol'' ACCEPTED_PROTOCOL (rp_headers r)\<rparr>"

definition ws_route :: "('h request \<Rightarrow> 'h reply option) \<Rightarrow> 'h header_ops \<Rightarrow> 'h request \<Rightarrow> 'h reply option" where
  "ws_route ws ops rq =
     (case ws rq of
        None \<Rightarrow> None
      | Some r \<Rightarrow>
          (case hdr_get_all ops (rq_headers rq) ''sec-websocket-protocol'' of
             [] \<Rightarrow> None
           | v # vs \<Rightarrow> if v = ACCEPTED_PROTOCOL then Some (upgrade_reply ops r) else None))"

datatype 'h outcome = Upgrade "'h reply" | Replied "'h reply" | Unrouted

definition of_files :: "(http_rejection + 'h reply) \<times> 'c \<Rightarrow> 'h outcome \<times> 'c" where
  "of_files x = (case x of (Inr r, cc) \<Rightarrow> (Replied r, cc) | (Inl e, cc) \<Rightarrow> (Unrouted, cc))"

text \<open>None: building the routes panics, or no reply is given, be it that an upstream never answers.\<close>

definition tls_routes ::
  "('h request \<Rightarrow> 'h reply option) \<Rightarrow> ('h, 'u) proxy_env \<Rightarrow> ('c, 'h) http_env \<Rightarrow> server_config \<Rightarrow> file_system \<Rightarrow>
   'h request \<Rightarrow> 'c compression_cache \<Rightarrow> ('h outcome \<times> 'c compression_cache) option" where
  "tls_routes ws penv henv cfg fs rq cc =
     (case create_http_file_routes henv (sc_domains cfg) (sc_wwwroot cfg) (sc_cors cfg) of
        None \<Rightarrow> None
      | Some index \<Rightarrow>
          let files = (\<lambda>rq. map_option of_files (index fs (rq_method rq) (rq_headers rq) (rq_path rq) cc))
          in case ws_route ws (he_hdr henv) rq of
               Some r \<Rightarrow> Some (Upgrade r, cc)
             | None \<Rightarrow>
                 if sc_proxies cfg = [] then files rq
                 else (case create_proxy_routes penv (sc_proxies cfg) of
                         None \<Rightarrow> None
                       | Some proxy_routes \<Rightarrow>
                           (case proxy_routes rq of
                              None \<Rightarrow> None
                            | Some (rq', Inr r) \<Rightarrow> Some (Replied r, cc)
                            | Some (rq', Inl e) \<Rightarrow> files rq')))"

text \<open>An upgrade is granted only to a client that offers the accepted subprotocol first, and its reply names that
  subprotocol and no other, whatever header the library's reply came with.\<close>

theorem upgrade_names_protocol:
  assumes "header_map ops" and "ws_route ws ops rq = Some r"
  shows "(\<exists>vs. hdr_get_all ops (rq_headers rq) ''sec-websocket-protocol'' = ACCEPTED_PROTOCOL # vs) \<and>
    hdr_get_all ops (rp_headers r) ''sec-websocket-protocol'' = [ACCEPTED_PROTOCOL]"
  using assms header_map.get_insert [OF assms(1)]
  by (auto simp: ws_route_def upgrade_reply_def split: option.splits list.splits if_splits)

section \<open>The command line\<close>

text \<open>A proxy argument is split at its first equals sign, and both sides are trimmed; the
  upstream keeps every later equals sign. An argument without one is dropped without a word.\<close>

theorem parse_proxy_splits:
  assumes "CHR ''='' \<notin> set p"
  shows "parse_proxy (p @ ''='' @ u) = Some (str_trim p, str_trim u) \<and> parse_proxy p = None"
  using assms by (simp add: parse_proxy_def splitn2_sep splitn2_no_sep)

theorem parse_proxy_splits_witness:
  "parse_proxy ''keeper = http://up/?k=v'' = Some (''keeper'', ''http://up/?k=v'') \<and> parse_proxy ''keeper'' = None"
proof -
  have "str_trim ''keeper '' = ''keeper''" "str_trim '' http://up/?k=v'' = ''http://up/?k=v''" by code_simp+
  then show ?thesis
    using parse_proxy_splits [of "''keeper ''" "'' http://up/?k=v''"] parse_proxy_splits [of "''keeper''" "[]"]
    by simp
qed

lemma ranged_bounds:
  assumes "ranged num lo hi s = Some (w :: 'a::len word)" and "0 \<le> lo" and "hi < 2 ^ LENGTH('a)"
  shows "lo \<le> uint w \<and> uint w \<le> hi"
proof -
  obtain v where v: "lo \<le> v" "v \<le> hi" "w = word_of_int v"
    using assms(1) by (auto simp: ranged_def split: option.splits if_splits)
  then have "uint w = v" using assms(2,3) by (simp add: uint_word_of_int)
  with v show ?thesis by simp
qed

lemma parse_args_ok:
  assumes "parse_args num num_usize r = Some a"
  shows "args_ok a"
proof -
  have d: "ar_domains a \<noteq> []"
    and l: "\<exists>s. ranged num 1 (1000000 - 1) s = Some (ar_limit a)"
    and f: "\<exists>s. ranged num 1 (1000000 - 1) s = Some (ar_filelimit a)"
    and p: "\<exists>s. ranged num 1 (2 ^ 16 - 1) s = Some (ar_port a)"
    and q: "\<exists>s. ranged num 1 (2 ^ 32 - 1) s = Some (ar_per_ip_limit a)"
    and t: "ar_rate_limit a = Some n \<Longrightarrow> \<exists>s. ranged num 1 (2 ^ 32 - 1) s = Some n" for n
    using assms by (auto simp: parse_args_def optional_def split: if_splits option.splits)
  obtain s1 s2 s3 s4 where s: "ranged num 1 (1000000 - 1) s1 = Some (ar_limit a)"
    "ranged num 1 (1000000 - 1) s2 = Some (ar_filelimit a)" "ranged num 1 (2 ^ 16 - 1) s3 = Some (ar_port a)"
    "ranged num 1 (2 ^ 32 - 1) s4 = Some (ar_per_ip_limit a)"
    using l f p q by blast
  have "1 \<le> uint (ar_limit a) \<and> uint (ar_limit a) \<le> 1000000 - 1"
    "1 \<le> uint (ar_filelimit a) \<and> uint (ar_filelimit a) \<le> 1000000 - 1"
    "1 \<le> uint (ar_port a) \<and> uint (ar_port a) \<le> 2 ^ 16 - 1"
    "1 \<le> uint (ar_per_ip_limit a) \<and> uint (ar_per_ip_limit a) \<le> 2 ^ 32 - 1"
    by (rule ranged_bounds [OF s(1)] ranged_bounds [OF s(2)] ranged_bounds [OF s(3)] ranged_bounds [OF s(4)]; simp)+
  moreover have "1 \<le> uint n" if "ar_rate_limit a = Some n" for n
  proof -
    from t [OF that] obtain s where "ranged num 1 (2 ^ 32 - 1) s = Some n" by blast
    from ranged_bounds [OF this] show ?thesis by simp
  qed
  ultimately show ?thesis
    using d by (auto simp: args_ok_def word_le_def word_less_def split: option.split)
qed

text \<open>A command line whose cache size in bytes does not overflow yields a configuration, and the server it
  starts is in a good state, or the TLS port cannot be opened and \<^verbatim>\<open>run\<close> returns that error. In a good state both
  ports have their own connection cap, the configured one and positive, and the same rate limiter; port 80
  is served exactly when that is configured and the port can be opened; certificates are asked for the domains that the
  routes serve, and the policy sits in front of TLS; the accept loop of the TLS port and the event loop
  start empty, the message history is bounded, the cache meets its invariant, and the routes can
  be built. It is the initial state of the running server, for which the properties of the composed parts are
  shown.\<close>

theorem server_starts_well:
  assumes "parse_args num num_usize raw = Some a" and "lru_cache (he_lru henv)"
    and "mb_ok (case ar_compression_cache a of Some n \<Rightarrow> n | None \<Rightarrow> DEFAULT_CACHE_SIZE_MB)"
  shows "\<exists>cfg. main_config a = Some cfg \<and>
    (case (run_init so gv ao new_sem henv cfg :: 'e + ('g, 's, 'c, 'h, 'm, 'o) server_state) of
       Inl err \<Rightarrow> create_tcp_incoming so (listen_addr (ar_port a)) = Inl err
     | Inr sv \<Rightarrow>
        limiter_ok (sv_tls_per_ip sv) \<and> limiter_ok (sv_redirect_per_ip sv) \<and>
        limiter_cap (sv_tls_per_ip sv) = unat (ar_per_ip_limit a) \<and>
        limiter_cap (sv_redirect_per_ip sv) = unat (ar_per_ip_limit a) \<and>
        (\<exists>l. sv_tls_incoming sv =
           create_tls_incoming ao (sc_domains cfg) (ar_email a) (ar_cache a) (ar_staging a)
             (l, \<lparr>po_limiter = sv_tls_per_ip sv, po_rate = sv_rate sv\<rparr>)) \<and>
        al_tasks (sv_tls_accept sv) = [] \<and>
        (case sv_redirect sv of
           None \<Rightarrow> \<not> (ar_redirect a \<and> (\<exists>l. create_tcp_incoming so (listen_addr 80) = Inr l))
         | Some rd \<Rightarrow>
             ar_redirect a \<and> (\<exists>l. create_tcp_incoming so (listen_addr 80) = Inr l) \<and>
             al_tasks (rd_accept rd) = [] \<and>
             rd_policy rd = \<lparr>po_limiter = sv_redirect_per_ip sv, po_rate = sv_rate sv\<rparr>) \<and>
        loop_inv \<lparr>cfg_limit = sv_loop_limit sv, cfg_grow = grow\<rparr> (sv_loop sv) \<and>
        0 < unat (sv_loop_limit sv) \<and> cache_inv (he_lru henv) (sv_cache sv) \<and>
        create_http_file_routes henv (sc_domains cfg) (sc_wwwroot cfg) (sc_cors cfg) \<noteq> None \<and>
        started sv = server_init gv (ar_per_ip_limit a) (sc_rate_limit cfg) henv
          (case ar_compression_cache a of Some n \<Rightarrow> n | None \<Rightarrow> DEFAULT_CACHE_SIZE_MB))"
proof -
  have pos: "0 < ar_per_ip_limit a" "0 < unat (ar_limit a)" and dom: "ar_domains a \<noteq> []"
    using parse_args_ok [OF assms(1)] by (auto simp: args_ok_def word_le_nat_alt word_less_nat_alt)
  have nz: "nonzero (ar_per_ip_limit a) = Some (ar_per_ip_limit a)"
    using pos(1) by (auto simp: nonzero_def)
  then obtain cfg where cfg: "main_config a = Some cfg" by (simp add: main_config_def)
  have per_ip: "sc_per_ip_conn_limit cfg = ar_per_ip_limit a" and lim: "sc_limit cfg = ar_limit a"
    and mb: "sc_max_cache_size_mb cfg = ar_compression_cache a" and ds: "sc_domains cfg = ar_domains a"
    and ports: "sc_port cfg = ar_port a" "sc_redirect cfg = ar_redirect a"
    and acme: "sc_email cfg = ar_email a" "sc_cache cfg = ar_cache a" "sc_staging cfg = ar_staging a"
    using cfg nz by (auto simp: main_config_def)
  have "create_http_file_routes henv (sc_domains cfg) (sc_wwwroot cfg) (sc_cors cfg) \<noteq> None"
    using route_order_domains [OF dom] by (auto simp: create_http_file_routes_def ds)
  moreover have "limiter_ok (limiter_new (ar_per_ip_limit a))"
    "limiter_cap (limiter_new (ar_per_ip_limit a)) = unat (ar_per_ip_limit a)"
    using limiter_ok_new [OF pos(1)] by (simp_all add: limiter_cap_def limiter_new_def unat_widen)
  moreover have "cache_inv (he_lru henv) (cache_new (he_lru henv) (case ar_compression_cache a of Some n \<Rightarrow> n | None \<Rightarrow> DEFAULT_CACHE_SIZE_MB))"
    by (rule lru_cache.inv_new [OF assms(2,3)])
  moreover have "create_http_redirect_routes henv (ar_domains a) \<noteq> None"
    using route_order_domains [OF dom] by (auto simp: create_http_redirect_routes_def)
  ultimately show ?thesis
    using cfg pos(2) loop_inv_init
    by (cases "create_tcp_incoming so (listen_addr (ar_port a))"; cases "create_tcp_incoming so (listen_addr 80)")
       (auto simp: run_init_def try_io_def accept_init_def spawn_http_redirect_server_def per_ip lim mb ports acme ds
          started_def server_init_def sys_init_def site_init_def Let_def)
qed

definition demo_args :: args where
  "demo_args =
     \<lparr>ar_domains = [''mles.io''], ar_email = [], ar_cache = None, ar_limit = 200, ar_filelimit = 256,
      ar_wwwroot = ''/www'', ar_staging = False, ar_port = 443, ar_redirect = True,
      ar_compression_cache = None, ar_proxy = [''keeper=http://down''], ar_rate_limit = None,
      ar_per_ip_limit = 32, ar_cors = False\<rparr>"

text \<open>The command line that gives them: everything else is left to its default.\<close>

definition demo_raw :: raw_args where
  "demo_raw =
     \<lparr>ra_domains = [''mles.io''], ra_email = [], ra_cache = None, ra_limit = None, ra_filelimit = None,
      ra_wwwroot = Some ''/www'', ra_staging = False, ra_port = None, ra_redirect = True,
      ra_compression_cache = None, ra_proxy = [''keeper=http://down''], ra_rate_limit = None,
      ra_per_ip_limit = None, ra_cors = False\<rparr>"

definition demo_num :: "string \<Rightarrow> int option" where
  "demo_num = map_of [(''32'', 32), (''200'', 200), (''256'', 256), (''443'', 443)]"

definition demo_cfg :: server_config where
  "demo_cfg =
     \<lparr>sc_domains = [''mles.io''], sc_email = [], sc_cache = None, sc_limit = 200, sc_filelimit = 256,
      sc_wwwroot = ''/www'', sc_staging = False, sc_port = 443, sc_redirect = True,
      sc_max_cache_size_mb = None, sc_proxies = [(''keeper'', ''http://down'')], sc_rate_limit = None,
      sc_per_ip_conn_limit = 32, sc_cors = False\<rparr>"

lemma demo_config: "main_config demo_args = Some demo_cfg"
  by code_simp

text \<open>A host on which only the TLS port is free.\<close>

definition demo_sockets :: "(u16, u16, string) socket_ops" where
  "demo_sockets =
     \<lparr>so_new_v6 = Inr 0, so_set_keepalive = (\<lambda>b k. Inr k), so_set_nodelay = (\<lambda>b k. Inr k),
      so_set_reuseaddr = (\<lambda>b k. Inr k),
      so_bind = (\<lambda>a k. if sa_port a = 443 then Inr (sa_port a) else Inl ''address in use''),
      so_listen = (\<lambda>n k. Inr k)\<rparr>"

text \<open>A builder that records what it is asked for.\<close>

definition demo_acme ::
  "(string list \<times> string list \<times> bool, string, u16 \<times> gcra policy_state, string list \<times> bool) acme_ops" where
  "demo_acme =
     \<lparr>ac_new = (\<lambda>ds. (ds, [], False)), ac_contact = (\<lambda>c (ds, _, p). (ds, c, p)), ac_dir_cache = id,
      ac_cache_option = (\<lambda>d a. a), ac_lets_encrypt = (\<lambda>p (ds, c, _). (ds, c, p)),
      ac_tokio_incoming = (\<lambda>i alpn (ds, c, p). (ds, p))\<rparr>"

theorem server_starts_well_witness:
  "\<exists>sv. (run_init demo_sockets gcra_ops demo_acme (\<lambda>n. (0 :: nat, unat n)) demo_http demo_cfg ::
     string + (gcra, nat \<times> nat, nat \<times> lru_items, (string \<times> string) list, string, string list \<times> bool) server_state) = Inr sv \<and>
     limiter_cap (sv_tls_per_ip sv) = 32 \<and> sv_redirect sv = None \<and> sv_tls_incoming sv = ([''mles.io''], True)"
proof -
  have ok: "parse_args demo_num (\<lambda>s. None) demo_raw = Some demo_args" by code_simp
  have mb: "mb_ok (case ar_compression_cache demo_args of Some n \<Rightarrow> n | None \<Rightarrow> DEFAULT_CACHE_SIZE_MB)"
    by (simp add: demo_args_def DEFAULT_CACHE_SIZE_MB_def mb_ok_def)
  have lru: "lru_cache (he_lru demo_http)" by (rule http_lawsD(1) [OF demo_http_laws])
  have lim: "unat (ar_per_ip_limit demo_args) = 32" by (simp add: demo_args_def)
  have up: "create_tcp_incoming demo_sockets (listen_addr (ar_port demo_args)) = Inr 443"
    "create_tcp_incoming demo_sockets (listen_addr 80) = Inl ''address in use''" by code_simp+
  have tls: "create_tls_incoming demo_acme (sc_domains demo_cfg) (ar_email demo_args) (ar_cache demo_args)
      (ar_staging demo_args) i = ([''mles.io''], True)" for i
    by (simp add: create_tls_incoming_def demo_acme_def demo_cfg_def demo_args_def)
  show ?thesis
    using server_starts_well [OF ok lru mb, where so = demo_sockets and gv = gcra_ops
        and ao = demo_acme and new_sem = "\<lambda>n. (0 :: nat, unat n)" and grow = max] demo_config lim up
    by (auto simp: tls split: sum.splits option.splits)
qed

section \<open>From the socket to the upstream\<close>

text \<open>C39: the address an upstream can trust is the one the connection was accepted from. For a
  connection that the policy admitted and \<^verbatim>\<open>serve_tls\<close> serves, every request that a proxy rule
  forwards carries one \<^verbatim>\<open>X-Forwarded-For\<close> header whose rightmost entry is the peer's address,
  printed in canonical form: an IPv4 client of the dual-stack listener appears as plain IPv4.\<close>

theorem upstream_sees_peer:
  assumes "header_map ops"
    and "enforce_ip_policy check_key st (Inr stream) = (st', Some (Inr ps))"
    and "ts_peer stream = Some addr"
    and "rq_client rq = ct_client (tls_task ps)"
  shows "\<exists>v. hdr_get_all ops (request_headers ops
             (with_forwarded_for ops (rq_headers rq) (map_option sa_ip (rq_client rq)))) X_FORWARDED_FOR = [v] \<and>
           str_trim (last (str_split (CHR '','') v)) = ip_string (to_canonical (sa_ip addr))"
proof -
  have "conforms check_key st stream"
    using assms(2) by (cases "conforms check_key st stream") (simp_all add: enforce_over_rate)
  moreover obtain l g where "try_acquire (po_limiter st) (stream_key stream) = (l, g)" by fastforce
  ultimately have "ps = admitted_as stream"
    using assms(2) by (simp add: enforce_conforming split: if_splits)
  then have client: "map_option sa_ip (rq_client rq) = Some (to_canonical (sa_ip addr))"
    using assms(3,4) by (simp add: tls_task_def admitted_as_def peer_socket_addr_def)
  obtain v where v: "forwarded_for ops (rq_headers rq) (Some (to_canonical (sa_ip addr))) = Some v"
    "str_trim (last (str_split (CHR '','') v)) = ip_string (to_canonical (sa_ip addr))"
    using header_map.forwarded_for_client [OF assms(1)] by metis
  then show ?thesis
    using header_map.get_with_forwarded_for [OF assms(1), of "rq_headers rq"
        "Some (to_canonical (sa_ip addr))" X_FORWARDED_FOR]
    unfolding client header_map.get_request_headers [OF assms(1)]
    by (simp add: X_FORWARDED_FOR_def)
qed

definition mapped_rq :: "(string \<times> string) list request" where
  "mapped_rq = demo_rq\<lparr>rq_client := ct_client (tls_task (admitted_as client_mapped))\<rparr>"

theorem upstream_sees_peer_witness:
  "\<exists>v. hdr_get_all list_headers (request_headers list_headers (with_forwarded_for list_headers
        (rq_headers mapped_rq) (map_option sa_ip (rq_client mapped_rq)))) X_FORWARDED_FOR = [v] \<and>
     str_trim (last (str_split (CHR '','') v)) = ''81.2.3.4''"
proof -
  have e: "enforce_ip_policy no_rate (fst (policy_init 1 None)) (Inr client_mapped :: string + tcp_stream) =
      (fst (enforce_ip_policy no_rate (fst (policy_init 1 None)) (Inr client_mapped :: string + tcp_stream)),
       Some (Inr (admitted_as client_mapped)))"
    by code_simp
  have p: "ts_peer client_mapped = Some \<lparr>sa_ip = V6 (Ipv6 0 0 0 0 0 0xffff 0x5102 0x0304), sa_port = 4001\<rparr>"
    by (simp add: client_mapped_def)
  have c: "rq_client mapped_rq = ct_client (tls_task (admitted_as client_mapped))"
    by (simp add: mapped_rq_def)
  have "ip_string (to_canonical (V6 (Ipv6 0 0 0 0 0 0xffff 0x5102 0x0304))) = ''81.2.3.4''" by code_simp
  then show ?thesis using upstream_sees_peer [OF lh.header_map_axioms e p c] by simp
qed

section \<open>A failing upstream\<close>

text \<open>C40: a failing upstream is not reported as such. When the first matching rule's upstream fails,
  the request falls through to the file routes, with its method, headers and path, as if no rule
  had matched: for a GET to a served host with no such file the answer is 404 Not Found.\<close>

theorem failed_upstream_falls_through:
  assumes "sc_proxies cfg = pre @ rule # post" and "sc_domains cfg \<noteq> []"
    and "ws_route ws (he_hdr henv) rq = None"
    and "\<forall>r \<in> set pre. prefix_filter (pe_path penv) (fst r) (rq_path rq) = None"
    and "prefix_filter (pe_path penv) (fst rule) (rq_path rq) = Some tail" and "rq_body rq = Some body"
    and "forwarded_by penv (snd rule) tail body rq = Some (Inl e)"
    and "site_args (he_hdr henv) (rq_method rq) (rq_headers rq) = Some (enc, ims, h)" and "h \<in> set (sc_domains cfg)"
  shows "tls_routes ws penv henv cfg fs rq cc =
    map_option of_files (dyn_reply henv fs \<lparr>fr_encoding = enc, fr_ims = ims, fr_host = h, fr_domain = h,
      fr_root = sc_wwwroot cfg, fr_tail = rq_path rq, fr_cors = sc_cors cfg\<rparr> cc)"
proof -
  obtain f e' where f: "create_proxy_routes penv (sc_proxies cfg) = Some f"
    and fr: "f rq = Some (rq\<lparr>rq_body := None\<rparr>, Inl e')"
    using failed_rule_rejects [OF assms(4-7), of post] assms(1) by auto
  obtain ds where ds: "route_order (sc_domains cfg) = Some ds" "set ds = set (sc_domains cfg)"
    using route_order_domains [OF assms(2)] .
  have idx: "create_http_file_routes henv (sc_domains cfg) (sc_wwwroot cfg) (sc_cors cfg) =
    Some (\<lambda>fs method headers path. try_files henv fs (sc_wwwroot cfg) (sc_cors cfg) method headers path ds)"
    by (simp add: create_http_file_routes_def ds)
  show ?thesis
    using assms(1,3) f fr ds(2) assms(9) try_files_host [OF assms(8)]
    unfolding tls_routes_def idx by (simp add: Let_def)
qed


theorem failed_upstream_falls_through_witness:
  "map_option (\<lambda>x. case fst x of Replied r \<Rightarrow> rp_status r | _ \<Rightarrow> 0)
     (tls_routes (\<lambda>rq. None) demo_proxy demo_http demo_cfg (demo_fs 1) demo_rq (cache_new list_lru 1)) = Some 404"
proof -
  have c: "sc_proxies demo_cfg = [] @ (''keeper'', ''http://down'') # []" "sc_domains demo_cfg \<noteq> []"
    "ws_route (\<lambda>rq. None) (he_hdr demo_http) demo_rq = None" "''mles.io'' \<in> set (sc_domains demo_cfg)"
    by (simp_all add: demo_cfg_def ws_route_def)
  have m: "prefix_filter (pe_path demo_proxy) (fst (''keeper'', ''http://down'')) (rq_path demo_rq) = Some ''verify''"
    "rq_body demo_rq = Some []"
    "forwarded_by demo_proxy (snd (''keeper'', ''http://down'')) ''verify'' [] demo_rq = Some (Inl ''upstream error: refused'')"
    "site_args (he_hdr demo_http) (rq_method demo_rq) (rq_headers demo_rq) = Some (None, None, ''mles.io'')"
    by code_simp+
  let ?fr = "\<lparr>fr_encoding = None, fr_ims = None, fr_host = ''mles.io'', fr_domain = ''mles.io'',
      fr_root = sc_wwwroot demo_cfg, fr_tail = rq_path demo_rq, fr_cors = sc_cors demo_cfg\<rparr>"
  have "file_path_of ?fr = ''/www/mles.io/keeper/verify''" by code_simp
  then have "fs_meta (demo_fs 1) (file_path_of ?fr) = None" by (simp add: demo_fs_def demo_path_def)
  then have "dyn_reply demo_http (demo_fs 1) ?fr (cache_new list_lru 1) =
      Some (Inr (text_reply demo_http 404 ''Not Found''), cache_new list_lru 1)"
    by (simp add: dyn_reply_def)
  then show ?thesis
    using failed_upstream_falls_through [OF c(1,2,3) _ m c(4), of "demo_fs 1" "cache_new list_lru 1"]
    by (simp add: of_files_def text_reply_def)
qed

end
