(* ===== verification/Tls_Serve.thy ===== *)
theory Tls_Serve
  imports Mles_Server
begin

text \<open>
  The TLS port as a whole: the accept loop with its semaphore (\<^verbatim>\<open>serve_tls\<close>) and the routes of each request
  (\<^verbatim>\<open>run\<close>) on top of the running server of \<^verbatim>\<open>Server_Run\<close>. A connection is accepted, shakes hands, waits for a
  permit, and is served by a task of its own: a request is tried as a WebSocket handshake, then by the proxy
  rules, then by the files; HTTP/1.1 serves the requests of a connection one after the other. All connections
  interleave, and so do the steps of the WebSocket service and of the other port.

  Shown: the connections in service, and with them the file requests in progress, never outnumber
  the permits, while upgraded connections do; few sources cannot keep another one from
  being served; a request that is not interrupted gets exactly what the combined routes say; and an upstream that
  does not answer holds the permits of the connections that wait for it, and with enough of them the whole port.
\<close>

section \<open>State\<close>

text \<open>
  Where a connection stands: in the TLS handshake, in the accept loop waiting for a permit, between two
  requests, with a request that waits for an upstream, with the \<^verbatim>\<open>k\<close>-th file request, or upgraded to
  the \<^verbatim>\<open>j\<close>-th connection of the WebSocket service. The stages are those of the connections of the
  running server, in the same order.
\<close>

datatype 'h stage = Shaking | Queued | Between | Proxied "'h request" | Filed nat | Upgraded nat

record ('g, 'c, 'h, 'm, 's) tls_port =
  tp_run :: "('g, 'c, 'h, 'm) server_run"
  tp_stages :: "'h stage list"
  tp_accept :: "'s accept_state"

record ('q, 'g, 'k, 'm, 'c, 'h, 's, 'u) tls_env =
  te_server :: "('q, 'g, 'k, 'm, 'c, 'h) server_env"
  te_sem :: "'s sem_ops"
  te_proxy :: "('h, 'u) proxy_env"
  te_ws :: "'h request \<Rightarrow> 'h reply option"
  te_cfg :: server_config

definition tls_init ::
  "('q, 'g, 'k, 'm, 'c, 'h, 's, 'u) tls_env \<Rightarrow> 's \<Rightarrow> usize \<Rightarrow> ('g, 'c, 'h, 'm, 's) tls_port" where
  "tls_init te sem0 mb =
     \<lparr>tp_run = server_init (se_gov (te_server te)) (sc_per_ip_conn_limit (te_cfg te)) (sc_rate_limit (te_cfg te))
                 (se_http (te_server te)) mb,
      tp_stages = [], tp_accept = accept_init sem0\<rparr>"

section \<open>Steps\<close>

text \<open>
  What can happen: the listener yields a stream or an error, a handshake fails or succeeds, the wait for a
  permit is polled, a served connection delivers a request, the upstream answers or fails, a file request
  makes a step, a served connection closes (also in the middle of a request, which is then dropped), the tasks
  of an upgraded connection have let go of its stream, the WebSocket service makes a step, and the other port
  and the clock go on.
\<close>

datatype ('e, 'm, 'h) tls_act =
    TpItem "'e + tcp_stream"
  | TpHandshakeFails nat 'e
  | TpHandshake nat
  | TpPermit
  | TpRequest nat "'h request"
  | TpUpstream nat
  | TpFile nat file_system
  | TpClose nat
  | TpGone nat
  | TpWs "'m sys_act"
  | TpHttp "'e + tcp_stream"
  | TpHttpEnds nat
  | TpSweep
  | TpWait nat

type_synonym ('g, 'c, 'h, 'm, 's) tls_result =
  "(('g, 'c, 'h, 'm, 's) tls_port \<times> (permitted_stream \<times> 'h outcome) list) option"

definition stream_at :: "('g, 'c, 'h, 'm, 's) tls_port \<Rightarrow> nat \<Rightarrow> permitted_stream" where
  "stream_at st i = fst (rv_tls (tp_run st) ! i)"

definition stage_at :: "('g, 'c, 'h, 'm, 's) tls_port \<Rightarrow> nat \<Rightarrow> 'h stage option" where
  "stage_at st i = (if i < length (tp_stages st) then Some (tp_stages st ! i) else None)"

definition set_stage :: "nat \<Rightarrow> 'h stage \<Rightarrow> ('g, 'c, 'h, 'm, 's) tls_port \<Rightarrow> ('g, 'c, 'h, 'm, 's) tls_port" where
  "set_stage i s st = st\<lparr>tp_stages := (tp_stages st)[i := s]\<rparr>"

definition in_run ::
  "('q, 'g, 'k, 'm, 'c, 'h, 's, 'u) tls_env \<Rightarrow> ('e, 'm) server_act \<Rightarrow> ('g, 'c, 'h, 'm, 's) tls_port \<Rightarrow>
   ('g, 'c, 'h, 'm, 's) tls_port option" where
  "in_run te a st = map_option (\<lambda>r. st\<lparr>tp_run := r\<rparr>) (server_step (te_server te) (tp_run st) a)"

text \<open>The stream of a connection is dropped, and its permit of the per-source cap with it.\<close>

definition drop_conn ::
  "('q, 'g, 'k, 'm, 'c, 'h, 's, 'u) tls_env \<Rightarrow> nat \<Rightarrow> ('g, 'c, 'h, 'm, 's) tls_port \<Rightarrow>
   ('g, 'c, 'h, 'm, 's) tls_port option" where
  "drop_conn te i st =
     map_option (\<lambda>st'. st'\<lparr>tp_stages := take i (tp_stages st) @ drop (Suc i) (tp_stages st)\<rparr>)
       (in_run te (SvTlsEnds i :: (unit, 'm) server_act) st)"

definition in_accept ::
  "('q, 'g, 'k, 'm, 'c, 'h, 's, 'u) tls_env \<Rightarrow> 'e accept_event \<Rightarrow> ('g, 'c, 'h, 'm, 's) tls_port \<Rightarrow>
   ('g, 'c, 'h, 'm, 's) tls_port" where
  "in_accept te ev st = st\<lparr>tp_accept := serve_tls (te_sem te) (tp_accept st) ev\<rparr>"

text \<open>The task that serves a stream ends and gives its permit back.\<close>

definition task_of :: "permitted_stream \<Rightarrow> conn_task list \<Rightarrow> nat" where
  "task_of ps ts = length (takeWhile (\<lambda>t. ct_stream t \<noteq> ps) ts)"

definition end_task ::
  "('q, 'g, 'k, 'm, 'c, 'h, 's, 'u) tls_env \<Rightarrow> permitted_stream \<Rightarrow> ('g, 'c, 'h, 'm, 's) tls_port \<Rightarrow>
   ('g, 'c, 'h, 'm, 's) tls_port" where
  "end_task te ps st = in_accept te (TaskEnds (task_of ps (al_tasks (tp_accept st))) :: unit accept_event) st"

text \<open>The file that a request asks for, if the routes of the files take it: the route of the first domain, in
  the order of the routes, that is the request's host.\<close>

definition file_target :: "('c, 'h) http_env \<Rightarrow> server_config \<Rightarrow> 'h request \<Rightarrow> file_request option" where
  "file_target henv cfg rq =
     (case (site_args (he_hdr henv) (rq_method rq) (rq_headers rq), route_order (sc_domains cfg)) of
        (Some (enc, ims, h), Some ds) \<Rightarrow>
          map_option
            (\<lambda>d. \<lparr>fr_encoding = enc, fr_ims = ims, fr_host = h, fr_domain = d, fr_root = sc_wwwroot cfg,
                  fr_tail = rq_path rq, fr_cors = sc_cors cfg\<rparr>)
            (List.find (\<lambda>d. h = d) ds)
      | _ \<Rightarrow> None)"

definition to_files ::
  "('q, 'g, 'k, 'm, 'c, 'h, 's, 'u) tls_env \<Rightarrow> nat \<Rightarrow> 'h request \<Rightarrow> ('g, 'c, 'h, 'm, 's) tls_port \<Rightarrow>
   ('g, 'c, 'h, 'm, 's) tls_result" where
  "to_files te i rq st =
     (case file_target (se_http (te_server te)) (te_cfg te) rq of
        None \<Rightarrow> Some (set_stage i Between st, [(stream_at st i, Unrouted)])
      | Some fr \<Rightarrow>
          map_option (\<lambda>st'. (set_stage i (Filed (length (ss_requests (rv_site (tp_run st))))) st', []))
            (in_run te (SvRequest i fr :: (unit, 'm) server_act) st))"

text \<open>A request as the routes see it: the accept loop puts the client's address on it.\<close>

definition to_routes ::
  "('q, 'g, 'k, 'm, 'c, 'h, 's, 'u) tls_env \<Rightarrow> nat \<Rightarrow> 'h request \<Rightarrow> ('g, 'c, 'h, 'm, 's) tls_port \<Rightarrow>
   ('g, 'c, 'h, 'm, 's) tls_result" where
  "to_routes te i rq0 st =
     (let rq = rq0\<lparr>rq_client := ct_client (tls_task (stream_at st i))\<rparr>
      in case ws_route (te_ws te) (he_hdr (se_http (te_server te))) rq of
           Some r \<Rightarrow>
             map_option (\<lambda>st'. (end_task te (stream_at st i)
                                 (set_stage i (Upgraded (length (sy_conns (rv_ws (tp_run st))))) st'),
                               [(stream_at st i, Upgrade r)]))
               (in_run te (SvUpgrade i :: (unit, 'm) server_act) st)
         | None \<Rightarrow>
             if sc_proxies (te_cfg te) = [] then to_files te i rq st
             else Some (set_stage i (Proxied rq) st, []))"

text \<open>The upstream answers or fails. None: it does not, and nothing ends the wait.\<close>

definition to_upstream ::
  "('q, 'g, 'k, 'm, 'c, 'h, 's, 'u) tls_env \<Rightarrow> nat \<Rightarrow> 'h request \<Rightarrow> ('g, 'c, 'h, 'm, 's) tls_port \<Rightarrow>
   ('g, 'c, 'h, 'm, 's) tls_result" where
  "to_upstream te i rq st =
     (case create_proxy_routes (te_proxy te) (sc_proxies (te_cfg te)) of
        None \<Rightarrow> None
      | Some proxy_routes \<Rightarrow>
          (case proxy_routes rq of
             None \<Rightarrow> None
           | Some (rq', Inr r) \<Rightarrow> Some (set_stage i Between st, [(stream_at st i, Replied r)])
           | Some (rq', Inl e) \<Rightarrow> to_files te i rq' st))"

text \<open>A step of a file request. A panic ends the task and drops the connection.\<close>

definition file_step ::
  "('q, 'g, 'k, 'm, 'c, 'h, 's, 'u) tls_env \<Rightarrow> nat \<Rightarrow> nat \<Rightarrow> file_system \<Rightarrow> ('g, 'c, 'h, 'm, 's) tls_port \<Rightarrow>
   ('g, 'c, 'h, 'm, 's) tls_result" where
  "file_step te i k fs st =
     (case in_run te (SvPoll k fs :: (unit, 'm) server_act) st of
        None \<Rightarrow> None
      | Some st' \<Rightarrow>
          (case snd (ss_requests (rv_site (tp_run st')) ! k) of
             Answered r \<Rightarrow>
               Some (set_stage i Between st',
                     [(stream_at st i, case r of Inr reply \<Rightarrow> Replied reply | Inl e \<Rightarrow> Unrouted)])
           | Panicked \<Rightarrow> map_option (\<lambda>st''. (end_task te (stream_at st i) st'', [])) (drop_conn te i st')
           | _ \<Rightarrow> Some (st', [])))"

definition served :: "'h stage \<Rightarrow> bool" where
  "served s = (case s of Between \<Rightarrow> True | Proxied rq \<Rightarrow> True | Filed k \<Rightarrow> True | _ \<Rightarrow> False)"

text \<open>None: the action cannot happen in this state, or it never ends. Streams that are open at the same time
  are different.\<close>

definition fresh :: "('g, 'c, 'h, 'm, 's) tls_port \<Rightarrow> 'e + tcp_stream \<Rightarrow> bool" where
  "fresh st conn =
     (case conn of Inl e \<Rightarrow> True | Inr s \<Rightarrow> ts_id s \<notin> (\<lambda>c. ts_id (ps_inner (fst c))) ` set (rv_tls (tp_run st)))"

definition quiet :: "('g, 'c, 'h, 'm, 's) tls_port option \<Rightarrow> ('g, 'c, 'h, 'm, 's) tls_result" where
  "quiet x = map_option (\<lambda>st. (st, [])) x"

fun tls_step ::
  "('q, 'g, 'k, 'm, 'c, 'h, 's, 'u) tls_env \<Rightarrow> ('g, 'c, 'h, 'm, 's) tls_port \<Rightarrow> ('e, 'm, 'h) tls_act \<Rightarrow>
   ('g, 'c, 'h, 'm, 's) tls_result" where
  "tls_step te st (TpItem conn) =
     (if fresh st conn
      then quiet (map_option
             (\<lambda>st'. st'\<lparr>tp_stages := tp_stages st @
                         replicate (length (rv_tls (tp_run st')) - length (tp_stages st)) Shaking\<rparr>)
             (in_run te (SvTls conn) st))
      else None)"
| "tls_step te st (TpHandshakeFails i e) =
     (if stage_at st i = Some Shaking \<and> al_waiting (tp_accept st) = None
      then quiet (map_option (in_accept te (Incoming (Some (Inl e)))) (drop_conn te i st))
      else None)"
| "tls_step te st (TpHandshake i) =
     (if stage_at st i = Some Shaking \<and> al_waiting (tp_accept st) = None
      then quiet (Some (in_accept te (Incoming (Some (Inr (stream_at st i))) :: 'e accept_event) (set_stage i Queued st)))
      else None)"
| "tls_step te st TpPermit =
     (case acquire_owned (te_sem te) (al_sem (tp_accept st)) of
        Granted s \<Rightarrow>
          quiet (Some (in_accept te (PollPermit :: 'e accept_event)
                   (st\<lparr>tp_stages := map (\<lambda>s. if s = Queued then Between else s) (tp_stages st)\<rparr>)))
      | Waiting \<Rightarrow> quiet (Some st)
      | Closed \<Rightarrow> None)"
| "tls_step te st (TpRequest i rq) = (if stage_at st i = Some Between then to_routes te i rq st else None)"
| "tls_step te st (TpUpstream i) = (case stage_at st i of Some (Proxied rq) \<Rightarrow> to_upstream te i rq st | _ \<Rightarrow> None)"
| "tls_step te st (TpFile i fs) = (case stage_at st i of Some (Filed k) \<Rightarrow> file_step te i k fs st | _ \<Rightarrow> None)"
| "tls_step te st (TpClose i) =
     (case stage_at st i of
        Some s \<Rightarrow> if served s then quiet (map_option (end_task te (stream_at st i)) (drop_conn te i st)) else None
      | None \<Rightarrow> None)"
| "tls_step te st (TpGone i) =
     (case stage_at st i of Some (Upgraded j) \<Rightarrow> quiet (drop_conn te i st) | _ \<Rightarrow> None)"
| "tls_step te st (TpWs a) = quiet (in_run te (SvWs a :: ('e, 'm) server_act) st)"
| "tls_step te st (TpHttp conn) = quiet (in_run te (SvHttp conn) st)"
| "tls_step te st (TpHttpEnds i) = quiet (in_run te (SvHttpEnds i :: ('e, 'm) server_act) st)"
| "tls_step te st TpSweep = quiet (in_run te (SvSweep :: ('e, 'm) server_act) st)"
| "tls_step te st (TpWait n) = quiet (in_run te (SvWait n :: ('e, 'm) server_act) st)"

fun tls_acts ::
  "('q, 'g, 'k, 'm, 'c, 'h, 's, 'u) tls_env \<Rightarrow> ('g, 'c, 'h, 'm, 's) tls_port \<Rightarrow> ('e, 'm, 'h) tls_act list \<Rightarrow>
   ('g, 'c, 'h, 'm, 's) tls_result" where
  "tls_acts te st [] = Some (st, [])"
| "tls_acts te st (a # as) =
     (case tls_step te st a of
        None \<Rightarrow> None
      | Some (st', out) \<Rightarrow> map_option (\<lambda>(st'', out'). (st'', out @ out')) (tls_acts te st' as))"

section \<open>The accept loop and the connections\<close>

text \<open>
  The streams with their stages. The loop waits with the queued connection, its tasks are those of the connections
  in service, and open streams are different.
\<close>

definition conns_of :: "('g, 'c, 'h, 'm, 's) tls_port \<Rightarrow> (permitted_stream \<times> 'h stage) list" where
  "conns_of st = zip (map fst (rv_tls (tp_run st))) (tp_stages st)"

definition in_service :: "(permitted_stream \<times> 'h stage) list \<Rightarrow> permitted_stream list" where
  "in_service cs = map fst (filter (\<lambda>c. served (snd c)) cs)"

definition in_queue :: "(permitted_stream \<times> 'h stage) list \<Rightarrow> permitted_stream list" where
  "in_queue cs = map fst (filter (\<lambda>c. snd c = Queued) cs)"

definition ids :: "(permitted_stream \<times> 'h stage) list \<Rightarrow> nat list" where
  "ids cs = map (\<lambda>c. ts_id (ps_inner (fst c))) cs"

definition port_ok :: "(permitted_stream \<times> 'h stage) list \<Rightarrow> 's accept_state \<Rightarrow> bool" where
  "port_ok cs al \<longleftrightarrow>
     al_running al \<and> distinct (ids cs) \<and> in_queue cs = (case al_waiting al of None \<Rightarrow> [] | Some ps \<Rightarrow> [ps]) \<and>
     mset (al_tasks al) = mset (map tls_task (in_service cs))"

lemma in_service_simps [simp]:
  "in_service [] = []" "in_service (c # cs) = (if served (snd c) then fst c # in_service cs else in_service cs)"
  "in_service (cs @ ds) = in_service cs @ in_service ds"
  by (simp_all add: in_service_def)

lemma in_queue_simps [simp]:
  "in_queue [] = []" "in_queue (c # cs) = (if snd c = Queued then fst c # in_queue cs else in_queue cs)"
  "in_queue (cs @ ds) = in_queue cs @ in_queue ds"
  by (simp_all add: in_queue_def)

lemma ids_simps [simp]:
  "ids [] = []" "ids (c # cs) = ts_id (ps_inner (fst c)) # ids cs" "ids (cs @ ds) = ids cs @ ids ds"
  by (simp_all add: ids_def)

lemma served_simps [simp]:
  "\<not> served Shaking" "\<not> served Queued" "served Between" "served (Proxied rq)" "served (Filed k)" "\<not> served (Upgraded j)"
  by (simp_all add: served_def)

lemma port_ok_new:
  "port_ok cs al \<Longrightarrow> ts_id (ps_inner ps) \<notin> set (ids cs) \<Longrightarrow> port_ok (cs @ [(ps, Shaking)]) al"
  by (simp add: port_ok_def)

lemma port_ok_stage:
  "port_ok (as @ (ps, s) # bs) al \<Longrightarrow> served s \<Longrightarrow> served s' \<Longrightarrow> port_ok (as @ (ps, s') # bs) al"
  by (cases s; cases s') (simp_all add: port_ok_def)

lemma port_ok_drop:
  "port_ok (as @ (ps, s) # bs) al \<Longrightarrow> \<not> served s \<Longrightarrow> s \<noteq> Queued \<Longrightarrow> port_ok (as @ bs) al"
  by (simp add: port_ok_def)

lemma port_ok_refused:
  "port_ok cs al \<Longrightarrow> port_ok cs (serve_tls sem al (Incoming (Some (Inl e))))"
  by (simp add: port_ok_def serve_tls_next_def)

lemma port_ok_queue:
  "port_ok (as @ (ps, Shaking) # bs) al \<Longrightarrow> al_waiting al = None \<Longrightarrow>
   port_ok (as @ (ps, Queued) # bs) (serve_tls sem al (Incoming (Some (Inr ps))))"
  by (simp add: port_ok_def serve_tls_next_def)

lemma served_permit: "served (if s = Queued then Between else s) \<longleftrightarrow> served s \<or> s = Queued"
  by simp

lemma port_ok_permit:
  assumes "port_ok cs al" and "acquire_owned sem (al_sem al) = Granted s"
  shows "port_ok (map (\<lambda>(ps, s). (ps, if s = Queued then Between else s)) cs) (serve_tls sem al PollPermit)"
proof -
  let ?cs = "map (\<lambda>(ps, s). (ps, if s = Queued then Between else s)) cs"
  have i: "ids ?cs = ids cs" by (simp add: ids_def case_prod_unfold comp_def)
  have q: "in_queue ?cs = []" by (simp add: in_queue_def filter_map comp_def case_prod_unfold)
  have m: "mset (map tls_task (in_service ?cs)) = mset (map tls_task (in_service cs)) + mset (map tls_task (in_queue cs))"
    by (induction cs) auto
  show ?thesis
    using assms m by (auto simp: port_ok_def i q poll_permit_def split: option.splits)
qed

lemma task_of_found:
  assumes "mset ts = mset (map tls_task pss)" and "ps \<in> set pss"
  shows "task_of ps ts < length ts \<and> ts ! task_of ps ts = tls_task ps"
proof -
  have set: "set ts = tls_task ` set pss" using arg_cong [OF assms(1), of set_mset] by simp
  then have "\<exists>t \<in> set ts. ct_stream t = ps" using assms(2) by (force simp: tls_task_def)
  then have lt: "task_of ps ts < length ts"
    unfolding task_of_def using length_takeWhile_le [of "\<lambda>t. ct_stream t \<noteq> ps" ts] takeWhile_eq_all_conv
    by (metis (mono_tags, lifting) antisym_conv2 length_takeWhile_le takeWhile_eq_take take_all)
  then have "ct_stream (ts ! task_of ps ts) = ps"
    unfolding task_of_def using nth_length_takeWhile by blast
  moreover obtain q where "ts ! task_of ps ts = tls_task q" using set nth_mem [OF lt] by auto
  ultimately show ?thesis using lt by (simp add: tls_task_def)
qed

lemma mset_remove_nth: "i < length xs \<Longrightarrow> mset (take i xs @ drop (Suc i) xs) = mset xs - {#xs ! i#}"
  by (subst (3) id_take_nth_drop [of i xs]) simp_all

lemma port_ok_end:
  assumes "port_ok (as @ (ps, s) # bs) al" and "served s"
  shows "port_ok (as @ bs) (serve_tls sem al (TaskEnds (task_of ps (al_tasks al))))"
    and "port_ok (as @ (ps, Upgraded j) # bs) (serve_tls sem al (TaskEnds (task_of ps (al_tasks al))))"
proof -
  let ?i = "task_of ps (al_tasks al)"
  have ts: "mset (al_tasks al) = mset (map tls_task (in_service (as @ (ps, s) # bs)))"
    using assms(1) by (simp add: port_ok_def)
  have f: "?i < length (al_tasks al)" "al_tasks al ! ?i = tls_task ps"
    using task_of_found [OF ts, of ps] assms(2) by simp_all
  have "mset (take ?i (al_tasks al) @ drop (Suc ?i) (al_tasks al)) = mset (al_tasks al) - {#tls_task ps#}"
    using mset_remove_nth [OF f(1)] f(2) by simp
  then have "mset (take ?i (al_tasks al) @ drop (Suc ?i) (al_tasks al)) = mset (map tls_task (in_service (as @ bs)))"
    using assms(2) ts by simp
  moreover have "s \<noteq> Queued" using assms(2) by auto
  ultimately show "port_ok (as @ bs) (serve_tls sem al (TaskEnds (task_of ps (al_tasks al))))"
    and "port_ok (as @ (ps, Upgraded j) # bs) (serve_tls sem al (TaskEnds (task_of ps (al_tasks al))))"
    using assms f by (auto simp: port_ok_def task_ends_def)
qed

section \<open>The invariant\<close>

text \<open>The connection of the service that an upgraded connection is.\<close>

definition link :: "'h stage \<Rightarrow> nat option" where
  "link s = (case s of Upgraded j \<Rightarrow> Some j | _ \<Rightarrow> None)"

lemma link_simps [simp]:
  "link Shaking = None" "link Queued = None" "link Between = None" "link (Proxied rq) = None" "link (Filed k) = None"
  "link (Upgraded j) = Some j"
  by (simp_all add: link_def)

lemma link_served: "served s \<Longrightarrow> link s = None"
  by (cases s) simp_all

definition tls_inv :: "('g, 'c, 'h, 'm, 's) tls_port \<Rightarrow> bool" where
  "tls_inv st \<longleftrightarrow>
     map snd (rv_tls (tp_run st)) = map link (tp_stages st) \<and> port_ok (conns_of st) (tp_accept st) \<and>
     (\<forall>k. Filed k \<in> set (tp_stages st) \<longrightarrow> k < length (ss_requests (rv_site (tp_run st))))"

lemma tls_inv_length: "tls_inv st \<Longrightarrow> length (rv_tls (tp_run st)) = length (tp_stages st)"
  unfolding tls_inv_def using map_eq_imp_length_eq by blast

text \<open>A connection of the port: its place in the lists.\<close>

lemma stage_split:
  assumes "tls_inv st" and "stage_at st i = Some s"
  obtains as ps bs ss ts where "rv_tls (tp_run st) = as @ (ps, link s) # bs" "tp_stages st = ss @ s # ts"
    "length as = i" "length ss = i" "stream_at st i = ps"
    "conns_of st = zip (map fst as) ss @ (ps, s) # zip (map fst bs) ts"
    "map snd as = map link ss" "map snd bs = map link ts"
proof -
  have i: "i < length (tp_stages st)" and s: "tp_stages st ! i = s"
    using assms(2) by (auto simp: stage_at_def split: if_splits)
  have j: "i < length (rv_tls (tp_run st))" using i tls_inv_length [OF assms(1)] by simp
  obtain ps u where pu: "rv_tls (tp_run st) ! i = (ps, u)" by fastforce
  let ?as = "take i (rv_tls (tp_run st))" and ?bs = "drop (Suc i) (rv_tls (tp_run st))"
  let ?ss = "take i (tp_stages st)" and ?ts = "drop (Suc i) (tp_stages st)"
  have run: "rv_tls (tp_run st) = ?as @ (ps, u) # ?bs" using id_take_nth_drop [OF j] pu by simp
  have stages: "tp_stages st = ?ss @ s # ?ts" using id_take_nth_drop [OF i] s by simp
  have eq: "map snd (rv_tls (tp_run st)) = map link (tp_stages st)" using assms(1) by (simp add: tls_inv_def)
  have "u = link s" using arg_cong [OF eq, of "\<lambda>xs. xs ! i"] i j pu s by simp
  moreover have "map snd ?as = map link ?ss" "map snd ?bs = map link ?ts"
    using eq by (simp_all flip: take_map drop_map)
  moreover have "conns_of st = zip (map fst ?as) ?ss @ (ps, s) # zip (map fst ?bs) ?ts"
  proof -
    have "length (map fst ?as) = length ?ss" using i j by simp
    from zip_append [OF this, of "ps # map fst ?bs" "s # ?ts"] show ?thesis
      unfolding conns_of_def by (subst run, subst stages) simp
  qed
  ultimately show thesis
    using run stages i j pu by (intro that [of ?as ps ?bs ?ss ?ts]) (auto simp: stream_at_def)
qed

lemma in_run_cases:
  "in_run te a st = Some st' \<longleftrightarrow>
   (\<exists>r. server_step (te_server te) (tp_run st) a = Some r \<and> st' = st\<lparr>tp_run := r\<rparr>)"
  by (auto simp: in_run_def)

text \<open>Steps of the server that leave the connections of the port alone.\<close>

fun beside :: "('e, 'm) server_act \<Rightarrow> bool" where
  "beside (SvTls conn) = False"
| "beside (SvTlsEnds i) = False"
| "beside (SvUpgrade i) = False"
| "beside _ = True"

lemma server_step_beside:
  assumes "server_step se r a = Some r'" and "beside a"
  shows "rv_tls r' = rv_tls r \<and> length (ss_requests (rv_site r)) \<le> length (ss_requests (rv_site r'))"
proof (cases a)
  case (SvWs b)
  then show ?thesis using assms(1) by (auto split: sys_act.splits)
next
  case (SvPoll k fs)
  then show ?thesis using assms(1) by (auto split: prod.splits if_splits)
qed (use assms in \<open>auto split: if_splits prod.splits\<close>)

lemma inv_beside:
  assumes "tls_inv st" and "in_run te a st = Some st'" and "beside a"
  shows "tls_inv st'"
  using assms(1,2) server_step_beside [OF _ assms(3)]
  by (fastforce simp: in_run_cases tls_inv_def conns_of_def)

lemma inv_stage:
  assumes "tls_inv st" and "stage_at st i = Some s" and "served s" and "served s'"
    and "\<And>k. s' = Filed k \<Longrightarrow> k < length (ss_requests (rv_site (tp_run st)))"
  shows "tls_inv (set_stage i s' st)"
  using assms(1,2)
proof (cases rule: stage_split)
  case (1 as ps bs ss ts)
  have "conns_of (set_stage i s' st) = zip (map fst as) ss @ (ps, s') # zip (map fst bs) ts"
    using 1 by (simp add: conns_of_def set_stage_def zip_append list_update_append)
  moreover have "port_ok (zip (map fst as) ss @ (ps, s') # zip (map fst bs) ts) (tp_accept st)"
    by (rule port_ok_stage [OF _ assms(3,4)]) (use assms(1) 1(6) in \<open>simp add: tls_inv_def\<close>)
  ultimately show ?thesis
    using assms 1 by (auto simp: tls_inv_def set_stage_def list_update_append link_served)
qed

lemma drop_conn_split:
  assumes "tls_inv st" and "stage_at st i = Some s" and "drop_conn te i st = Some st'"
  obtains as ps bs where "conns_of st = as @ (ps, s) # bs" "conns_of st' = as @ bs" "stream_at st i = ps"
    "tp_accept st' = tp_accept st" "map snd (rv_tls (tp_run st')) = map link (tp_stages st')"
    "set (tp_stages st') \<subseteq> set (tp_stages st)" "rv_site (tp_run st') = rv_site (tp_run st)"
  using assms(1,2)
proof (cases rule: stage_split)
  case (1 as ps bs ss ts)
  obtain r where r: "server_step (te_server te) (tp_run st) (SvTlsEnds i :: (unit, _) server_act) = Some r"
    and st': "st' = st\<lparr>tp_run := r, tp_stages := ss @ ts\<rparr>"
    using assms(3) 1(2,4) by (auto simp: drop_conn_def in_run_def)
  have run: "rv_tls r = as @ bs" "rv_site r = rv_site (tp_run st)"
    using r 1(1,3) by (auto split: if_splits)
  show thesis
    using 1 by (intro that [of "zip (map fst as) ss" ps "zip (map fst bs) ts"])
      (auto simp: st' run conns_of_def zip_append)
qed

lemma inv_drop:
  assumes "tls_inv st" and "stage_at st i = Some s" and "drop_conn te i st = Some st'"
  shows "\<not> served s \<Longrightarrow> s \<noteq> Queued \<Longrightarrow> tls_inv st'" and "served s \<Longrightarrow> tls_inv (end_task te (stream_at st i) st')"
proof -
  obtain as ps bs where 1: "conns_of st = as @ (ps, s) # bs" "conns_of st' = as @ bs" "stream_at st i = ps"
    "tp_accept st' = tp_accept st" "map snd (rv_tls (tp_run st')) = map link (tp_stages st')"
    "set (tp_stages st') \<subseteq> set (tp_stages st)" "rv_site (tp_run st') = rv_site (tp_run st)"
    using drop_conn_split [OF assms] .
  have ok: "port_ok (as @ (ps, s) # bs) (tp_accept st)"
    and files: "\<forall>k. Filed k \<in> set (tp_stages st') \<longrightarrow> k < length (ss_requests (rv_site (tp_run st')))"
    using assms(1) 1 by (auto simp: tls_inv_def)
  show "tls_inv st'" if "\<not> served s" "s \<noteq> Queued"
    using port_ok_drop [OF ok that] files 1 by (simp add: tls_inv_def)
  show "tls_inv (end_task te (stream_at st i) st')" if "served s"
    using port_ok_end(1) [OF ok that] files 1 by (simp add: tls_inv_def end_task_def in_accept_def conns_of_def)
qed

lemma inv_upgrade:
  assumes "tls_inv st" and "stage_at st i = Some Between"
    and "in_run te (SvUpgrade i :: (unit, _) server_act) st = Some st'"
  shows "tls_inv (end_task te (stream_at st i) (set_stage i (Upgraded (length (sy_conns (rv_ws (tp_run st))))) st'))"
  using assms(1,2)
proof (cases rule: stage_split)
  case (1 as ps bs ss ts)
  let ?j = "length (sy_conns (rv_ws (tp_run st)))"
  obtain r where r: "server_step (te_server te) (tp_run st) (SvUpgrade i :: (unit, _) server_act) = Some r"
    and st': "st' = st\<lparr>tp_run := r\<rparr>"
    using assms(3) by (auto simp: in_run_cases)
  have run: "rv_tls r = as @ (ps, Some ?j) # bs" "rv_site r = rv_site (tp_run st)"
    using r 1(1,3) by (auto simp: nth_append list_update_append split: if_splits)
  have "port_ok (zip (map fst as) ss @ (ps, Between) # zip (map fst bs) ts) (tp_accept st)"
    using assms(1) 1(6) by (simp add: tls_inv_def)
  from port_ok_end(2) [OF this, where sem = "te_sem te" and j = ?j] show ?thesis
    using assms(1) 1 by (auto simp: tls_inv_def st' end_task_def in_accept_def set_stage_def conns_of_def run
        zip_append list_update_append)
qed

section \<open>A run of the port is a run of the server and of the accept loop\<close>

definition runs_on ::
  "('q, 'g, 'k, 'm, 'c, 'h, 's, 'u) tls_env \<Rightarrow> ('g, 'c, 'h, 'm, 's) tls_port \<Rightarrow> ('e, 'm) server_act list \<Rightarrow>
   'e accept_event list \<Rightarrow> ('g, 'c, 'h, 'm, 's) tls_port \<Rightarrow> bool" where
  "runs_on te st as evs st' \<longleftrightarrow>
     server_acts (te_server te) (tp_run st) as = Some (tp_run st') \<and> list_all no_end evs \<and>
     foldl (serve_tls (te_sem te)) (tp_accept st) evs = tp_accept st'"

lemma server_acts_append:
  "server_acts se st (as @ bs) = Option.bind (server_acts se st as) (\<lambda>st'. server_acts se st' bs)"
  by (induction as arbitrary: st) (simp_all split: option.split)

lemma runs_on_refl: "runs_on te st [] [] st"
  by (simp add: runs_on_def)

lemma runs_on_trans:
  "runs_on te st as evs st' \<Longrightarrow> runs_on te st' bs fvs st'' \<Longrightarrow> runs_on te st (as @ bs) (evs @ fvs) st''"
  by (simp add: runs_on_def server_acts_append)

lemma runs_on_run: "in_run te a st = Some st' \<Longrightarrow> runs_on te st [a] [] st'"
  by (auto simp: runs_on_def in_run_cases)

lemma runs_on_accept: "no_end ev \<Longrightarrow> runs_on te st [] [ev] (in_accept te ev st)"
  by (simp add: runs_on_def in_accept_def)

lemma runs_on_stages [simp]:
  "runs_on te st as evs (set_stage i s st') \<longleftrightarrow> runs_on te st as evs st'"
  "runs_on te st as evs (st'\<lparr>tp_stages := ss\<rparr>) \<longleftrightarrow> runs_on te st as evs st'"
  "runs_on te (set_stage i s st) as evs st' \<longleftrightarrow> runs_on te st as evs st'"
  "runs_on te (st\<lparr>tp_stages := ss\<rparr>) as evs st' \<longleftrightarrow> runs_on te st as evs st'"
  by (simp_all add: runs_on_def set_stage_def)

text \<open>The steps of the parts of a step; the type of the listener's errors plays no role in them.\<close>

lemma unit_acts:
  "in_run te (SvTlsEnds i :: (unit, 'm) server_act) st = in_run te (SvTlsEnds i :: ('e, 'm) server_act) st"
  "in_run te (SvRequest i fr :: (unit, 'm) server_act) st = in_run te (SvRequest i fr :: ('e, 'm) server_act) st"
  "in_run te (SvUpgrade i :: (unit, 'm) server_act) st = in_run te (SvUpgrade i :: ('e, 'm) server_act) st"
  "in_run te (SvPoll k fs :: (unit, 'm) server_act) st = in_run te (SvPoll k fs :: ('e, 'm) server_act) st"
  by (simp_all add: in_run_def)

lemma unit_end:
  "in_accept te (TaskEnds i :: unit accept_event) st = in_accept te (TaskEnds i :: 'e accept_event) st"
  by (simp add: in_accept_def)

lemma runs_on_drop:
  "drop_conn te i st = Some st' \<Longrightarrow> runs_on te st [SvTlsEnds i :: ('e, 'm) server_act] [] st'"
  unfolding drop_conn_def unit_acts(1) [where 'e = 'e] using runs_on_run by fastforce

lemma runs_on_end: "runs_on te st [] [TaskEnds (task_of ps (al_tasks (tp_accept st))) :: 'e accept_event] (end_task te ps st)"
  unfolding end_task_def unit_end [where 'e = 'e] by (rule runs_on_accept) simp

lemma to_files_keeps:
  assumes "tls_inv st" and "stage_at st i = Some s" and "served s" and "to_files te i rq st = Some (st', out)"
  shows "tls_inv st' \<and> (\<exists>as evs. runs_on te st (as :: ('e, 'm) server_act list) evs st')"
proof (cases "file_target (se_http (te_server te)) (te_cfg te) rq")
  case None
  then have st': "st' = set_stage i Between st" using assms(4) by (simp add: to_files_def)
  have "runs_on te st ([] :: ('e, 'm) server_act list) [] st'" unfolding st' by (simp add: runs_on_refl)
  then show ?thesis unfolding st' using inv_stage [OF assms(1-3), of Between] by auto
next
  case (Some fr)
  let ?k = "length (ss_requests (rv_site (tp_run st)))"
  obtain st1 where run: "in_run te (SvRequest i fr :: ('e, 'm) server_act) st = Some st1"
    and st': "st' = set_stage i (Filed ?k) st1"
    using assms(4) by (auto simp: to_files_def Some unit_acts(2) [where 'e = 'e])
  have inv: "tls_inv st1" using inv_beside [OF assms(1) run] by simp
  have s1: "stage_at st1 i = Some s" and k: "?k < length (ss_requests (rv_site (tp_run st1)))"
    using run assms(2) by (auto simp: in_run_cases stage_at_def split: if_splits)
  have "tls_inv st'" unfolding st' by (rule inv_stage [OF inv s1 assms(3)]) (use k in simp_all)
  moreover have "runs_on te st [SvRequest i fr :: ('e, 'm) server_act] [] st'"
    unfolding st' using runs_on_run [OF run] by simp
  ultimately show ?thesis by blast
qed

lemma to_routes_keeps:
  assumes "tls_inv st" and "stage_at st i = Some Between" and "to_routes te i rq st = Some (st', out)"
  shows "tls_inv st' \<and> (\<exists>as evs. runs_on te st (as :: ('e, 'm) server_act list) evs st')"
proof -
  let ?rq = "rq\<lparr>rq_client := ct_client (tls_task (stream_at st i))\<rparr>"
  let ?ws = "ws_route (te_ws te) (he_hdr (se_http (te_server te))) ?rq"
  show ?thesis
  proof (cases ?ws)
    case (Some r)
    let ?j = "length (sy_conns (rv_ws (tp_run st)))"
    obtain st1 where run: "in_run te (SvUpgrade i :: ('e, 'm) server_act) st = Some st1"
      and st': "st' = end_task te (stream_at st i) (set_stage i (Upgraded ?j) st1)"
      using assms(3) by (auto simp: to_routes_def Some unit_acts(3) [where 'e = 'e])
    have "tls_inv st'"
      unfolding st' by (rule inv_upgrade [OF assms(1,2)]) (use run in \<open>simp add: unit_acts(3) [where 'e = 'e]\<close>)
    moreover have "runs_on te st [SvUpgrade i :: ('e, 'm) server_act] [] (set_stage i (Upgraded ?j) st1)"
      using runs_on_run [OF run] by simp
    from runs_on_trans [OF this runs_on_end [of te _ "stream_at st i"]]
    have "\<exists>evs. runs_on te st [SvUpgrade i :: ('e, 'm) server_act] evs st'" unfolding st' by auto
    ultimately show ?thesis by blast
  next
    case None
    show ?thesis
    proof (cases "sc_proxies (te_cfg te) = []")
      case True
      then have "to_files te i ?rq st = Some (st', out)" using assms(3) None by (simp add: to_routes_def)
      then show ?thesis by (intro to_files_keeps [OF assms(1,2)]) simp_all
    next
      case False
      then have st': "st' = set_stage i (Proxied ?rq) st" using assms(3) None by (simp add: to_routes_def)
      have "runs_on te st ([] :: ('e, 'm) server_act list) [] st'" unfolding st' by (simp add: runs_on_refl)
      then show ?thesis unfolding st' using inv_stage [OF assms(1,2), of "Proxied ?rq"] by auto
    qed
  qed
qed

lemma file_step_keeps:
  assumes "tls_inv st" and "stage_at st i = Some (Filed k)" and "file_step te i k fs st = Some (st', out)"
  shows "tls_inv st' \<and> (\<exists>as evs. runs_on te st (as :: ('e, 'm) server_act list) evs st')"
proof -
  obtain st1 where run: "in_run te (SvPoll k fs :: ('e, 'm) server_act) st = Some st1"
    using assms(3) by (auto simp: file_step_def unit_acts(4) [where 'e = 'e] split: option.splits)
  have inv: "tls_inv st1" using inv_beside [OF assms(1) run] by simp
  have s1: "stage_at st1 i = Some (Filed k)" and ps: "stream_at st1 i = stream_at st i"
    using run assms(2) server_step_beside [of "te_server te" "tp_run st" "SvPoll k fs :: ('e, 'm) server_act"]
    by (auto simp: in_run_cases stage_at_def stream_at_def simp del: server_step.simps split: if_splits)
  note on = runs_on_run [OF run]
  consider (answered) "st' = set_stage i Between st1" | (going) "st' = st1"
    | (panicked) st2 where "drop_conn te i st1 = Some st2" "st' = end_task te (stream_at st i) st2"
    using assms(3) by (auto simp: file_step_def unit_acts(4) [where 'e = 'e] run split: file_pc.splits)
  then show ?thesis
  proof cases
    case answered
    then have "runs_on te st [SvPoll k fs :: ('e, 'm) server_act] [] st'" using on by simp
    then show ?thesis using inv_stage [OF inv s1, of Between] answered by auto
  next
    case going
    then show ?thesis using inv on by blast
  next
    case panicked
    have "tls_inv st'" using inv_drop(2) [OF inv s1 panicked(1)] panicked(2) ps by simp
    then show ?thesis
      unfolding panicked(2)
      using runs_on_trans [OF runs_on_trans [OF on runs_on_drop [OF panicked(1)]] runs_on_end [of te st2 "stream_at st i"]]
      by blast
  qed
qed

lemma ids_zip: "length xs = length ss \<Longrightarrow> ids (zip (map fst xs) ss) = map (\<lambda>c. ts_id (ps_inner (fst c))) xs"
  by (induction xs ss rule: list_induct2) simp_all

lemma inv_item:
  assumes "tls_inv st" and "fresh st conn" and "in_run te (SvTls conn) st = Some st1"
  shows "tls_inv (st1\<lparr>tp_stages := tp_stages st @
    replicate (length (rv_tls (tp_run st1)) - length (tp_stages st)) Shaking\<rparr>)"
proof -
  obtain rate lim new where ad: "admit (gv_check (se_gov (te_server te))) (rv_rate (tp_run st)) (rv_tls_limiter (tp_run st)) conn =
      (rate, lim, new)"
    by (cases "admit (gv_check (se_gov (te_server te))) (rv_rate (tp_run st)) (rv_tls_limiter (tp_run st)) conn")
  have st1: "tp_accept st1 = tp_accept st" "rv_site (tp_run st1) = rv_site (tp_run st)"
    "rv_tls (tp_run st1) = rv_tls (tp_run st) @ map (\<lambda>ps. (ps, None)) new"
    using assms(3) by (auto simp: in_run_cases ad)
  have len: "length (rv_tls (tp_run st)) = length (tp_stages st)" by (rule tls_inv_length [OF assms(1)])
  consider "new = []" | s where "conn = Inr s" "new = [admitted_as s]"
    using ad
  proof (cases conn)
    case (Inl e)
    then show thesis using ad that(1) by (simp add: admit_def enforce_ip_policy_def)
  next
    case (Inr s)
    then show thesis using ad that by (auto simp: admit_stream split: prod.splits if_splits)
  qed
  then show ?thesis
  proof cases
    case 1
    then show ?thesis using assms(1) by (simp add: tls_inv_def st1 len conns_of_def)
  next
    case 2
    have "ids (conns_of st) = map (\<lambda>c. ts_id (ps_inner (fst c))) (rv_tls (tp_run st))"
      unfolding conns_of_def by (rule ids_zip [OF len])
    then have "ts_id (ps_inner (admitted_as s)) \<notin> set (ids (conns_of st))"
      using assms(2) 2 by (auto simp: fresh_def admitted_as_def)
    with port_ok_new [of "conns_of st" "tp_accept st" "admitted_as s"] show ?thesis
      using assms(1) 2 by (auto simp: tls_inv_def st1 len conns_of_def zip_append)
  qed
qed

lemma inv_queue:
  assumes "tls_inv st" and "stage_at st i = Some Shaking" and "al_waiting (tp_accept st) = None"
  shows "tls_inv (in_accept te (Incoming (Some (Inr (stream_at st i)))) (set_stage i Queued st))"
  using assms(1,2)
proof (cases rule: stage_split)
  case (1 as ps bs ss ts)
  have "port_ok (zip (map fst as) ss @ (ps, Shaking) # zip (map fst bs) ts) (tp_accept st)"
    using assms(1) 1(6) by (simp add: tls_inv_def)
  from port_ok_queue [OF this assms(3), of "te_sem te"] show ?thesis
    using assms(1) 1
    by (auto simp: tls_inv_def in_accept_def set_stage_def conns_of_def zip_append list_update_append
        simp del: serve_tls.simps)
qed

lemma inv_permit:
  assumes "tls_inv st" and "acquire_owned (te_sem te) (al_sem (tp_accept st)) = Granted s"
  shows "tls_inv (in_accept te PollPermit (st\<lparr>tp_stages := map (\<lambda>s. if s = Queued then Between else s) (tp_stages st)\<rparr>))"
proof -
  let ?f = "\<lambda>s. if s = Queued then Between else s"
  have l: "link (?f s) = link s" for s :: "'a stage" by (cases s) simp_all
  have f: "Filed k \<in> ?f ` S \<longleftrightarrow> Filed k \<in> S" for k and S :: "'a stage set" by (auto split: if_splits)
  have c: "zip (map fst xs) (map ?f ss) = map (\<lambda>(ps, s). (ps, ?f s)) (zip (map fst xs) ss)"
    for xs :: "(permitted_stream \<times> nat option) list" and ss
    by (simp add: zip_map2)
  have "port_ok (conns_of st) (tp_accept st)" using assms(1) by (simp add: tls_inv_def)
  from port_ok_permit [OF this assms(2)] show ?thesis
    using assms(1) by (auto simp: tls_inv_def in_accept_def conns_of_def c comp_def l f simp del: serve_tls.simps)
qed

lemma quiet_Some: "quiet x = Some (st', out) \<longleftrightarrow> x = Some st' \<and> out = []"
  by (auto simp: quiet_def)

lemma run_keeps:
  fixes a :: "('e, 'm) server_act"
  assumes "tls_inv st" and "in_run te a st = Some st'" and "beside a"
  shows "tls_inv st' \<and> (\<exists>as evs. runs_on te st (as :: ('e, 'm) server_act list) evs st')"
  using inv_beside [OF assms] runs_on_run [OF assms(2)] by blast

lemma tls_step_keeps:
  fixes a :: "('e, 'm, 'h) tls_act"
  assumes "tls_inv st" and "tls_step te st a = Some (st', out)"
  shows "tls_inv st' \<and> (\<exists>as evs. runs_on te st (as :: ('e, 'm) server_act list) evs st')"
proof (cases a)
  case (TpItem conn)
  then obtain st1 where st1: "fresh st conn" "in_run te (SvTls conn) st = Some st1"
    "st' = st1\<lparr>tp_stages := tp_stages st @ replicate (length (rv_tls (tp_run st1)) - length (tp_stages st)) Shaking\<rparr>"
    using assms(2) by (auto simp: quiet_Some split: if_splits)
  then have "runs_on te st [SvTls conn] [] st'" using runs_on_run by fastforce
  then show ?thesis using inv_item [OF assms(1) st1(1,2)] st1(3) by blast
next
  case (TpHandshakeFails i e)
  then obtain st1 where st1: "stage_at st i = Some Shaking" "drop_conn te i st = Some st1"
    "st' = in_accept te (Incoming (Some (Inl e))) st1"
    using assms(2) by (auto simp: quiet_Some split: if_splits)
  have "runs_on te st ([SvTlsEnds i] @ []) ([] @ [Incoming (Some (Inl e))]) st'"
    unfolding st1(3) by (rule runs_on_trans [OF runs_on_drop [OF st1(2)] runs_on_accept]) simp
  moreover have "tls_inv st1" using inv_drop(1) [OF assms(1) st1(1,2)] by simp
  then have "tls_inv st'"
    unfolding st1(3) using port_ok_refused
    by (auto simp: tls_inv_def in_accept_def conns_of_def simp del: serve_tls.simps)
  ultimately show ?thesis by blast
next
  case (TpHandshake i)
  then have st': "stage_at st i = Some Shaking" "al_waiting (tp_accept st) = None"
    "st' = in_accept te (Incoming (Some (Inr (stream_at st i))) :: 'e accept_event) (set_stage i Queued st)"
    using assms(2) by (auto simp: quiet_Some split: if_splits)
  have "runs_on te (set_stage i Queued st) ([] :: ('e, 'm) server_act list) [Incoming (Some (Inr (stream_at st i)))] st'"
    unfolding st'(3) by (rule runs_on_accept) simp
  then show ?thesis using inv_queue [OF assms(1) st'(1,2)] st'(3) by auto
next
  case TpPermit
  show ?thesis
  proof (cases "acquire_owned (te_sem te) (al_sem (tp_accept st))")
    case (Granted s)
    let ?st = "st\<lparr>tp_stages := map (\<lambda>s. if s = Queued then Between else s) (tp_stages st)\<rparr>"
    have st': "st' = in_accept te (PollPermit :: 'e accept_event) ?st"
      using assms(2) TpPermit Granted by (simp add: quiet_Some)
    have "runs_on te ?st ([] :: ('e, 'm) server_act list) [PollPermit] st'"
      unfolding st' by (rule runs_on_accept) simp
    then show ?thesis using inv_permit [OF assms(1) Granted] st' by auto
  next
    case Waiting
    then have "st' = st" using assms(2) TpPermit by (simp add: quiet_Some)
    then show ?thesis using assms(1) runs_on_refl by blast
  next
    case Closed
    then show ?thesis using assms(2) TpPermit by simp
  qed
next
  case (TpRequest i rq)
  then have "stage_at st i = Some Between" "to_routes te i rq st = Some (st', out)"
    using assms(2) by (auto split: if_splits)
  then show ?thesis by (rule to_routes_keeps [OF assms(1)])
next
  case (TpUpstream i)
  then obtain rq where rq: "stage_at st i = Some (Proxied rq)" "to_upstream te i rq st = Some (st', out)"
    using assms(2) by (auto split: option.splits stage.splits)
  then consider "st' = set_stage i Between st" | rq' where "to_files te i rq' st = Some (st', out)"
    by (auto simp: to_upstream_def split: option.splits prod.splits sum.splits)
  then show ?thesis
  proof cases
    case 1
    have "runs_on te st ([] :: ('e, 'm) server_act list) [] st'" unfolding 1 by (simp add: runs_on_refl)
    then show ?thesis unfolding 1 using inv_stage [OF assms(1) rq(1), of Between] by auto
  next
    case 2
    then show ?thesis by (intro to_files_keeps [OF assms(1) rq(1)]) simp_all
  qed
next
  case (TpFile i fs)
  then obtain k where "stage_at st i = Some (Filed k)" "file_step te i k fs st = Some (st', out)"
    using assms(2) by (auto split: option.splits stage.splits)
  then show ?thesis by (rule file_step_keeps [OF assms(1)])
next
  case (TpClose i)
  then obtain s st1 where st1: "stage_at st i = Some s" "served s" "drop_conn te i st = Some st1"
    "st' = end_task te (stream_at st i) st1"
    using assms(2) by (auto simp: quiet_Some split: option.splits if_splits)
  then show ?thesis
    using inv_drop(2) [OF assms(1) st1(1,3,2)]
      runs_on_trans [OF runs_on_drop [OF st1(3)] runs_on_end [of te st1 "stream_at st i"]] by blast
next
  case (TpGone i)
  then obtain j where j: "stage_at st i = Some (Upgraded j)" "drop_conn te i st = Some st'"
    using assms(2) by (auto simp: quiet_Some split: option.splits stage.splits)
  then show ?thesis using inv_drop(1) [OF assms(1) j] runs_on_drop [OF j(2)] by auto
next
  case (TpWs b)
  then show ?thesis using run_keeps [OF assms(1), of te "SvWs b :: ('e, 'm) server_act"] assms(2) by (simp add: quiet_Some)
next
  case (TpHttp conn)
  then show ?thesis using run_keeps [OF assms(1), of te "SvHttp conn"] assms(2) by (simp add: quiet_Some)
next
  case (TpHttpEnds i)
  then show ?thesis using run_keeps [OF assms(1), of te "SvHttpEnds i :: ('e, 'm) server_act"] assms(2) by (simp add: quiet_Some)
next
  case TpSweep
  then show ?thesis using run_keeps [OF assms(1), of te "SvSweep :: ('e, 'm) server_act"] assms(2) by (simp add: quiet_Some)
next
  case (TpWait n)
  then show ?thesis using run_keeps [OF assms(1), of te "SvWait n :: ('e, 'm) server_act"] assms(2) by (simp add: quiet_Some)
qed

lemma tls_acts_keeps:
  fixes as :: "('e, 'm, 'h) tls_act list"
  shows "tls_inv st \<Longrightarrow> tls_acts te st as = Some (st', out) \<Longrightarrow>
    tls_inv st' \<and> (\<exists>bs evs. runs_on te st (bs :: ('e, 'm) server_act list) evs st')"
proof (induction as arbitrary: st out)
  case Nil
  then show ?case using runs_on_refl by auto
next
  case (Cons a as)
  then obtain st1 out1 out2 where s: "tls_step te st a = Some (st1, out1)" "tls_acts te st1 as = Some (st', out2)"
    by (auto split: option.splits)
  obtain bs evs where 1: "tls_inv st1" "runs_on te st (bs :: ('e, 'm) server_act list) evs st1"
    using tls_step_keeps [OF Cons.prems(1) s(1)] by blast
  obtain cs fvs where 2: "tls_inv st'" "runs_on te st1 (cs :: ('e, 'm) server_act list) fvs st'"
    using Cons.IH [OF 1(1) s(2)] by blast
  show ?case using 2(1) runs_on_trans [OF 1(2) 2(2)] by blast
qed

lemma tls_inv_init: "tls_inv (tls_init te s0 mb)"
  by (simp add: tls_inv_def tls_init_def conns_of_def port_ok_def accept_init_def server_init_def)

lemmas tls_acts_init = tls_acts_keeps [OF tls_inv_init]

text \<open>A port whose semaphore has as many permits as \<^verbatim>\<open>filelimit\<close> says.\<close>

definition sem_for ::
  "('q, 'g, 'k, 'm, 'c, 'h, 's, 'u) tls_env \<Rightarrow> ('s \<Rightarrow> unit \<Rightarrow> nat) \<Rightarrow> ('s \<Rightarrow> nat) \<Rightarrow> ('s \<Rightarrow> bool) \<Rightarrow> 's \<Rightarrow> bool" where
  "sem_for te held cap ok s0 \<longleftrightarrow>
     sem_contract (te_sem te) held cap ok \<and> ok s0 \<and> held s0 () = 0 \<and> cap s0 = unat (sc_filelimit (te_cfg te))"

lemma tls_acts_accounts:
  assumes "sem_for te held cap ok s0" and "tls_acts te (tls_init te s0 mb) (as :: ('e, 'm, 'h) tls_act list) = Some (st, out)"
  shows "sem_accounts held cap ok (unat (sc_filelimit (te_cfg te))) (tp_accept st)"
proof -
  obtain bs :: "('e, 'm) server_act list" and evs where "runs_on te (tls_init te s0 mb) bs evs st"
    using tls_acts_init [OF assms(2)] by blast
  then have evs: "list_all no_end evs" "tp_accept st = foldl (serve_tls (te_sem te)) (accept_init s0) evs"
    by (simp_all add: runs_on_def tls_init_def)
  have "sem_accounts held cap ok (unat (sc_filelimit (te_cfg te))) (accept_init s0)"
    using assms(1) by (simp add: sem_for_def sem_accounts_def accept_init_def)
  from serve_tls_run_accounts [OF _ this evs(1), of "te_sem te"] assms(1) show ?thesis
    by (simp add: evs(2) sem_for_def)
qed

lemma tasks_of_port: "tls_inv st \<Longrightarrow> length (al_tasks (tp_accept st)) = length (in_service (conns_of st))"
  unfolding tls_inv_def port_ok_def by (metis length_map size_mset)

lemma tls_acts_server:
  assumes "tls_acts te (tls_init te s0 mb) (as :: ('e, 'm, 'h) tls_act list) = Some (st, out)"
  shows "\<exists>bs :: ('e, 'm) server_act list.
    server_acts (te_server te) (server_init (se_gov (te_server te)) (sc_per_ip_conn_limit (te_cfg te))
      (sc_rate_limit (te_cfg te)) (se_http (te_server te)) mb) bs = Some (tp_run st)"
proof -
  obtain bs :: "('e, 'm) server_act list" and evs where "runs_on te (tls_init te s0 mb) bs evs st"
    using tls_acts_init [OF assms] by blast
  then show ?thesis by (auto simp: runs_on_def tls_init_def)
qed

lemma tls_acts_limiter:
  assumes "0 < sc_per_ip_conn_limit (te_cfg te)"
    and "tls_acts te (tls_init te s0 mb) (as :: ('e, 'm, 'h) tls_act list) = Some (st, out)"
  shows "pl.accounts (rv_tls_limiter (tp_run st)) (permits (map fst (rv_tls (tp_run st)))) \<and>
    limiter_cap (rv_tls_limiter (tp_run st)) = unat (sc_per_ip_conn_limit (te_cfg te))"
proof -
  obtain bs :: "('e, 'm) server_act list" where
    "server_acts (te_server te) (server_init (se_gov (te_server te)) (sc_per_ip_conn_limit (te_cfg te))
       (sc_rate_limit (te_cfg te)) (se_http (te_server te)) mb) bs = Some (tp_run st)"
    using tls_acts_server [OF assms(2)] by blast
  from server_acts_init [OF this]
  have "tls_accounts (unat (sc_per_ip_conn_limit (te_cfg te))) (front_of (tp_run st))"
    using tls_accounts_run [OF tls_accounts_init [OF assms(1)]] unfolding follows_def front_of_init by metis
  then show ?thesis by (simp add: tls_accounts_def tls_permits_def front_of_def map_fst_uses)
qed

text \<open>The file requests in progress.\<close>

definition filing :: "'h stage list \<Rightarrow> nat list" where
  "filing ss = concat (map (\<lambda>s. case s of Filed k \<Rightarrow> [k] | _ \<Rightarrow> []) ss)"

lemma filing_le:
  "length xs = length ss \<Longrightarrow> length (filing ss) \<le> length (in_service (zip xs ss))"
  by (induction xs ss rule: list_induct2) (auto simp: filing_def split: stage.split)

section \<open>What the permits bound\<close>

text \<open>C3: \<^verbatim>\<open>filelimit\<close> bounds what it is meant to bound. In every state the port can reach, each connection in
  service has a task of its own with one permit, at most one connection waits for a permit, and neither the connections
  in service nor the file requests in progress outnumber \<^verbatim>\<open>filelimit\<close>, whatever the clients, the file system and
  the WebSockets do.\<close>

theorem port_bounded:
  assumes "sem_for te held cap ok s0" and "tls_acts te (tls_init te s0 mb) (as :: ('e, 'm, 'h) tls_act list) = Some (st, out)"
  shows "mset (al_tasks (tp_accept st)) = mset (map tls_task (in_service (conns_of st))) \<and>
    length (in_queue (conns_of st)) \<le> 1 \<and> length (in_service (conns_of st)) \<le> unat (sc_filelimit (te_cfg te)) \<and>
    length (filing (tp_stages st)) \<le> unat (sc_filelimit (te_cfg te))"
proof -
  have inv: "tls_inv st" using tls_acts_init [OF assms(2)] by blast
  have tasks: "length (in_service (conns_of st)) \<le> unat (sc_filelimit (te_cfg te))"
    using tls_acts_accounts [OF assms] tasks_of_port [OF inv] by (simp add: sem_accounts_def)
  have "length (filing (tp_stages st)) \<le> length (in_service (conns_of st))"
    unfolding conns_of_def by (rule filing_le) (use tls_inv_length [OF inv] in simp)
  then show ?thesis
    using tasks inv by (auto simp: tls_inv_def port_ok_def split: option.splits)
qed

lemma length_by_source:
  assumes "finite K" and "f ` set xs \<subseteq> K" and "\<And>k. count_list (map f xs) k \<le> n"
  shows "length xs \<le> card K * n"
proof -
  have "length xs = sum (count_list (map f xs)) K"
    using sum_count_set [of "map f xs" K] assms(1,2) by simp
  also have "\<dots> \<le> card K * n" using sum_bounded_above [of K "count_list (map f xs)" n] assms(3) by simp
  finally show ?thesis .
qed

lemma count_in_service:
  "length xs = length ss \<Longrightarrow>
   count_list (map ps_permit (in_service (zip (map fst xs) ss))) k \<le> count_list (permits (map fst xs)) k"
  by (induction xs ss rule: list_induct2) (auto simp: permits_def)

text \<open>C4: one source cannot keep the others out. A connection that waits for a permit gets one the next time the
  loop looks, unless the connections in service come from so many sources that their caps exhaust
  \<^verbatim>\<open>filelimit\<close>: with the default limits of 32 and 256 that takes eight sources.\<close>

theorem no_source_starves:
  assumes "sem_for te held cap ok s0" and "0 < sc_per_ip_conn_limit (te_cfg te)"
    and "tls_acts te (tls_init te s0 mb) (as :: ('e, 'm, 'h) tls_act list) = Some (st, out)"
    and "finite K" and "ps_permit ` set (in_service (conns_of st)) \<subseteq> K"
    and "card K * unat (sc_per_ip_conn_limit (te_cfg te)) < unat (sc_filelimit (te_cfg te))"
    and "stage_at st i = Some Queued"
  shows "\<exists>st'. tls_step te st (TpPermit :: ('e, 'm, 'h) tls_act) = Some (st', []) \<and> stage_at st' i = Some Between"
proof -
  let ?n = "unat (sc_per_ip_conn_limit (te_cfg te))"
  have inv: "tls_inv st" using tls_acts_init [OF assms(3)] by blast
  have "count_list (map ps_permit (in_service (conns_of st))) k \<le> ?n" for k
    unfolding conns_of_def
    using le_trans [OF count_in_service [OF tls_inv_length [OF inv], of k]] tls_acts_limiter [OF assms(2,3)]
      pl.accounts_le [of "rv_tls_limiter (tp_run st)" "permits (map fst (rv_tls (tp_run st)))" k]
    by simp
  then have "length (in_service (conns_of st)) \<le> card K * ?n" by (rule length_by_source [OF assms(4,5)])
  then have room: "held (al_sem (tp_accept st)) () < cap (al_sem (tp_accept st))" and ok: "ok (al_sem (tp_accept st))"
    using tls_acts_accounts [OF assms(1,3)] tasks_of_port [OF inv] assms(6) by (simp_all add: sem_accounts_def)
  have pool: "permit_pool (sem_acquire (te_sem te)) (\<lambda>s u. sem_release (te_sem te) s) held cap ok"
    using assms(1) by (simp add: sem_for_def sem_contract_def)
  have "snd (sem_acquire (te_sem te) (al_sem (tp_accept st)) ())"
    using permit_pool.acquire_grants [OF pool ok, of "()"] room by simp
  then obtain s where "acquire_owned (te_sem te) (al_sem (tp_accept st)) = Granted s"
    by (auto simp: sem_acquire_def split: sem_result.splits)
  then show ?thesis
    using assms(7) by (auto simp: quiet_def stage_at_def in_accept_def split: if_splits)
qed

section \<open>A request that is not interrupted\<close>

definition answer :: "http_rejection + 'h reply \<Rightarrow> 'h outcome" where
  "answer r = (case r of Inr reply \<Rightarrow> Replied reply | Inl e \<Rightarrow> Unrouted)"

lemma answer_plain: "(case answer r of Upgrade x \<Rightarrow> f x | _ \<Rightarrow> s) = s"
  by (cases r) (simp_all add: answer_def)

lemma of_files_answer: "of_files (r, cc) = (answer r, cc)"
  by (simp add: of_files_def answer_def split: sum.split)

lemma tls_acts_append:
  "tls_acts te st as = Some (st1, o1) \<Longrightarrow> tls_acts te st1 bs = Some (st2, o2) \<Longrightarrow>
   tls_acts te st (as @ bs) = Some (st2, o1 @ o2)"
proof (induction as arbitrary: st o1)
  case (Cons a as)
  then obtain st0 o0 o1' where s: "tls_step te st a = Some (st0, o0)" "tls_acts te st0 as = Some (st1, o1')" "o1 = o0 @ o1'"
    by (auto split: option.splits)
  then show ?case using Cons.IH [OF s(2) Cons.prems(2)] by simp
qed simp

lemma site_poll:
  assumes "k < length (ss_requests site)" and "ss_requests site ! k = (fr, pc)"
    and "file_poll henv fs fr pc (ss_cache site) = Some (pc', cc')"
  shows "site_step henv site (Poll k fs) = Some \<lparr>ss_requests = (ss_requests site)[k := (fr, pc')], ss_cache = cc'\<rparr>"
  using assms by simp

text \<open>The steps of a file request, seen at the port.\<close>

lemma file_acts:
  assumes "stage_at st i = Some (Filed k)" and "k < length (ss_requests (rv_site (tp_run st)))"
    and "ss_requests (rv_site (tp_run st)) ! k = (fr, pc)" and "\<And>r'. pc \<noteq> Answered r'"
    and "file_polls (se_http (te_server te)) (replicate n fs) fr pc (ss_cache (rv_site (tp_run st))) = Some (Answered r, cc')"
  shows "\<exists>m st'. m \<le> n \<and> stage_at st' i = Some Between \<and> ss_cache (rv_site (tp_run st')) = cc' \<and>
    tls_acts te st (replicate m (TpFile i fs :: ('e, 'm, 'h) tls_act)) = Some (st', [(stream_at st i, answer r)])"
  using assms
proof (induction n arbitrary: st pc)
  case 0
  then show ?case by simp
next
  case (Suc n)
  let ?site = "rv_site (tp_run st)" and ?henv = "se_http (te_server te)"
  obtain pc1 cc1 where p: "file_poll ?henv fs fr pc (ss_cache ?site) = Some (pc1, cc1)"
    and rest: "file_polls ?henv (replicate n fs) fr pc1 cc1 = Some (Answered r, cc')"
    using Suc.prems(5) by (auto split: option.splits)
  define st1 where "st1 = st\<lparr>tp_run := (tp_run st)\<lparr>rv_site := \<lparr>ss_requests = (ss_requests ?site)[k := (fr, pc1)], ss_cache = cc1\<rparr>\<rparr>\<rparr>"
  have run: "in_run te (SvPoll k fs :: (unit, 'm) server_act) st = Some st1"
    using site_poll [OF Suc.prems(2,3) p] by (simp add: in_run_def st1_def del: site_step.simps)
  have st1: "stage_at st1 i = Some (Filed k)" "k < length (ss_requests (rv_site (tp_run st1)))"
    "ss_requests (rv_site (tp_run st1)) ! k = (fr, pc1)" "stream_at st1 i = stream_at st i"
    "ss_cache (rv_site (tp_run st1)) = cc1"
    using Suc.prems(1,2) by (simp_all add: st1_def stage_at_def stream_at_def split: if_splits)
  show ?case
  proof (cases "\<exists>r'. pc1 = Answered r'")
    case True
    then have pc1: "pc1 = Answered r" "cc1 = cc'" using rest by auto
    have "file_step te i k fs st = Some (set_stage i Between st1, [(stream_at st i, answer r)])"
      using run st1(3) by (simp add: file_step_def pc1 answer_def)
    then have "tls_acts te st (replicate 1 (TpFile i fs :: ('e, 'm, 'h) tls_act)) =
        Some (set_stage i Between st1, [(stream_at st i, answer r)])"
      using Suc.prems(1) by simp
    moreover have "stage_at (set_stage i Between st1) i = Some Between"
      using st1(1) by (auto simp: stage_at_def set_stage_def split: if_splits)
    ultimately show ?thesis using st1(5) pc1(2) by (intro exI [of _ 1] exI [of _ "set_stage i Between st1"])
      (simp add: set_stage_def)
  next
    case False
    then have "pc1 \<noteq> Panicked" using rest by auto
    then have "file_step te i k fs st = Some (st1, [])"
      using run st1(3) False by (auto simp: file_step_def split: file_pc.split)
    then have step: "tls_step te st (TpFile i fs :: ('e, 'm, 'h) tls_act) = Some (st1, [])"
      using Suc.prems(1) by simp
    obtain m st' where "m \<le> n" "stage_at st' i = Some Between" "ss_cache (rv_site (tp_run st')) = cc'"
      "tls_acts te st1 (replicate m (TpFile i fs :: ('e, 'm, 'h) tls_act)) = Some (st', [(stream_at st i, answer r)])"
      using Suc.IH [OF st1(1-3)] False rest st1(4,5) by auto
    then show ?thesis using step by (intro exI [of _ "Suc m"] exI [of _ st']) simp
  qed
qed

text \<open>What the routes of the files say of a request.\<close>

definition files_outcome ::
  "('c, 'h) http_env \<Rightarrow> server_config \<Rightarrow> file_system \<Rightarrow> 'h request \<Rightarrow> 'c compression_cache \<Rightarrow>
   ('h outcome \<times> 'c compression_cache) option" where
  "files_outcome henv cfg fs rq cc =
     (case file_target henv cfg rq of
        None \<Rightarrow> Some (Unrouted, cc)
      | Some fr \<Rightarrow> map_option (\<lambda>(r, cc'). (answer r, cc')) (dyn_reply henv fs fr cc))"

lemma find_here: "List.find (\<lambda>d. h = d) ds = (if h \<in> set ds then Some h else None)"
  by (induction ds) auto

lemma file_target_host:
  assumes "route_order (sc_domains cfg) = Some ds"
  shows "file_target henv cfg rq =
     (case site_args (he_hdr henv) (rq_method rq) (rq_headers rq) of
        None \<Rightarrow> None
      | Some (enc, ims, h) \<Rightarrow>
          if h \<in> set (sc_domains cfg)
          then Some \<lparr>fr_encoding = enc, fr_ims = ims, fr_host = h, fr_domain = h, fr_root = sc_wwwroot cfg,
                     fr_tail = rq_path rq, fr_cors = sc_cors cfg\<rparr>
          else None)"
proof -
  have "sc_domains cfg \<noteq> []" using assms by auto
  then have "set ds = set (sc_domains cfg)" using route_order_domains assms by (metis option.inject)
  then show ?thesis using assms by (auto simp: file_target_def find_here split: option.split)
qed

lemma index_outcome:
  assumes "create_http_file_routes henv (sc_domains cfg) (sc_wwwroot cfg) (sc_cors cfg) = Some index"
  shows "map_option of_files (index fs (rq_method rq) (rq_headers rq) (rq_path rq) cc) = files_outcome henv cfg fs rq cc"
proof -
  obtain ds where ds: "route_order (sc_domains cfg) = Some ds"
    "index = (\<lambda>fs method headers path. try_files henv fs (sc_wwwroot cfg) (sc_cors cfg) method headers path ds)"
    using assms by (auto simp: create_http_file_routes_def split: option.splits)
  have "sc_domains cfg \<noteq> []" using ds(1) by auto
  then have set: "set ds = set (sc_domains cfg)" using route_order_domains ds(1) by (metis option.inject)
  have of: "of_files = (\<lambda>(r, cc). (answer r, cc))" by (simp add: fun_eq_iff of_files_answer)
  show ?thesis
    by (cases "site_args (he_hdr henv) (rq_method rq) (rq_headers rq)")
       (auto simp: ds(2) files_outcome_def file_target_host [OF ds(1)] try_files_none try_files_host set of answer_def split: option.split)
qed

lemma served_idle:
  assumes "tls_inv st" and "stage_at st i = Some s" and "served s"
  shows "idle (tp_run st) i"
  using assms(1,2)
proof (cases rule: stage_split)
  case (1 as ps bs ss ts)
  then show ?thesis using link_served [OF assms(3)] by (simp add: idle_def nth_append)
qed

lemma to_files_acts:
  assumes "tls_inv st" and "stage_at st i = Some s" and "served s"
    and "files_outcome (se_http (te_server te)) (te_cfg te) fs rq (ss_cache (rv_site (tp_run st))) = Some (res, cc')"
  shows "\<exists>st0 o0 m st' o1. to_files te i rq st = Some (st0, o0) \<and> m \<le> 8 \<and>
    tls_acts te st0 (replicate m (TpFile i fs :: ('e, 'm, 'h) tls_act)) = Some (st', o1) \<and>
    o0 @ o1 = [(stream_at st i, res)] \<and> stage_at st' i = Some Between \<and> ss_cache (rv_site (tp_run st')) = cc'"
proof (cases "file_target (se_http (te_server te)) (te_cfg te) rq")
  case None
  then have "res = Unrouted" "cc' = ss_cache (rv_site (tp_run st))" using assms(4) by (simp_all add: files_outcome_def)
  moreover have "stage_at (set_stage i Between st) i = Some Between"
    using assms(2) by (auto simp: stage_at_def set_stage_def split: if_splits)
  ultimately show ?thesis using None
    by (intro exI [of _ "set_stage i Between st"] exI [of _ "[(stream_at st i, Unrouted)]"] exI [of _ 0]
        exI [of _ "set_stage i Between st"] exI [of _ "[]"]) (simp add: to_files_def set_stage_def)
next
  case (Some fr)
  let ?site = "rv_site (tp_run st)" and ?k = "length (ss_requests (rv_site (tp_run st)))"
  define st1 where "st1 = st\<lparr>tp_run := (tp_run st)\<lparr>rv_site := ?site\<lparr>ss_requests := ss_requests ?site @ [(fr, AtStat)]\<rparr>\<rparr>\<rparr>"
  have run: "in_run te (SvRequest i fr :: (unit, 'm) server_act) st = Some st1"
    using served_idle [OF assms(1-3)] by (simp add: in_run_def st1_def)
  let ?st0 = "set_stage i (Filed ?k) st1"
  have st0: "stage_at ?st0 i = Some (Filed ?k)" "?k < length (ss_requests (rv_site (tp_run ?st0)))"
    "ss_requests (rv_site (tp_run ?st0)) ! ?k = (fr, AtStat)" "stream_at ?st0 i = stream_at st i"
    "ss_cache (rv_site (tp_run ?st0)) = ss_cache ?site"
    using assms(2) by (auto simp: st1_def stage_at_def set_stage_def stream_at_def split: if_splits)
  obtain r where r: "dyn_reply (se_http (te_server te)) fs fr (ss_cache ?site) = Some (r, cc')" "res = answer r"
    using assms(4) Some by (auto simp: files_outcome_def)
  then have "file_polls (se_http (te_server te)) (replicate 8 fs) fr AtStat (ss_cache (rv_site (tp_run ?st0))) =
      Some (Answered r, cc')"
    unfolding eight_polls st0(5) by (auto simp: outcome_of_def split: option.splits file_pc.splits)
  from file_acts [OF st0(1-3) _ this] obtain m st' where "m \<le> 8" "stage_at st' i = Some Between"
    "ss_cache (rv_site (tp_run st')) = cc'"
    "tls_acts te ?st0 (replicate m (TpFile i fs :: ('e, 'm, 'h) tls_act)) = Some (st', [(stream_at st i, res)])"
    using r(2) st0(4) by auto
  moreover have "to_files te i rq st = Some (?st0, [])" using run Some by (simp add: to_files_def)
  ultimately show ?thesis
    by (intro exI [of _ ?st0] exI [of _ "[]"] exI [of _ m] exI [of _ st'] exI [of _ "[(stream_at st i, res)]"]) simp
qed

lemma to_files_run:
  assumes "tls_inv st" and "stage_at st i = Some s" and "served s"
    and "files_outcome (se_http (te_server te)) (te_cfg te) fs rq (ss_cache (rv_site (tp_run st))) = Some (res, cc')"
    and "tls_step te st0 (a :: ('e, 'm, 'h) tls_act) = to_files te i rq st"
  shows "\<exists>m st'. m \<le> 8 \<and> tls_acts te st0 (a # replicate m (TpFile i fs)) = Some (st', [(stream_at st i, res)]) \<and>
    stage_at st' i = Some Between \<and> ss_cache (rv_site (tp_run st')) = cc'"
proof -
  obtain st1 o1 m st' o2 where 1: "to_files te i rq st = Some (st1, o1)" "m \<le> 8"
    "tls_acts te st1 (replicate m (TpFile i fs :: ('e, 'm, 'h) tls_act)) = Some (st', o2)"
    "o1 @ o2 = [(stream_at st i, res)]" "stage_at st' i = Some Between" "ss_cache (rv_site (tp_run st')) = cc'"
    using to_files_acts [OF assms(1-4), where 'e = 'e] by blast
  have "tls_acts te st0 (a # replicate m (TpFile i fs)) = Some (st', o1 @ o2)" using 1(1,3) assms(5) by simp
  with 1 show ?thesis by metis
qed

text \<open>The two ways in which a request leaves the routes for something else: a WebSocket, and an upstream.\<close>

lemma upgrade_acts:
  assumes "tls_inv st" and "stage_at st i = Some Between"
    and "ws_route (te_ws te) (he_hdr (se_http (te_server te))) (rq\<lparr>rq_client := ct_client (tls_task (stream_at st i))\<rparr>) = Some r"
  shows "\<exists>st'. tls_acts te st [TpRequest i rq :: ('e, 'm, 'h) tls_act] = Some (st', [(stream_at st i, Upgrade r)]) \<and>
    stage_at st' i = Some (Upgraded (length (sy_conns (rv_ws (tp_run st))))) \<and> rv_site (tp_run st') = rv_site (tp_run st)"
proof -
  let ?j = "length (sy_conns (rv_ws (tp_run st)))"
  obtain st1 where run: "in_run te (SvUpgrade i :: (unit, 'm) server_act) st = Some st1"
    "rv_site (tp_run st1) = rv_site (tp_run st)" "tp_stages st1 = tp_stages st"
    using served_idle [OF assms(1,2) served_simps(3)] by (auto simp: in_run_def)
  let ?st' = "end_task te (stream_at st i) (set_stage i (Upgraded ?j) st1)"
  have "tls_acts te st [TpRequest i rq :: ('e, 'm, 'h) tls_act] = Some (?st', [(stream_at st i, Upgrade r)])"
    using assms(2,3) run(1) by (simp add: to_routes_def)
  moreover have "stage_at ?st' i = Some (Upgraded ?j)" "rv_site (tp_run ?st') = rv_site (tp_run st)"
    using assms(2) run(2,3) by (auto simp: stage_at_def end_task_def in_accept_def set_stage_def split: if_splits)
  ultimately show ?thesis by (intro exI [of _ ?st']) simp
qed

lemma upstream_acts:
  assumes "tls_inv st" and "stage_at st i = Some (Proxied rq)"
    and "create_proxy_routes (te_proxy te) (sc_proxies (te_cfg te)) = Some f" and "f rq = Some (rq', x)"
    and "(case x of Inr r \<Rightarrow> Some (Replied r, ss_cache (rv_site (tp_run st)))
          | Inl e \<Rightarrow> files_outcome (se_http (te_server te)) (te_cfg te) fs rq' (ss_cache (rv_site (tp_run st)))) = Some (res, cc')"
  shows "\<exists>acts st'. set acts \<subseteq> {TpUpstream i, TpFile i fs} \<and> length acts \<le> 9 \<and>
    tls_acts te st (acts :: ('e, 'm, 'h) tls_act list) = Some (st', [(stream_at st i, res)]) \<and>
    ss_cache (rv_site (tp_run st')) = cc' \<and> stage_at st' i = Some Between"
proof (cases x)
  case (Inr r)
  let ?st' = "set_stage i Between st"
  have "tls_acts te st [TpUpstream i :: ('e, 'm, 'h) tls_act] = Some (?st', [(stream_at st i, Replied r)])"
    using assms(2-4) Inr by (simp add: to_upstream_def)
  moreover have "stage_at ?st' i = Some Between" "tp_run ?st' = tp_run st"
    using assms(2) by (auto simp: stage_at_def set_stage_def split: if_splits)
  ultimately show ?thesis using assms(5) Inr by (intro exI [of _ "[TpUpstream i]"] exI [of _ ?st']) simp
next
  case (Inl e)
  then have o: "files_outcome (se_http (te_server te)) (te_cfg te) fs rq' (ss_cache (rv_site (tp_run st))) = Some (res, cc')"
    using assms(5) by simp
  have "tls_step te st (TpUpstream i :: ('e, 'm, 'h) tls_act) = to_files te i rq' st"
    using assms(2-4) Inl by (simp add: to_upstream_def)
  from to_files_run [OF assms(1,2) served_simps(4) o this] obtain m st' where "m \<le> 8"
    "tls_acts te st (TpUpstream i # replicate m (TpFile i fs :: ('e, 'm, 'h) tls_act)) = Some (st', [(stream_at st i, res)])"
    "stage_at st' i = Some Between" "ss_cache (rv_site (tp_run st')) = cc'"
    by blast
  then show ?thesis
    by (intro exI [of _ "TpUpstream i # replicate m (TpFile i fs)"] exI [of _ st']) (auto simp del: tls_acts.simps)
qed

text \<open>C2: a request gets what the routes say. When a served connection delivers a request and nothing else
  happens until it is answered, the steps of the port (the WebSocket handshake, the proxy rules, up to eight steps of a
  file request on the shared cache) give exactly the outcome of the combined routes of \<^verbatim>\<open>run\<close> for the request
  with the client's address on it, once, to this connection, and leave the cache those leave. The connection is then
  ready for its next request, or upgraded to a new connection of the WebSocket service.\<close>

theorem request_as_routed:
  assumes "tls_inv st" and "stage_at st i = Some Between"
    and "tls_routes (te_ws te) (te_proxy te) (se_http (te_server te)) (te_cfg te) fs
           (rq\<lparr>rq_client := ct_client (tls_task (stream_at st i))\<rparr>) (ss_cache (rv_site (tp_run st))) = Some (res, cc')"
  shows "\<exists>acts st'. set acts \<subseteq> {TpUpstream i, TpFile i fs} \<and> length acts \<le> 9 \<and>
    tls_acts te st (TpRequest i rq # (acts :: ('e, 'm, 'h) tls_act list)) = Some (st', [(stream_at st i, res)]) \<and>
    ss_cache (rv_site (tp_run st')) = cc' \<and>
    stage_at st' i = Some (case res of Upgrade r \<Rightarrow> Upgraded (length (sy_conns (rv_ws (tp_run st)))) | _ \<Rightarrow> Between)"
proof -
  let ?rq = "rq\<lparr>rq_client := ct_client (tls_task (stream_at st i))\<rparr>" and ?cc = "ss_cache (rv_site (tp_run st))"
  let ?henv = "se_http (te_server te)" and ?cfg = "te_cfg te"
  obtain index where idx: "create_http_file_routes ?henv (sc_domains ?cfg) (sc_wwwroot ?cfg) (sc_cors ?cfg) = Some index"
    using assms(3) by (auto simp: tls_routes_def split: option.splits)
  note out = assms(3) [unfolded tls_routes_def idx option.case Let_def index_outcome [OF idx]]
  have plain: "(case res of Upgrade r \<Rightarrow> Upgraded j | _ \<Rightarrow> Between) = (Between :: 'h stage)"
    if "files_outcome ?henv ?cfg fs rq' cc = Some (res, cc'')" for j rq' cc cc''
    using that by (auto simp: files_outcome_def answer_plain split: option.splits)
  have sub: "set (replicate m a) \<subseteq> {a}" for m and a :: "('e, 'm, 'h) tls_act" by auto
  show ?thesis
  proof (cases "ws_route (te_ws te) (he_hdr ?henv) ?rq")
    case (Some r)
    have "res = Upgrade r" "cc' = ?cc" using out Some by simp_all
    then show ?thesis
      using upgrade_acts [OF assms(1,2) Some, where 'e = 'e] by (intro exI [of _ "[]"]) (auto simp del: tls_acts.simps)
  next
    case ws: None
    show ?thesis
    proof (cases "sc_proxies ?cfg = []")
      case True
      then have f: "files_outcome ?henv ?cfg fs ?rq ?cc = Some (res, cc')" using out ws by simp
      have "tls_step te st (TpRequest i rq :: ('e, 'm, 'h) tls_act) = to_files te i ?rq st"
        using assms(2) ws True by (simp add: to_routes_def)
      from to_files_run [OF assms(1,2) served_simps(3) f this] obtain m st' where "m \<le> 8"
        "tls_acts te st (TpRequest i rq # replicate m (TpFile i fs :: ('e, 'm, 'h) tls_act)) = Some (st', [(stream_at st i, res)])"
        "stage_at st' i = Some Between" "ss_cache (rv_site (tp_run st')) = cc'"
        by blast
      then show ?thesis using sub plain [OF f]
        by (intro exI [of _ "replicate m (TpFile i fs)"] exI [of _ st']) (auto simp del: tls_acts.simps)
    next
      case False
      let ?st1 = "set_stage i (Proxied ?rq) st"
      obtain f rq' x where f: "create_proxy_routes (te_proxy te) (sc_proxies ?cfg) = Some f" "f ?rq = Some (rq', x)"
        using out ws False by (auto split: option.splits)
      have inv1: "tls_inv ?st1" by (rule inv_stage [OF assms(1,2)]) simp_all
      have st1: "stage_at ?st1 i = Some (Proxied ?rq)" "stream_at ?st1 i = stream_at st i" "tp_run ?st1 = tp_run st"
        using assms(2) by (auto simp: stage_at_def set_stage_def stream_at_def split: if_splits)
      have x: "(case x of Inr r \<Rightarrow> Some (Replied r, ?cc) | Inl e \<Rightarrow> files_outcome ?henv ?cfg fs rq' ?cc) = Some (res, cc')"
        using out ws False f by (simp split: sum.splits)
      have "(case res of Upgrade r \<Rightarrow> Upgraded j | _ \<Rightarrow> Between) = (Between :: 'h stage)" for j
        using x plain by (auto split: sum.splits)
      moreover have "tls_acts te st (TpRequest i rq # acts) = tls_acts te ?st1 acts" for acts :: "('e, 'm, 'h) tls_act list"
        using assms(2) ws False by (simp add: to_routes_def option.map_id)
      ultimately show ?thesis
        using upstream_acts [OF inv1 st1(1) f, where 'e = 'e, unfolded st1(2,3), OF x] by simp
    qed
  qed
qed

section \<open>An upstream that does not answer\<close>

text \<open>The proxy rules never come back with this request: an upstream that it is forwarded to stays silent.\<close>

definition unanswered :: "('q, 'g, 'k, 'm, 'c, 'h, 's, 'u) tls_env \<Rightarrow> 'h request \<Rightarrow> bool" where
  "unanswered te rq =
     (case create_proxy_routes (te_proxy te) (sc_proxies (te_cfg te)) of None \<Rightarrow> False | Some f \<Rightarrow> f rq = None)"

text \<open>Whatever is in service waits for such an upstream.\<close>

definition held_up :: "('q, 'g, 'k, 'm, 'c, 'h, 's, 'u) tls_env \<Rightarrow> ('g, 'c, 'h, 'm, 's) tls_port \<Rightarrow> bool" where
  "held_up te st \<longleftrightarrow> (\<forall>s \<in> set (tp_stages st). served s \<longrightarrow> (\<exists>rq. s = Proxied rq \<and> unanswered te rq))"

lemma held_up_at:
  assumes "held_up te st" and "stage_at st i = Some s" and "served s"
  obtains rq where "s = Proxied rq" "unanswered te rq"
proof -
  have "s \<in> set (tp_stages st)" using assms(2) by (auto simp: stage_at_def split: if_splits)
  then show thesis using assms(1,3) that by (auto simp: held_up_def)
qed

lemma keeps_stages:
  "in_run te a st = Some st' \<Longrightarrow> tp_stages st' = tp_stages st"
  "tp_stages (in_accept te ev st) = tp_stages st" "tp_stages (set_stage i s st) = (tp_stages st)[i := s]"
  "drop_conn te i st = Some st' \<Longrightarrow> tp_stages st' = take i (tp_stages st) @ drop (Suc i) (tp_stages st)"
  by (auto simp: in_run_def in_accept_def set_stage_def drop_conn_def)

lemma conns_accept [simp]: "conns_of (in_accept te ev st) = conns_of st"
  by (simp add: conns_of_def in_accept_def)

lemma in_service_shaking: "in_service (zip xs (replicate n Shaking)) = []"
proof (induction n arbitrary: xs)
  case (Suc n)
  then show ?case by (cases xs) simp_all
qed simp

text \<open>A step of the server other than an upgrade opens no WebSocket.\<close>

lemma server_step_sockets:
  assumes "server_step se r a = Some r'" and "\<And>i. a \<noteq> SvUpgrade i"
  shows "length (sy_conns (rv_ws r')) = length (sy_conns (rv_ws r))"
proof (cases a)
  case (SvWs b)
  then obtain ws tr where b: "sys_step (se_conn se) (se_loop se) (rv_ws r) b = Some (ws, tr)" "b \<noteq> Connect"
    "r' = r\<lparr>rv_ws := ws\<rparr>"
    using assms(1) by (auto split: sys_act.splits)
  from b(1,2) show ?thesis by (cases rule: sys_step_one_conn) (use b(3) in simp_all)
qed (use assms in \<open>auto split: if_splits prod.splits\<close>)

text \<open>What a step leaves as it is while the port is held up.\<close>

definition unmoved ::
  "('q, 'g, 'k, 'm, 'c, 'h, 's, 'u) tls_env \<Rightarrow> ('g, 'c, 'h, 'm, 's) tls_port \<Rightarrow> ('g, 'c, 'h, 'm, 's) tls_port \<Rightarrow> bool" where
  "unmoved te st st' \<longleftrightarrow>
     in_service (conns_of st') = in_service (conns_of st) \<and> held_up te st' \<and>
     length (sy_conns (rv_ws (tp_run st'))) = length (sy_conns (rv_ws (tp_run st)))"

lemma unmoved_beside:
  assumes "held_up te st" and "in_run te a st = Some st'" and "beside a"
  shows "unmoved te st st'"
proof -
  obtain r where r: "server_step (te_server te) (tp_run st) a = Some r" "st' = st\<lparr>tp_run := r\<rparr>"
    using assms(2) by (auto simp: in_run_cases)
  have "\<And>i. a \<noteq> SvUpgrade i" using assms(3) by auto
  from server_step_sockets [OF r(1) this] server_step_beside [OF r(1) assms(3)] show ?thesis
    using assms(1) by (simp add: unmoved_def held_up_def conns_of_def r(2))
qed

lemma unmoved_drop:
  assumes "tls_inv st" and "held_up te st" and "stage_at st i = Some s" and "\<not> served s"
    and "drop_conn te i st = Some st'"
  shows "unmoved te st st'"
proof -
  obtain as ps bs where 1: "conns_of st = as @ (ps, s) # bs" "conns_of st' = as @ bs"
    "set (tp_stages st') \<subseteq> set (tp_stages st)"
    using drop_conn_split [OF assms(1,3,5)] .
  obtain r where r: "server_step (te_server te) (tp_run st) (SvTlsEnds i :: (unit, _) server_act) = Some r"
    "tp_run st' = r"
    using assms(5) by (auto simp: drop_conn_def in_run_def)
  show ?thesis
    using 1 assms(2,4) server_step_sockets [OF r(1)] r(2) by (auto simp: unmoved_def held_up_def)
qed

lemma unmoved_item:
  assumes "tls_inv st" and "held_up te st" and "in_run te (SvTls conn) st = Some st1"
  shows "unmoved te st (st1\<lparr>tp_stages := tp_stages st @
    replicate (length (rv_tls (tp_run st1)) - length (tp_stages st)) Shaking\<rparr>)"
proof -
  obtain r where r: "server_step (te_server te) (tp_run st) (SvTls conn) = Some r" "st1 = st\<lparr>tp_run := r\<rparr>"
    using assms(3) by (auto simp: in_run_cases)
  obtain new where new: "rv_tls r = rv_tls (tp_run st) @ map (\<lambda>ps. (ps, None)) new"
    using r(1) by (auto split: prod.splits)
  have "length (rv_tls (tp_run st)) = length (tp_stages st)" by (rule tls_inv_length [OF assms(1)])
  then show ?thesis
    using assms(2) server_step_sockets [OF r(1)] in_service_shaking [of new "length new"]
    by (auto simp: unmoved_def held_up_def conns_of_def r(2) new zip_append comp_def)
qed

lemma unmoved_queue:
  assumes "tls_inv st" and "held_up te st" and "stage_at st i = Some Shaking"
  shows "unmoved te st (in_accept te ev (set_stage i Queued st))"
  using assms(1,3)
proof (cases rule: stage_split)
  case (1 as ps bs ss ts)
  have "conns_of (set_stage i Queued st) = zip (map fst as) ss @ (ps, Queued) # zip (map fst bs) ts"
    using 1 by (simp add: conns_of_def set_stage_def zip_append list_update_append)
  then show ?thesis
    using assms(2) 1 by (auto simp: unmoved_def held_up_def in_accept_def set_stage_def list_update_append conns_of_def)
qed

lemma unmoved_accept: "unmoved te st st1 \<Longrightarrow> unmoved te st (in_accept te ev st1)"
  by (simp add: unmoved_def held_up_def keeps_stages) (simp add: in_accept_def)

lemma held_up_step:
  fixes a :: "('e, 'm, 'h) tls_act"
  assumes "tls_inv st" and "held_up te st" and "\<And>s. acquire_owned (te_sem te) (al_sem (tp_accept st)) \<noteq> Granted s"
    and "tls_step te st a = Some (st', out)" and "\<And>i. a \<noteq> TpClose i"
  shows "out = [] \<and> unmoved te st st'"
proof -
  note at = held_up_at [OF assms(2)] and run = unmoved_beside [OF assms(2)]
  show ?thesis
  proof (cases a)
    case (TpItem conn)
    then obtain st1 where st1: "in_run te (SvTls conn) st = Some st1"
      "st' = st1\<lparr>tp_stages := tp_stages st @ replicate (length (rv_tls (tp_run st1)) - length (tp_stages st)) Shaking\<rparr>"
      using assms(4) by (auto simp: quiet_Some split: if_splits)
    have "out = []" using assms(4) TpItem by (auto simp: quiet_Some split: if_splits)
    then show ?thesis using unmoved_item [OF assms(1,2) st1(1)] st1(2) by simp
  next
    case (TpHandshakeFails i e)
    then obtain st1 where st1: "stage_at st i = Some Shaking" "drop_conn te i st = Some st1"
      "st' = in_accept te (Incoming (Some (Inl e))) st1" "out = []"
      using assms(4) by (auto simp: quiet_Some split: if_splits)
    then show ?thesis using unmoved_drop [OF assms(1,2) st1(1) _ st1(2)] unmoved_accept by simp
  next
    case (TpHandshake i)
    then have st': "stage_at st i = Some Shaking" "out = []"
      "st' = in_accept te (Incoming (Some (Inr (stream_at st i))) :: 'e accept_event) (set_stage i Queued st)"
      using assms(4) by (auto simp: quiet_Some split: if_splits)
    then show ?thesis using unmoved_queue [OF assms(1,2) st'(1)] by simp
  next
    case TpPermit
    then show ?thesis using assms(2-4)
      by (auto simp: quiet_Some unmoved_def split: sem_result.splits)
  next
    case (TpRequest i rq)
    then show ?thesis using assms(4) at [of i Between] by (auto split: if_splits)
  next
    case (TpUpstream i)
    then obtain rq where rq: "stage_at st i = Some (Proxied rq)" "to_upstream te i rq st = Some (st', out)"
      using assms(4) by (auto split: option.splits stage.splits)
    then show ?thesis using at [OF rq(1)] by (auto simp: to_upstream_def unanswered_def split: option.splits)
  next
    case (TpFile i fs)
    then obtain k where "stage_at st i = Some (Filed k)" using assms(4) by (auto split: option.splits stage.splits)
    then show ?thesis using at [of i "Filed k"] by auto
  next
    case (TpGone i)
    then obtain j where j: "stage_at st i = Some (Upgraded j)" "drop_conn te i st = Some st'" "out = []"
      using assms(4) by (auto simp: quiet_Some split: option.splits stage.splits)
    then show ?thesis using unmoved_drop [OF assms(1,2) j(1) _ j(2)] by simp
  next
    case (TpWs b)
    then show ?thesis using run [of "SvWs b :: ('e, 'm) server_act"] assms(4) by (simp add: quiet_Some)
  next
    case (TpHttp conn)
    then show ?thesis using run [of "SvHttp conn"] assms(4) by (simp add: quiet_Some)
  next
    case (TpHttpEnds i)
    then show ?thesis using run [of "SvHttpEnds i :: ('e, 'm) server_act"] assms(4) by (simp add: quiet_Some)
  next
    case TpSweep
    then show ?thesis using run [of "SvSweep :: ('e, 'm) server_act"] assms(4) by (simp add: quiet_Some)
  next
    case (TpWait n)
    then show ?thesis using run [of "SvWait n :: ('e, 'm) server_act"] assms(4) by (simp add: quiet_Some)
  qed (use assms(5) in simp)
qed

lemma no_permit_left:
  assumes "sem_for te held cap ok s0" and "tls_acts te (tls_init te s0 mb) (as :: ('e, 'm, 'h) tls_act list) = Some (st, out)"
    and "length (in_service (conns_of st)) = unat (sc_filelimit (te_cfg te))"
  shows "acquire_owned (te_sem te) (al_sem (tp_accept st)) \<noteq> Granted s"
proof -
  have acc: "ok (al_sem (tp_accept st))" "\<not> held (al_sem (tp_accept st)) () < cap (al_sem (tp_accept st))"
    using tls_acts_accounts [OF assms(1,2)] tasks_of_port [of st] tls_acts_init [OF assms(2)] assms(3)
    by (auto simp: sem_accounts_def)
  have "permit_pool (sem_acquire (te_sem te)) (\<lambda>s u. sem_release (te_sem te) s) held cap ok"
    using assms(1) by (simp add: sem_for_def sem_contract_def)
  from permit_pool.acquire_grants [OF this acc(1), of "()"] acc(2) show ?thesis
    by (auto simp: sem_acquire_def)
qed

text \<open>C5: a silent upstream holds the whole port. Forwarding has no time limit. Once as many connections as
  \<^verbatim>\<open>filelimit\<close> says wait for an upstream that does not answer, and for as long as these clients stay, whatever
  else happens (new clients, handshakes, any time passing, the steps of the WebSockets and of the other port),
  nobody is answered, no other connection comes into service, and no new WebSocket is opened, although no other client
  ever asked for that upstream.\<close>

theorem silent_upstream_holds_port:
  assumes "sem_for te held cap ok s0"
    and "tls_acts te (tls_init te s0 mb) (as :: ('e, 'm, 'h) tls_act list) = Some (st, out)"
    and "length (in_service (conns_of st)) = unat (sc_filelimit (te_cfg te))" and "held_up te st"
    and "tls_acts te st (bs :: ('e, 'm, 'h) tls_act list) = Some (st', out')" and "\<forall>i. TpClose i \<notin> set bs"
  shows "out' = [] \<and> in_service (conns_of st') = in_service (conns_of st) \<and>
    length (sy_conns (rv_ws (tp_run st'))) = length (sy_conns (rv_ws (tp_run st)))"
proof -
  have "out' = [] \<and> unmoved te st st'"
    using assms(2-6)
  proof (induction bs arbitrary: as st out out')
    case Nil
    then show ?case by (simp add: unmoved_def)
  next
    case (Cons b bs)
    obtain st1 o1 o2 where s: "tls_step te st b = Some (st1, o1)" "tls_acts te st1 bs = Some (st', o2)" "out' = o1 @ o2"
      using Cons.prems(4) by (auto split: option.splits)
    have "tls_inv st" using tls_acts_init [OF Cons.prems(1)] by blast
    moreover have "\<And>i. b \<noteq> TpClose i" using Cons.prems(5) by auto
    ultimately have 1: "o1 = []" "unmoved te st st1"
      using held_up_step [OF _ Cons.prems(3) no_permit_left [OF assms(1) Cons.prems(1,2)] s(1)] by blast+
    have "tls_acts te (tls_init te s0 mb) (as @ [b]) = Some (st1, out @ o1)"
      by (rule tls_acts_append [OF Cons.prems(1)]) (use s(1) in simp)
    from Cons.IH [OF this _ _ s(2)] 1(2) Cons.prems(2,5) have "o2 = []" "unmoved te st1 st'"
      by (auto simp: unmoved_def)
    then show ?case using 1 s(3) by (auto simp: unmoved_def)
  qed
  then show ?thesis by (simp add: unmoved_def)
qed

section \<open>What the permits do not bound\<close>

text \<open>The port with nothing but open WebSockets from the given streams.\<close>

definition sockets_only :: "tcp_stream list \<Rightarrow> ('g, 'c, 'h, 'm, 's) tls_port \<Rightarrow> bool" where
  "sockets_only ss st \<longleftrightarrow>
     rv_tls (tp_run st) = map (\<lambda>i. (admitted_as (ss ! i), Some i)) [0..<length ss] \<and>
     tp_stages st = map Upgraded [0..<length ss] \<and> sy_conns (rv_ws (tp_run st)) = replicate (length ss) conn_init \<and>
     rv_rate (tp_run st) = None \<and> al_waiting (tp_accept st) = None"

lemma in_service_upgraded: "in_service (zip xs (map Upgraded js)) = []"
proof (induction js arbitrary: xs)
  case (Cons j js)
  then show ?case by (cases xs) simp_all
qed simp

lemma admit_room:
  assumes "pl.accounts lim ks" and "count_list ks (stream_key s) < limiter_cap lim"
  shows "\<exists>l. admit check None lim (Inr s :: 'e + tcp_stream) = (None, l, [admitted_as s])"
proof -
  have "snd (try_acquire lim (stream_key s))"
    using pl.acquire_grants [OF pl.accounts_ok [OF assms(1)]] pl.accounts_held [OF assms(1)] assms(2) by simp
  then obtain l where "try_acquire lim (stream_key s) = (l, True)" by (cases "try_acquire lim (stream_key s)") simp
  then show ?thesis by (simp add: admit_stream conforms_def rate_after_def)
qed

lemma one_more_socket:
  fixes te :: "('q, 'g, 'k, 'm, 'c, 'h, 's, 'u) tls_env"
  assumes st: "tls_inv st" "sockets_only ss st" "sem_accounts held cap ok n (tp_accept st)" "0 < n"
    and sem: "sem_contract (te_sem te) held cap ok"
    and lim: "pl.accounts (rv_tls_limiter (tp_run st)) (map stream_key ss)"
      "count_list (map stream_key ss) (stream_key s) < limiter_cap (rv_tls_limiter (tp_run st))"
    and new: "ts_id s \<notin> ts_id ` set ss"
    and ws: "\<And>client. ws_route (te_ws te) (he_hdr (se_http (te_server te))) (rq\<lparr>rq_client := client\<rparr>) = Some r"
  shows "\<exists>st'. tls_acts te st [TpItem (Inr s :: 'e + tcp_stream), TpHandshake (length ss), TpPermit, TpRequest (length ss) rq] =
      Some (st', [(admitted_as s, Upgrade r)]) \<and> sockets_only (ss @ [s]) st'"
proof -
  let ?n = "length ss" and ?ps = "admitted_as s"
  have so: "rv_tls (tp_run st) = map (\<lambda>i. (admitted_as (ss ! i), Some i)) [0..<?n]" "tp_stages st = map Upgraded [0..<?n]"
    "sy_conns (rv_ws (tp_run st)) = replicate ?n conn_init" "rv_rate (tp_run st) = None" "al_waiting (tp_accept st) = None"
    using st(2) by (simp_all add: sockets_only_def)
  have "in_service (conns_of st) = []" by (simp add: conns_of_def so in_service_upgraded)
  then have al: "al_tasks (tp_accept st) = []" "al_running (tp_accept st)"
    using tasks_of_port [OF st(1)] st(1) by (auto simp: tls_inv_def port_ok_def)
  have "snd (sem_acquire (te_sem te) (al_sem (tp_accept st)) ())"
    using sem permit_pool.acquire_grants [of "sem_acquire (te_sem te)"] st(3,4) al(1)
    by (fastforce simp: sem_contract_def sem_accounts_def)
  then obtain sm where sm: "acquire_owned (te_sem te) (al_sem (tp_accept st)) = Granted sm"
    by (auto simp: sem_acquire_def split: sem_result.splits)
  obtain l where ad: "admit (gv_check (se_gov (te_server te))) None (rv_tls_limiter (tp_run st)) (Inr s :: 'e + tcp_stream) =
      (None, l, [?ps])"
    using admit_room [OF lim] by blast
  have fr: "fresh st (Inr s :: 'e + tcp_stream)"
    using new by (auto simp: fresh_def so admitted_as_def)
  define r1 where "r1 = (tp_run st)\<lparr>rv_tls_limiter := l, rv_tls := rv_tls (tp_run st) @ [(?ps, None)]\<rparr>"
  define st1 where "st1 = st\<lparr>tp_run := r1, tp_stages := tp_stages st @ [Shaking]\<rparr>"
  have 1: "tls_step te st (TpItem (Inr s) :: ('e, 'm, 'h) tls_act) = Some (st1, [])"
    using fr ad so by (simp add: quiet_def in_run_def st1_def r1_def)
  define st2 where "st2 = st1\<lparr>tp_stages := tp_stages st @ [Queued], tp_accept := (tp_accept st)\<lparr>al_waiting := Some ?ps\<rparr>\<rparr>"
  have 2: "tls_step te st1 (TpHandshake ?n :: ('e, 'm, 'h) tls_act) = Some (st2, [])"
    using al so by (simp add: quiet_def st1_def st2_def r1_def stage_at_def stream_at_def set_stage_def in_accept_def
        nth_append serve_tls_next_def list_update_append)
  define st3 where "st3 = st2\<lparr>tp_stages := tp_stages st @ [Between],
      tp_accept := (tp_accept st)\<lparr>al_waiting := None, al_tasks := [tls_task ?ps], al_sem := sm\<rparr>\<rparr>"
  have 3: "tls_step te st2 (TpPermit :: ('e, 'm, 'h) tls_act) = Some (st3, [])"
    using al sm so by (simp add: quiet_def st1_def st2_def st3_def in_accept_def poll_permit_def comp_def)
  define st4 where "st4 = st3\<lparr>tp_run := r1\<lparr>rv_tls := rv_tls (tp_run st) @ [(?ps, Some ?n)],
        rv_ws := (rv_ws (tp_run st))\<lparr>sy_conns := replicate (Suc ?n) conn_init\<rparr>\<rparr>,
      tp_stages := tp_stages st @ [Upgraded ?n],
      tp_accept := (tp_accept st)\<lparr>al_waiting := None, al_tasks := [], al_sem := sem_release (te_sem te) sm\<rparr>\<rparr>"
  have 4: "tls_step te st3 (TpRequest ?n rq :: ('e, 'm, 'h) tls_act) = Some (st4, [(?ps, Upgrade r)])"
    using so ws
    by (simp add: st1_def st2_def st3_def st4_def r1_def stage_at_def stream_at_def set_stage_def in_accept_def
        nth_append list_update_append to_routes_def in_run_def idle_def end_task_def task_of_def task_ends_def tls_task_def
        replicate_append_same)
  have "sockets_only (ss @ [s]) st4"
    using so by (simp add: sockets_only_def st1_def st2_def st3_def st4_def r1_def nth_append)
  with 1 2 3 4 show ?thesis by (intro exI [of _ st4]) (simp del: tls_step.simps)
qed

text \<open>C6: \<^verbatim>\<open>filelimit\<close> does not bound WebSockets. The task of a connection ends when the connection is upgraded, and
  gives its permit back, although the connection lives on. So any streams that the per-source caps admit can all be open
  WebSockets at the same time, however many they are and however small \<^verbatim>\<open>filelimit\<close> is, with no task left
  to count them.\<close>

theorem sockets_outgrow_filelimit:
  assumes "sem_for te held cap ok s0" and "0 < unat (sc_filelimit (te_cfg te))" and "sc_rate_limit (te_cfg te) = None"
    and "0 < sc_per_ip_conn_limit (te_cfg te)" and "distinct (map ts_id ss)"
    and "\<forall>k. count_list (map stream_key ss) k \<le> unat (sc_per_ip_conn_limit (te_cfg te))"
    and "\<forall>client. ws_route (te_ws te) (he_hdr (se_http (te_server te))) (rq\<lparr>rq_client := client\<rparr>) = Some r"
  shows "\<exists>as st out. tls_acts te (tls_init te s0 mb) (as :: ('e, 'm, 'h) tls_act list) = Some (st, out) \<and>
    map fst (rv_tls (tp_run st)) = map admitted_as ss \<and> al_tasks (tp_accept st) = [] \<and>
    (\<forall>i < length ss. stage_at st i = Some (Upgraded i) \<and> holds_stream (sy_conns (rv_ws (tp_run st)) ! i))"
proof -
  have "\<exists>as st out. tls_acts te (tls_init te s0 mb) (as :: ('e, 'm, 'h) tls_act list) = Some (st, out) \<and> sockets_only ss st"
    using assms(5,6)
  proof (induction ss rule: rev_induct)
    case Nil
    have "sockets_only [] (tls_init te s0 mb)"
      using assms(3) by (simp add: sockets_only_def tls_init_def server_init_def sys_init_def accept_init_def)
    then show ?case by (intro exI [of _ "[]"]) simp
  next
    case (snoc s ss)
    have cnt: "count_list (map stream_key ss) k + (if k = stream_key s then 1 else 0) \<le> unat (sc_per_ip_conn_limit (te_cfg te))"
      for k
      using snoc.prems(2) [rule_format, of k] by (auto split: if_splits)
    then have "\<forall>k. count_list (map stream_key ss) k \<le> unat (sc_per_ip_conn_limit (te_cfg te))"
      by (meson add_leE)
    then obtain as st out where run: "tls_acts te (tls_init te s0 mb) (as :: ('e, 'm, 'h) tls_act list) = Some (st, out)"
      and so: "sockets_only ss st"
      using snoc.IH snoc.prems(1) by auto
    have keys: "permits (map fst (rv_tls (tp_run st))) = map stream_key ss"
      using so by (auto simp: sockets_only_def permits_def admitted_as_def comp_def intro: nth_equalityI)
    note lim = tls_acts_limiter [OF assms(4) run, unfolded keys]
    obtain st' o' where "tls_acts te st ([TpItem (Inr s), TpHandshake (length ss), TpPermit, TpRequest (length ss) rq] ::
        ('e, 'm, 'h) tls_act list) = Some (st', o')" "sockets_only (ss @ [s]) st'"
      using one_more_socket [OF _ so tls_acts_accounts [OF assms(1) run] assms(2), of te s rq r, where 'e = 'e]
        tls_acts_init [OF run] assms(1,7) lim cnt [of "stream_key s"] snoc.prems(1)
      by (auto simp: sem_for_def simp del: tls_acts.simps)
    then show ?case using tls_acts_append [OF run] by blast
  qed
  then obtain as st out where st: "tls_acts te (tls_init te s0 mb) (as :: ('e, 'm, 'h) tls_act list) = Some (st, out)"
    "sockets_only ss st"
    by blast
  have "in_service (conns_of st) = []" using st(2) by (simp add: conns_of_def sockets_only_def in_service_upgraded)
  then have "al_tasks (tp_accept st) = []" using tasks_of_port [of st] tls_acts_init [OF st(1)] by simp
  moreover have "map fst (rv_tls (tp_run st)) = map admitted_as ss"
    using st(2) by (auto simp: sockets_only_def comp_def intro: nth_equalityI)
  moreover have "holds_stream conn_init" by (simp add: holds_stream_def conn_init_def)
  ultimately show ?thesis
    using st by (intro exI [of _ as] exI [of _ st] exI [of _ out]) (auto simp: sockets_only_def stage_at_def)
qed

section \<open>A port at work\<close>

text \<open>Two permits, a cap of one connection per source. A client is served a page while a second one waits for its
  permit; a third one asks for a WebSocket.\<close>

definition demo_port ::
  "(int \<times> int, gcra, string, string, nat \<times> lru_items, (string \<times> string) list, nat \<times> nat, string) tls_env" where
  "demo_port =
     \<lparr>te_server = demo_server, te_sem = count_sem, te_proxy = demo_proxy,
      te_ws = (\<lambda>rq. if rq_path rq = ''ws'' then Some \<lparr>rp_status = 101, rp_headers = [], rp_body = []\<rparr> else None),
      te_cfg = demo_cfg\<lparr>sc_filelimit := 2, sc_per_ip_conn_limit := 1\<rparr>\<rparr>"

definition client_n :: "nat \<Rightarrow> tcp_stream" where
  "client_n n = \<lparr>ts_id = n, ts_peer = Some \<lparr>sa_ip = V4 (Ipv4 10 0 0 (of_nat n)), sa_port = 5000\<rparr>\<rparr>"

definition page_rq :: "(string \<times> string) list request" where
  "page_rq =
     \<lparr>rq_path = ''index.html'', rq_query = None, rq_method = ''GET'', rq_headers = [(''host'', ''mles.io'')],
      rq_client = None, rq_body = Some []\<rparr>"

definition ws_rq :: "(string \<times> string) list request" where
  "ws_rq =
     \<lparr>rq_path = ''ws'', rq_query = None, rq_method = ''GET'',
      rq_headers = [(''host'', ''mles.io''), (''sec-websocket-protocol'', ''mles-websocket'')],
      rq_client = None, rq_body = Some []\<rparr>"

definition demo_start :: "(string, string, (string \<times> string) list) tls_act list" where
  "demo_start = [TpItem (Inr (client_n 1)), TpHandshake 0, TpPermit]"

definition demo_rush :: "(string, string, (string \<times> string) list) tls_act list" where
  "demo_rush =
     demo_start @ [TpRequest 0 page_rq, TpItem (Inr (client_n 2)), TpUpstream 0, TpHandshake 1,
       TpFile 0 (demo_fs 7000000000)]"

lemma demo_rush_runs:
  "map_option (\<lambda>(st, out). (tp_stages st, map ps_permit (in_service (conns_of st)), out))
     (tls_acts demo_port (tls_init demo_port (0, 2) 1) demo_rush) =
   Some ([Filed 0, Queued], [V4 (Ipv4 10 0 0 1)], [])"
  by code_simp

lemma demo_rush_reached:
  obtains st where "tls_acts demo_port (tls_init demo_port (0, 2) 1) demo_rush = Some (st, [])"
    "tp_stages st = [Filed 0, Queued]" "map ps_permit (in_service (conns_of st)) = [V4 (Ipv4 10 0 0 1)]"
  using demo_rush_runs that by (auto simp del: tls_acts.simps)

lemma demo_port_sem: "sem_for demo_port (\<lambda>s u. fst s) snd (\<lambda>s. True) (0, 2)"
  using count_sem_contract by (simp add: sem_for_def demo_port_def)

theorem port_bounded_witness:
  "\<exists>st. tls_acts demo_port (tls_init demo_port (0, 2) 1) demo_rush = Some (st, []) \<and>
     filing (tp_stages st) = [0] \<and> length (in_service (conns_of st)) \<le> 2 \<and> length (in_queue (conns_of st)) \<le> 1"
proof -
  obtain st where st: "tls_acts demo_port (tls_init demo_port (0, 2) 1) demo_rush = Some (st, [])"
    "tp_stages st = [Filed 0, Queued]"
    using demo_rush_reached .
  have "unat (sc_filelimit (te_cfg demo_port)) = 2" by (simp add: demo_port_def)
  then show ?thesis using port_bounded [OF demo_port_sem st(1)] st by (simp add: filing_def)
qed

theorem no_source_starves_witness:
  "\<exists>st st'. tls_acts demo_port (tls_init demo_port (0, 2) 1) demo_rush = Some (st, []) \<and> stage_at st 1 = Some Queued \<and>
     tls_step demo_port st (TpPermit :: (string, string, (string \<times> string) list) tls_act) = Some (st', []) \<and>
     stage_at st' 1 = Some Between"
proof -
  obtain st where st: "tls_acts demo_port (tls_init demo_port (0, 2) 1) demo_rush = Some (st, [])"
    "tp_stages st = [Filed 0, Queued]" "map ps_permit (in_service (conns_of st)) = [V4 (Ipv4 10 0 0 1)]"
    using demo_rush_reached .
  have K: "ps_permit ` set (in_service (conns_of st)) \<subseteq> {V4 (Ipv4 10 0 0 1)}"
    using arg_cong [OF st(3), of set] by simp
  have c: "0 < sc_per_ip_conn_limit (te_cfg demo_port)"
    "card {V4 (Ipv4 10 0 0 1)} * unat (sc_per_ip_conn_limit (te_cfg demo_port)) < unat (sc_filelimit (te_cfg demo_port))"
    by (simp_all add: demo_port_def)
  have q: "stage_at st 1 = Some Queued" using st(2) by (simp add: stage_at_def)
  show ?thesis using no_source_starves [OF demo_port_sem c(1) st(1) _ K c(2) q] st(1) q by blast
qed

text \<open>Two clients ask for a page of an upstream that never answers.\<close>

definition mute_port ::
  "(int \<times> int, gcra, string, string, nat \<times> lru_items, (string \<times> string) list, nat \<times> nat, string) tls_env" where
  "mute_port = demo_port\<lparr>te_cfg := (te_cfg demo_port)\<lparr>sc_proxies := [(''keeper'', ''http://mute'')]\<rparr>\<rparr>"

definition mute_start :: "(string, string, (string \<times> string) list) tls_act list" where
  "mute_start =
     [TpItem (Inr (client_n 1)), TpHandshake 0, TpPermit, TpRequest 0 demo_rq,
      TpItem (Inr (client_n 2)), TpHandshake 1, TpPermit, TpRequest 1 demo_rq]"

definition mute_later :: "(string, string, (string \<times> string) list) tls_act list" where
  "mute_later = [TpItem (Inr (client_n 3)), TpHandshake 2, TpPermit, TpWait 1000, TpPermit]"

lemma mute_port_runs:
  "map_option (\<lambda>(st, out). (length (in_service (conns_of st)),
       list_all (\<lambda>s. case s of Proxied rq \<Rightarrow> unanswered mute_port rq | _ \<Rightarrow> \<not> served s) (tp_stages st),
       tls_acts mute_port st mute_later \<noteq> None))
     (tls_acts mute_port (tls_init mute_port (0, 2) 1) mute_start) = Some (2, True, True)"
  by code_simp

theorem silent_upstream_holds_port_witness:
  "\<exists>st out st' out'. tls_acts mute_port (tls_init mute_port (0, 2) 1) mute_start = Some (st, out) \<and>
     tls_acts mute_port st mute_later = Some (st', out') \<and> out' = [] \<and>
     in_service (conns_of st') = in_service (conns_of st)"
proof -
  obtain st out where st: "tls_acts mute_port (tls_init mute_port (0, 2) 1) mute_start = Some (st, out)"
    "length (in_service (conns_of st)) = 2" "tls_acts mute_port st mute_later \<noteq> None"
    "list_all (\<lambda>s. case s of Proxied rq \<Rightarrow> unanswered mute_port rq | _ \<Rightarrow> \<not> served s) (tp_stages st)"
    using mute_port_runs by (auto simp del: tls_acts.simps)
  have held: "held_up mute_port st"
    using st(4) by (auto simp: held_up_def list_all_iff served_def split: stage.splits)
  have sem: "sem_for mute_port (\<lambda>s u. fst s) snd (\<lambda>s. True) (0, 2)"
    using demo_port_sem by (simp add: sem_for_def mute_port_def)
  have full: "length (in_service (conns_of st)) = unat (sc_filelimit (te_cfg mute_port))"
    using st(2) by (simp add: mute_port_def demo_port_def)
  obtain st' out' where later: "tls_acts mute_port st mute_later = Some (st', out')" using st(3) by auto
  have "\<forall>i. TpClose i \<notin> set mute_later" by (simp add: mute_later_def)
  with silent_upstream_holds_port [OF sem st(1) full held later] st(1) later show ?thesis by blast
qed

lemma demo_start_runs:
  "map_option (\<lambda>(st, out). (stream_at st 0, stage_at st 0, ss_cache (rv_site (tp_run st)), out))
     (tls_acts demo_port (tls_init demo_port (0, 2) 1) demo_start) =
   Some (admitted_as (client_n 1), Some Between, cache_new list_lru 1, [])"
  by code_simp

lemma demo_page:
  "map_option (\<lambda>(res, cc). (case res of Replied r \<Rightarrow> Some (rp_status r) | _ \<Rightarrow> None))
     (tls_routes (te_ws demo_port) (te_proxy demo_port) (se_http (te_server demo_port)) (te_cfg demo_port) (demo_fs 7000000000)
       (page_rq\<lparr>rq_client := ct_client (tls_task (admitted_as (client_n 1)))\<rparr>) (cache_new list_lru 1)) = Some (Some 200)"
  by code_simp

theorem request_as_routed_witness:
  "\<exists>st acts st' r. tls_acts demo_port (tls_init demo_port (0, 2) 1) demo_start = Some (st, []) \<and>
     tls_acts demo_port st (TpRequest 0 page_rq # (acts :: (string, string, (string \<times> string) list) tls_act list)) =
       Some (st', [(admitted_as (client_n 1), Replied r)]) \<and> rp_status r = 200 \<and> stage_at st' 0 = Some Between"
proof -
  obtain st where st: "tls_acts demo_port (tls_init demo_port (0, 2) 1) demo_start = Some (st, [])"
    "stream_at st 0 = admitted_as (client_n 1)" "stage_at st 0 = Some Between" "ss_cache (rv_site (tp_run st)) = cache_new list_lru 1"
    using demo_start_runs by (auto simp del: tls_acts.simps)
  obtain res cc where res: "tls_routes (te_ws demo_port) (te_proxy demo_port) (se_http (te_server demo_port)) (te_cfg demo_port)
      (demo_fs 7000000000) (page_rq\<lparr>rq_client := ct_client (tls_task (stream_at st 0))\<rparr>) (ss_cache (rv_site (tp_run st))) =
      Some (res, cc)" "(case res of Replied r \<Rightarrow> Some (rp_status r) | _ \<Rightarrow> None) = Some 200"
    using demo_page unfolding st(2,4) by auto
  obtain r where r: "res = Replied r" "rp_status r = 200" using res(2) by (cases res) simp_all
  have "tls_inv st" using tls_acts_init [OF st(1)] by blast
  from request_as_routed [OF this st(3) res(1)] show ?thesis using st r by (fastforce simp del: tls_acts.simps)
qed

theorem sockets_outgrow_filelimit_witness:
  "\<exists>as st out. tls_acts demo_port (tls_init demo_port (0, 2) 1) (as :: (string, string, (string \<times> string) list) tls_act list) =
       Some (st, out) \<and> map fst (rv_tls (tp_run st)) = map admitted_as [client_n 1, client_n 2, client_n 3] \<and>
     al_tasks (tp_accept st) = [] \<and> (\<forall>i < 3. holds_stream (sy_conns (rv_ws (tp_run st)) ! i))"
proof -
  let ?ss = "[client_n 1, client_n 2, client_n 3]"
  have keys: "map stream_key ?ss = [V4 (Ipv4 10 0 0 1), V4 (Ipv4 10 0 0 2), V4 (Ipv4 10 0 0 3)]" by code_simp
  have c: "0 < unat (sc_filelimit (te_cfg demo_port))" "sc_rate_limit (te_cfg demo_port) = None"
    "0 < sc_per_ip_conn_limit (te_cfg demo_port)" "distinct (map ts_id ?ss)"
    by (simp_all add: demo_port_def demo_cfg_def client_n_def)
  have cap: "\<forall>k. count_list (map stream_key ?ss) k \<le> unat (sc_per_ip_conn_limit (te_cfg demo_port))"
    unfolding keys by (auto simp: demo_port_def)
  have "\<forall>client. ws_route (te_ws demo_port) (he_hdr (se_http (te_server demo_port))) (ws_rq\<lparr>rq_client := client\<rparr>) =
      Some \<lparr>rp_status = 101, rp_headers = [(''sec-websocket-protocol'', ''mles-websocket'')], rp_body = []\<rparr>"
    by (simp add: ws_route_def upgrade_reply_def demo_port_def ws_rq_def demo_server_def demo_http_def list_headers_def ACCEPTED_PROTOCOL_def)
  from sockets_outgrow_filelimit [OF demo_port_sem c cap this, of 1, where 'e = string]
  obtain as :: "(string, string, (string \<times> string) list) tls_act list" and st out where
    "tls_acts demo_port (tls_init demo_port (0, 2) 1) as = Some (st, out)"
    "map fst (rv_tls (tp_run st)) = map admitted_as ?ss" "al_tasks (tp_accept st) = []"
    and live: "\<forall>i < length ?ss. stage_at st i = Some (Upgraded i) \<and> holds_stream (sy_conns (rv_ws (tp_run st)) ! i)"
    by blast
  moreover have "\<forall>i < 3. holds_stream (sy_conns (rv_ws (tp_run st)) ! i)"
    using live by (simp add: numeral_3_eq_3)
  ultimately show ?thesis by blast
qed

end
