(* ===== verification/Mles_Tests.thy ===== *)
theory Mles_Tests
  imports Mles_Server
begin

text \<open>
  The tests of the repository, run on the model: the unit tests of the cache (\<^verbatim>\<open>src/src/cache.rs\<close>), those of
  the forwarded addresses (\<^verbatim>\<open>src/src/proxy.rs\<close>), and the test that sends a request through the accept path
  to an upstream (\<^verbatim>\<open>src/src/server.rs\<close>).

  Shown: every test passes, and not only with the library the test is linked to and at the time it is
  run: the cache tests pass for every LRU cache that meets its contract and at every time, the address
  tests for every header map, the test of the accept path for every host whose upstream is reached.
\<close>

section \<open>Tests of the cache\<close>

text \<open>A step of a test: an insertion, a lookup with what is asserted of its result, and
  assertions on the number of entries and on their accounted size.\<close>

datatype test_step =
    Ins string string system_time bytes
  | Got string string system_time "bytes option \<Rightarrow> bool"
  | Len usize
  | Size usize

text \<open>A test passes if every call returns and every assertion holds.\<close>

fun passes :: "'c lru_ops \<Rightarrow> test_step list \<Rightarrow> 'c compression_cache \<Rightarrow> bool" where
  "passes ops [] cache \<longleftrightarrow> True"
| "passes ops (Ins p z t d # steps) cache \<longleftrightarrow>
     (case cache_insert ops p z t d cache of None \<Rightarrow> False | Some cache' \<Rightarrow> passes ops steps cache')"
| "passes ops (Got p z t assertion # steps) cache \<longleftrightarrow>
     (case cache_get ops p z t cache of (r, cache') \<Rightarrow> assertion r \<and> passes ops steps cache')"
| "passes ops (Len n # steps) cache \<longleftrightarrow> cache_len ops cache = n \<and> passes ops steps cache"
| "passes ops (Size n # steps) cache \<longleftrightarrow> cache_current_size cache = n \<and> passes ops steps cache"

abbreviation is_some :: "'a option \<Rightarrow> bool" where
  "is_some x \<equiv> x \<noteq> None"

abbreviation is_none :: "'a option \<Rightarrow> bool" where
  "is_none x \<equiv> x = None"

text \<open>The tests. \<^verbatim>\<open>now\<close> is the time at which they run, in nanoseconds.\<close>

definition test_cache_operations :: "'c lru_ops \<Rightarrow> system_time \<Rightarrow> bool" where
  "test_cache_operations ops now =
     passes ops
       [Ins ''file1.js'' ''br'' now [1, 2, 3],
        Got ''file1.js'' ''br'' now (\<lambda>r. r = Some [1, 2, 3])]
       (cache_new ops 10)"

definition test_modified_time_invalidation :: "'c lru_ops \<Rightarrow> system_time \<Rightarrow> bool" where
  "test_modified_time_invalidation ops now =
     (let time1 = now; time2 = time1 + 1000000000
      in passes ops
           [Ins ''file1.js'' ''br'' time1 [1, 2, 3],
            Got ''file1.js'' ''br'' time1 is_some,
            Got ''file1.js'' ''br'' time2 is_none,
            Ins ''file1.js'' ''br'' time2 [4, 5, 6],
            Got ''file1.js'' ''br'' time1 (\<lambda>r. r = Some [1, 2, 3]),
            Got ''file1.js'' ''br'' time2 (\<lambda>r. r = Some [4, 5, 6]),
            Len 2]
           (cache_new ops 10))"

definition test_lru_eviction :: "'c lru_ops \<Rightarrow> system_time \<Rightarrow> bool" where
  "test_lru_eviction ops now =
     (let large_data = replicate 500000 0
      in passes ops
           [Ins ''file1'' ''br'' now large_data,
            Ins ''file2'' ''br'' now large_data,
            Got ''file1'' ''br'' now is_some,
            Got ''file2'' ''br'' now is_some,
            Got ''file1'' ''br'' now (\<lambda>r. True),
            Ins ''file3'' ''br'' now large_data,
            Got ''file1'' ''br'' now is_some,
            Got ''file2'' ''br'' now is_none,
            Got ''file3'' ''br'' now is_some]
           (cache_new ops 1))"

definition test_update_existing :: "'c lru_ops \<Rightarrow> system_time \<Rightarrow> bool" where
  "test_update_existing ops now =
     passes ops
       [Ins ''a'' ''br'' now [1, 2, 3],
        Ins ''a'' ''br'' now [4, 5, 6, 7],
        Got ''a'' ''br'' now (\<lambda>r. r = Some [4, 5, 6, 7]),
        Len 1]
       (cache_new ops 10)"

definition test_max_file_size :: "'c lru_ops \<Rightarrow> system_time \<Rightarrow> bool" where
  "test_max_file_size ops now =
     (let huge_data = replicate (unat (MAX_FILE_SIZE + 1)) 0
      in passes ops
           [Ins ''huge'' ''br'' now huge_data,
            Got ''huge'' ''br'' now is_none,
            Len 0]
           (cache_new ops (DEFAULT_FILE_SIZE_MB * 2)))"

definition test_access_updates_lru :: "'c lru_ops \<Rightarrow> system_time \<Rightarrow> bool" where
  "test_access_updates_lru ops now =
     (let data = replicate 400000 0
      in passes ops
           [Ins ''a'' ''br'' now data,
            Ins ''b'' ''br'' now data,
            Got ''a'' ''br'' now (\<lambda>r. True),
            Ins ''c'' ''br'' now data,
            Got ''a'' ''br'' now is_some,
            Got ''b'' ''br'' now is_none,
            Got ''c'' ''br'' now is_some]
           (cache_new ops 1))"

definition test_cache_disabled :: "'c lru_ops \<Rightarrow> system_time \<Rightarrow> bool" where
  "test_cache_disabled ops now =
     passes ops
       [Ins ''file1.js'' ''br'' now [1, 2, 3],
        Got ''file1.js'' ''br'' now is_none,
        Len 0,
        Size 0]
       (cache_new ops 0)"

definition test_different_compressions_same_file :: "'c lru_ops \<Rightarrow> system_time \<Rightarrow> bool" where
  "test_different_compressions_same_file ops now =
     passes ops
       [Ins ''file.js'' ''br'' now [1, 2, 3],
        Ins ''file.js'' ''gzip'' now [4, 5, 6],
        Got ''file.js'' ''br'' now (\<lambda>r. r = Some [1, 2, 3]),
        Got ''file.js'' ''gzip'' now (\<lambda>r. r = Some [4, 5, 6]),
        Len 2]
       (cache_new ops 10)"

section \<open>The cache tests pass\<close>

text \<open>
  The reference: the entries alone, most recently used first, as \<^verbatim>\<open>insert_spec\<close> says. It asks for room in the
  number of entries, so that nothing is dropped behind the account's back.
\<close>

fun passes_spec :: "nat \<Rightarrow> nat \<Rightarrow> test_step list \<Rightarrow> lru_items \<Rightarrow> bool" where
  "passes_spec cap mx [] items \<longleftrightarrow> True"
| "passes_spec cap mx (Ins p z t d # steps) items \<longleftrightarrow>
     (let key = mk_key p z t
      in length d \<le> unat MAX_FILE_SIZE \<and> length items < cap \<and>
         passes_spec cap mx steps (insert_spec cap mx 0 key d (AList.delete key items)))"
| "passes_spec cap mx (Got p z t assertion # steps) items \<longleftrightarrow>
     (let key = mk_key p z t
      in assertion (map_option ce_data (map_of items key)) \<and>
         passes_spec cap mx steps
           (case map_of items key of None \<Rightarrow> items | Some e \<Rightarrow> (key, e) # AList.delete key items))"
| "passes_spec cap mx (Len n # steps) items \<longleftrightarrow> of_nat (length items) = n \<and> passes_spec cap mx steps items"
| "passes_spec cap mx (Size n # steps) items \<longleftrightarrow> of_nat (bytes_of items) = n \<and> passes_spec cap mx steps items"

text \<open>A cache whose account is exact.\<close>

definition cache_holds :: "'c lru_ops \<Rightarrow> nat \<Rightarrow> nat \<Rightarrow> lru_items \<Rightarrow> 'c compression_cache \<Rightarrow> bool" where
  "cache_holds ops cap mx items cc \<longleftrightarrow>
     cache_inv ops cc \<and> cache_leak ops cc = 0 \<and> unat (cc_max_size cc) = mx \<and>
     (\<exists>c. cc_cache cc = Some c \<and> lru_items ops c = items \<and> lru_cap ops c = cap)"

lemma length_fit_prefix: "length (fit_prefix b xs) \<le> length xs"
  using fit_prefix_prefix [of b xs] by auto

lemma no_lost_bytes: "length xs < cap \<Longrightarrow> lost_bytes cap mx l n xs = 0"
  using length_fit_prefix [of "mx - (l + n)" xs] by (simp add: lost_bytes_def Let_def)

context lru_cache
begin

lemma holds_new:
  assumes "mb_ok n" and "n \<noteq> 0"
  shows "cache_holds ops (unat (max (n * 4) 100)) (unat n * 2 ^ 20) [] (cache_new ops n)"
proof -
  have "max (n * 4) 100 \<noteq> (0 :: usize)" by (auto simp: max_def)
  from new_law [OF this] inv_new [OF assms(1)] unat_mult_MB [OF assms(1)] assms(2) show ?thesis
    by (simp add: cache_holds_def cache_new_def cache_leak_def cache_items_def Let_def)
qed

lemma holds_insert:
  assumes "cache_holds ops cap mx items cc" and "length d \<le> unat MAX_FILE_SIZE" and "length items < cap"
  shows "\<exists>cc'. cache_insert ops p z t d cc = Some cc' \<and>
    cache_holds ops cap mx (insert_spec cap mx 0 (mk_key p z t) d (AList.delete (mk_key p z t) items)) cc'"
proof -
  obtain c where c: "cc_cache cc = Some c" "lru_items ops c = items" "lru_cap ops c = cap"
    and inv: "cache_inv ops cc" and cc: "cache_leak ops cc = 0" "unat (cc_max_size cc) = mx"
    using assms(1) by (auto simp: cache_holds_def)
  have "length d < 2 ^ 63" using assms(2) MAX_FILE_SIZE_val by simp
  then have d: "vec_ok d" by (simp add: vec_ok_def)
  obtain cc' where ins: "cache_insert ops p z t d cc = Some cc'" and k: "cache_keeps ops cc cc'"
    using insert_keeps [OF inv d] by blast
  have "length (AList.delete (mk_key p z t) items) < cap"
    using length_delete_le [of "mk_key p z t" items] assms(3) by (rule le_less_trans)
  then have "cache_leak ops cc' = 0"
    using insert_leak [OF inv c(1) assms(2) ins] by (simp add: c cc no_lost_bytes)
  moreover have "\<exists>c'. cc_cache cc' = Some c' \<and>
      lru_items ops c' = insert_spec cap mx 0 (mk_key p z t) d (AList.delete (mk_key p z t) items) \<and> lru_cap ops c' = cap"
    using insert_result [OF inv c(1) assms(2) refl refl refl, of p z t] ins by (auto simp: c cc)
  ultimately show ?thesis
    using ins k cc by (auto simp: cache_holds_def cache_keeps_def)
qed

lemma holds_get:
  assumes "cache_holds ops cap mx items cc" and "cache_get ops p z t cc = (r, cc')"
  shows "r = map_option ce_data (map_of items (mk_key p z t)) \<and>
    cache_holds ops cap mx (case map_of items (mk_key p z t) of
       None \<Rightarrow> items | Some e \<Rightarrow> (mk_key p z t, e) # AList.delete (mk_key p z t) items) cc'"
proof -
  obtain c where c: "cc_cache cc = Some c" "lru_items ops c = items" "lru_cap ops c = cap"
    and inv: "cache_inv ops cc" and cc: "cache_leak ops cc = 0" "unat (cc_max_size cc) = mx"
    using assms(1) by (auto simp: cache_holds_def)
  obtain e c' where g: "lru_get ops c (mk_key p z t) = (e, c')" by (cases "lru_get ops c (mk_key p z t)")
  have cc': "r = map_option ce_data e" "cc' = cc\<lparr>cc_cache := Some c'\<rparr>"
    using assms(2) by (auto simp: cache_get_def c g)
  show ?thesis
    using get_law [OF _ g] inv_SomeD [OF inv c(1)] get_result(2,4) [OF inv assms(2)] c cc
    by (auto simp: cache_holds_def cc')
qed

text \<open>What passes on the reference passes on the cache.\<close>

lemma passes_by_spec:
  "cache_holds ops cap mx items cc \<Longrightarrow> passes_spec cap mx steps items \<Longrightarrow> passes ops steps cc"
proof (induction steps arbitrary: items cc)
  case (Cons s steps)
  show ?case
  proof (cases s)
    case (Ins p z t d)
    with Cons.prems(2) holds_insert [OF Cons.prems(1), of d p z t]
    obtain cc' where "cache_insert ops p z t d cc = Some cc'"
      "cache_holds ops cap mx (insert_spec cap mx 0 (mk_key p z t) d (AList.delete (mk_key p z t) items)) cc'"
      by (auto simp: Let_def)
    with Ins Cons.prems(2) Cons.IH show ?thesis by (simp add: Let_def)
  next
    case (Got p z t a)
    obtain r cc' where g: "cache_get ops p z t cc = (r, cc')" by (cases "cache_get ops p z t cc")
    note h = holds_get [OF Cons.prems(1) g]
    have "passes ops steps cc'"
      by (rule Cons.IH [OF h [THEN conjunct2]]) (use Got Cons.prems(2) in \<open>simp add: Let_def\<close>)
    with Got Cons.prems(2) g h show ?thesis by (simp add: Let_def)
  next
    case (Len n)
    have "cache_len ops cc = of_nat (length items)"
      using Cons.prems(1) len_law by (auto simp: cache_holds_def cache_len_def cache_inv_def)
    with Len Cons show ?thesis by simp
  next
    case (Size n)
    have "unat (cc_current_size cc) = bytes_of items"
      using Cons.prems(1) by (auto simp: cache_holds_def cache_leak_def cache_items_def cache_inv_def)
    moreover have "cache_current_size cc = of_nat (unat (cc_current_size cc))" by (simp add: cache_current_size_def)
    ultimately have "cache_current_size cc = of_nat (bytes_of items)" by simp
    with Size Cons show ?thesis by simp
  qed
qed simp

lemma passes_new:
  assumes "passes_spec (unat (max (n * 4) 100)) (unat n * 2 ^ 20) steps []" and "mb_ok n" and "n \<noteq> 0"
  shows "passes ops steps (cache_new ops n)"
  by (rule passes_by_spec [OF holds_new [OF assms(2,3)] assms(1)])

end

lemma mk_key_eq [simp]: "mk_key p z t = mk_key p' z' t' \<longleftrightarrow> p = p' \<and> z = z' \<and> t = t'"
  by (simp add: mk_key_def)

lemma entry_simps [simp]:
  "ce_data (CacheEntry_new d) = d"
  "length d \<le> unat MAX_FILE_SIZE \<Longrightarrow> unat (ce_size (CacheEntry_new d)) = length d"
  using unat_length(1) [of d] by (simp_all add: CacheEntry_new_def Let_def)

text \<open>An insertion for which there is room, and one that keeps a part of the entries.\<close>

lemma insert_spec_kept:
  "fit_prefix (mx - length d) items = kept \<Longrightarrow> length d \<le> mx \<Longrightarrow> length kept < cap \<Longrightarrow>
   insert_spec cap mx 0 k d items = (k, CacheEntry_new d) # kept"
  by (simp add: insert_spec_def Let_def)

lemma insert_spec_fits:
  "bytes_of items + length d \<le> mx \<Longrightarrow> length items < cap \<Longrightarrow>
   insert_spec cap mx 0 k d items = (k, CacheEntry_new d) # items"
  by (rule insert_spec_kept) (simp_all add: fit_prefix_all)

lemma insert_spec_evicts:
  "bytes_of [x] + length d \<le> mx \<Longrightarrow> mx < bytes_of [x, y] + length d \<Longrightarrow> 1 < cap \<Longrightarrow>
   insert_spec cap mx 0 k d [x, y] = [(k, CacheEntry_new d), x]"
  by (rule insert_spec_kept) (auto simp: Let_def)

text \<open>Every unit test of the cache passes, whatever LRU cache that meets its contract is used and at
  whatever time the tests run: hits and misses by modification time and by encoding, replacing an
  entry, evicting the least recently used one for room, refusing files that are too large, and a disabled
  cache.\<close>

lemma cache_tests_pass:
  assumes "lru_cache ops"
  shows "test_cache_operations ops now \<and> test_modified_time_invalidation ops now \<and> test_lru_eviction ops now \<and>
    test_update_existing ops now \<and> test_max_file_size ops now \<and> test_access_updates_lru ops now \<and>
    test_cache_disabled ops now \<and> test_different_compressions_same_file ops now"
proof -
  note pass = lru_cache.passes_new [OF assms]
  note run = insert_spec_fits insert_spec_evicts Let_def MAX_FILE_SIZE_val mb_ok_def
  have 1: "test_cache_operations ops now"
    unfolding test_cache_operations_def by (rule pass) (simp_all add: run)
  have 2: "test_modified_time_invalidation ops now"
    unfolding test_modified_time_invalidation_def Let_def by (rule pass) (simp_all add: run)
  have 3: "test_update_existing ops now"
    unfolding test_update_existing_def by (rule pass) (simp_all add: run)
  have 4: "test_different_compressions_same_file ops now"
    unfolding test_different_compressions_same_file_def by (rule pass) (simp_all add: run)
  have 5: "passes ops
       [Ins ''file1'' ''br'' now d, Ins ''file2'' ''br'' now d, Got ''file1'' ''br'' now is_some,
        Got ''file2'' ''br'' now is_some, Got ''file1'' ''br'' now (\<lambda>r. True), Ins ''file3'' ''br'' now d,
        Got ''file1'' ''br'' now is_some, Got ''file2'' ''br'' now is_none, Got ''file3'' ''br'' now is_some]
       (cache_new ops 1)" if "length d = 500000" for d
    by (rule pass, (subst passes_spec.simps, simp add: run that del: passes_spec.simps)+) (simp_all add: mb_ok_def)
  have 6: "passes ops
       [Ins ''a'' ''br'' now d, Ins ''b'' ''br'' now d, Got ''a'' ''br'' now (\<lambda>r. True), Ins ''c'' ''br'' now d,
        Got ''a'' ''br'' now is_some, Got ''b'' ''br'' now is_none, Got ''c'' ''br'' now is_some]
       (cache_new ops 1)" if "length d = 400000" for d
    by (rule pass, (subst passes_spec.simps, simp add: run that del: passes_spec.simps)+) (simp_all add: mb_ok_def)
  have 7: "test_max_file_size ops now"
  proof -
    let ?n = "DEFAULT_FILE_SIZE_MB * 2" and ?d = "replicate (unat (MAX_FILE_SIZE + 1)) 0 :: bytes"
    have len: "length ?d = 12582913"
      by (simp add: MAX_FILE_SIZE_def DEFAULT_FILE_SIZE_MB_def MB_def)
    then have "cache_insert ops p z t ?d cc = Some cc" for p z t cc
      by (intro lru_cache.insert_skipped [OF assms]) (simp_all add: vec_ok_def MAX_FILE_SIZE_val)
    moreover have "passes ops [Got ''huge'' ''br'' now is_none, Len 0] (cache_new ops ?n)"
      by (rule pass) (simp_all add: run DEFAULT_FILE_SIZE_MB_def)
    ultimately show ?thesis unfolding test_max_file_size_def Let_def passes.simps(2) by simp
  qed
  have 8: "test_cache_disabled ops now"
    by (simp add: test_cache_disabled_def cache_new_def cache_insert_def cache_get_def cache_len_def
        cache_current_size_def)
  have "test_lru_eviction ops now" "test_access_updates_lru ops now"
    unfolding test_lru_eviction_def test_access_updates_lru_def Let_def by (rule 5 6; simp only: length_replicate)+
  then show ?thesis using 1 2 3 4 7 8 by blast
qed

section \<open>Tests of the forwarded addresses\<close>

text \<open>The headers of a test; a value that is not one panics. The addresses of the tests are written as
  they print (\<^verbatim>\<open>test_addresses\<close>).\<close>

fun headers :: "'h header_ops \<Rightarrow> string list \<Rightarrow> 'h \<Rightarrow> 'h option" where
  "headers ops [] h = Some h"
| "headers ops (v # values) h =
     (case hv_from_str ops v of None \<Rightarrow> None | Some w \<Rightarrow> headers ops values (hdr_append ops X_FORWARDED_FOR w h))"

definition with_headers :: "'h header_ops \<Rightarrow> string list \<Rightarrow> ('h \<Rightarrow> bool) \<Rightarrow> bool" where
  "with_headers ops values test = (case headers ops values (hdr_new ops) of None \<Rightarrow> False | Some h \<Rightarrow> test h)"

definition adds_the_client_address :: "'h header_ops \<Rightarrow> bool" where
  "adds_the_client_address ops =
     with_headers ops [] (\<lambda>h. forwarded_for ops h (Some (V4 (Ipv4 81 2 3 4))) = Some ''81.2.3.4'')"

definition appends_after_incoming_entries :: "'h header_ops \<Rightarrow> bool" where
  "appends_after_incoming_entries ops =
     with_headers ops [''10.0.0.1'', ''192.0.2.7, 198.51.100.2'']
       (\<lambda>h. forwarded_for ops h (Some (V6 (Ipv6 0x2001 0xdb8 0 0 0 0 0 1))) =
              Some ''10.0.0.1, 192.0.2.7, 198.51.100.2, 2001:db8::1'')"

definition without_a_client_address :: "'h header_ops \<Rightarrow> bool" where
  "without_a_client_address ops \<longleftrightarrow>
     with_headers ops [''192.0.2.7''] (\<lambda>h. forwarded_for ops h None = Some ''192.0.2.7'') \<and>
     with_headers ops [] (\<lambda>h. forwarded_for ops h None = None)"

definition carries_one_merged_header :: "'h header_ops \<Rightarrow> bool" where
  "carries_one_merged_header ops =
     with_headers ops [''10.0.0.1'', ''192.0.2.7'']
       (\<lambda>h. hdr_get_all ops (with_forwarded_for ops h (Some (V4 (Ipv4 81 2 3 4)))) X_FORWARDED_FOR =
              [''10.0.0.1, 192.0.2.7, 81.2.3.4''])"

definition ipv4_clients_are_plain_ipv4 :: bool where
  "ipv4_clients_are_plain_ipv4 \<longleftrightarrow>
     ip_string (to_canonical (V6 (Ipv6 0 0 0 0 0 0xffff 0x5102 0x0304))) = ''81.2.3.4''"

lemma mapped_addresses:
  "to_ipv4_mapped (Ipv6 0 0 0 0 0 0xffff 0x5102 0x0304) = Some (Ipv4 81 2 3 4)"
  "to_ipv4_mapped (Ipv6 0 0 0 0 0 0xffff 0x7f00 0x0001) = Some (Ipv4 127 0 0 1)"
  by (simp_all add: hi_byte_def lo_byte_def)

lemma test_addresses:
  "ip_string (V4 (Ipv4 81 2 3 4)) = ''81.2.3.4''" "ip_string (V4 (Ipv4 127 0 0 1)) = ''127.0.0.1''"
  "ip_string (V6 (Ipv6 0x2001 0xdb8 0 0 0 0 0 1)) = ''2001:db8::1''"
  "ip_string (V6 (Ipv6 0 0 0 0 0 0xffff 0x5102 0x0304)) = ''::ffff:81.2.3.4''"
  by (simp_all add: ipv6_string_def hi_byte_def lo_byte_def fmt_subslice_def radix_string.simps digit_char_def
      char_of_def bit_Suc_0_iff)

context header_map
begin

lemma headers_text:
  "list_all (list_all value_char) vs \<Longrightarrow>
   \<exists>h'. headers ops vs h = Some h' \<and>
     hdr_get_all ops h' X_FORWARDED_FOR = hdr_get_all ops h X_FORWARDED_FOR @ vs"
proof (induction vs arbitrary: h)
  case (Cons v vs)
  then show ?case using from_str_text get_append by fastforce
qed simp

lemma with_headers_text:
  assumes "list_all (list_all value_char) vs"
    and "\<And>h. hdr_get_all ops h X_FORWARDED_FOR = vs \<Longrightarrow> test h"
  shows "with_headers ops vs test"
  using headers_text [OF assms(1), of "hdr_new ops"] assms(2) by (auto simp: with_headers_def get_new)

lemma prior_entries_text:
  assumes "hdr_get_all ops h X_FORWARDED_FOR = vs" and "list_all (list_all value_char) vs"
  shows "prior_entries ops h = filter (\<lambda>v. v \<noteq> []) (map str_trim vs)"
proof -
  have "List.map_filter (hv_to_str ops) vs = vs"
    using assms(2) by (induction vs) (simp_all add: to_str_iff)
  then show ?thesis by (simp add: prior_entries_def assms(1))
qed

end

text \<open>The tests of the forwarded addresses pass for every header map.\<close>

lemma forwarded_tests_pass:
  assumes "header_map ops"
  shows "adds_the_client_address ops \<and> appends_after_incoming_entries ops \<and> without_a_client_address ops \<and>
    carries_one_merged_header ops \<and> ipv4_clients_are_plain_ipv4"
proof -
  note wh = header_map.with_headers_text [OF assms]
  note prior = header_map.prior_entries_text [OF assms]
  have vis: "list_all (list_all value_char) [''10.0.0.1'', ''192.0.2.7, 198.51.100.2'', ''192.0.2.7'']"
    and trim: "str_trim ''10.0.0.1'' = ''10.0.0.1''" "str_trim ''192.0.2.7, 198.51.100.2'' = ''192.0.2.7, 198.51.100.2''"
      "str_trim ''192.0.2.7'' = ''192.0.2.7''"
    by code_simp+
  have 1: "adds_the_client_address ops"
    unfolding adds_the_client_address_def
    by (rule wh) (simp_all add: forwarded_for_def prior test_addresses Let_def del: ip_string.simps)
  have 2: "appends_after_incoming_entries ops"
    unfolding appends_after_incoming_entries_def
    by (rule wh) (use vis in \<open>simp_all add: forwarded_for_def prior test_addresses trim Let_def del: ip_string.simps\<close>)
  have 3: "without_a_client_address ops"
    unfolding without_a_client_address_def
    by (intro conjI wh) (use vis in \<open>simp_all add: forwarded_for_def prior trim Let_def\<close>)
  have 4: "carries_one_merged_header ops"
    unfolding carries_one_merged_header_def
    by (rule wh) (use vis in \<open>simp_all add: header_map.get_with_forwarded_for [OF assms] forwarded_for_def prior
        test_addresses trim Let_def del: ip_string.simps\<close>)
  have "ipv4_clients_are_plain_ipv4"
    by (simp add: ipv4_clients_are_plain_ipv4_def ipv6_to_canonical_def mapped_addresses test_addresses
        del: ip_string.simps to_ipv4_mapped.simps)
  with 1 2 3 4 show ?thesis by blast
qed

section \<open>The test of the accept path\<close>

text \<open>The upstream of the test answers with the \<^verbatim>\<open>X-Forwarded-For\<close> headers it received.\<close>

definition echo_upstream :: "'h header_ops \<Rightarrow> ('h, 'u) up_request \<Rightarrow> (string + 'h up_response) option" where
  "echo_upstream ops q =
     (let xff = map str_trim (hdr_get_all ops (uq_headers q) X_FORWARDED_FOR);
          body = ascii_bytes (str_join ''|'' xff)
      in Some (Inr \<lparr>us_status = 200,
                    us_headers = hdr_append ops ''connection'' ''close''
                      (hdr_append ops ''content-length'' (dec_string (length body)) (hdr_new ops)),
                    us_body = Some (Inr body)\<rparr>))"

text \<open>
  The client's request with its forged entry, the policy with a cap of four and no rate limit, the accept loop
  with a semaphore of four permits, and one proxy rule. \<^verbatim>\<open>stream\<close> is the client's connection as the listener
  accepts it; the test fails when the connection is refused or not served, or when the request is not answered.
\<close>

definition test_request :: "'h header_ops \<Rightarrow> socket_addr option \<Rightarrow> 'h request" where
  "test_request ops client =
     \<lparr>rq_path = ''keeper/verify'', rq_query = None, rq_method = ''GET'',
      rq_headers = hdr_append ops ''connection'' ''close''
        (hdr_append ops X_FORWARDED_FOR ''6.6.6.6'' (hdr_append ops ''host'' ''x'' (hdr_new ops))),
      rq_client = client, rq_body = Some []\<rparr>"

definition a_proxied_request_reaches_the_upstream ::
  "('h, 'u) proxy_env \<Rightarrow> 's sem_ops \<Rightarrow> (nat \<Rightarrow> 's) \<Rightarrow> string \<Rightarrow> tcp_stream \<Rightarrow> bool" where
  "a_proxied_request_reaches_the_upstream penv sem new_sem upstream_addr stream =
     (let permitted = snd (enforce_ip_policy no_rate \<lparr>po_limiter = limiter_new 4, po_rate = None\<rparr>
                             (Inr stream :: string + tcp_stream));
          routes = create_proxy_routes (penv\<lparr>pe_send := echo_upstream (pe_hdr penv)\<rparr>)
                     [(''keeper'', ''http://'' @ upstream_addr)]
      in case (permitted, routes) of
           (Some item, Some f) \<Rightarrow>
             (case al_tasks (foldl (serve_tls sem) (accept_init (new_sem 4)) [Incoming (Some item), PollPermit]) of
                [task] \<Rightarrow>
                  (case f (test_request (pe_hdr penv) (ct_client task)) of
                     Some (rq', Inr resp) \<Rightarrow> rp_status resp = 200 \<and> rp_body resp = ascii_bytes ''6.6.6.6, 127.0.0.1''
                   | _ \<Rightarrow> False)
              | _ \<Rightarrow> False)
         | _ \<Rightarrow> False)"

text \<open>The connection of the test's client: from the loopback address, as the dual-stack listener shows it, or
  plain where the host has no IPv6.\<close>

definition from_loopback :: "tcp_stream \<Rightarrow> bool" where
  "from_loopback stream \<longleftrightarrow>
     (case ts_peer stream of
        None \<Rightarrow> False
      | Some a \<Rightarrow> sa_ip a \<in> {V4 (Ipv4 127 0 0 1), V6 (Ipv6 0 0 0 0 0 0xffff 0x7f00 0x0001)})"

lemma first_admitted:
  "snd (enforce_ip_policy no_rate \<lparr>po_limiter = limiter_new 4, po_rate = None\<rparr> (Inr stream :: 'e + tcp_stream)) =
     Some (Inr (admitted_as stream))"
proof -
  have ok: "limiter_ok (limiter_new 4)" by (rule limiter_ok_new) simp
  have "snd (try_acquire (limiter_new 4) (stream_key stream))"
    using ok by (cases rule: try_acquire_cases [of "limiter_new 4" "stream_key stream"])
       (simp_all add: limiter_new_def hm_get_def)
  then obtain l where "try_acquire (limiter_new 4) (stream_key stream) = (l, True)"
    by (cases "try_acquire (limiter_new 4) (stream_key stream)") simp
  then show ?thesis
    by (subst enforce_conforming [where g = True]) (simp_all add: conforms_def)
qed

lemma loopback_client:
  assumes "from_loopback stream"
  shows "map_option sa_ip (ct_client (tls_task (admitted_as stream))) = Some (V4 (Ipv4 127 0 0 1))"
  using assms mapped_addresses
  by (auto simp: from_loopback_def tls_task_def admitted_as_def peer_socket_addr_def ipv6_to_canonical_def
      simp del: to_ipv4_mapped.simps split: option.splits)

text \<open>The test passes on every host: whatever header map and path filter the libraries
  provide, as long as the upstream's URI parses and the request can be built.\<close>

lemma accept_path_test_passes:
  assumes ops: "header_map (pe_hdr penv)" and "warp_paths (pe_path penv)"
    and uri: "pe_parse penv (''http://'' @ addr @ ''/verify'') = Inr uri" and build: "\<forall>q. pe_build penv q = None"
    and sem: "sem_contract sem held cap ok" "ok (new_sem 4)" "held (new_sem 4) () = 0" "cap (new_sem 4) = 4"
    and "from_loopback stream"
  shows "a_proxied_request_reaches_the_upstream penv sem new_sem addr stream"
proof -
  let ?env = "penv\<lparr>pe_send := echo_upstream (pe_hdr penv)\<rparr>" and ?ps = "admitted_as stream"
  let ?rq = "test_request (pe_hdr penv) (ct_client (tls_task ?ps))"
  let ?st = "(accept_init (new_sem 4))\<lparr>al_waiting := Some ?ps\<rparr>"
  have "sem_accounts held cap ok 4 ?st" using sem by (simp add: sem_accounts_def accept_init_def)
  from poll_permit_grants [OF sem(1) this, of ?ps tls_task]
  have task: "al_tasks (poll_permit tls_task sem ?st) = [tls_task ?ps]" by (simp add: accept_init_def)
  have "prefix_segments ''keeper'' = [''keeper'']" by code_simp
  then have pre: "prefix_filter (pe_path ?env) (fst (''keeper'', ''http://'' @ addr)) (rq_path ?rq) = Some ''verify''"
    using warp_paths.prefix_filter_iff_segments [OF assms(2), of "''keeper''" "''keeper/verify''" "''verify''"]
    by (simp add: test_request_def)
  have body: "rq_body ?rq = Some []" and q: "rq_query ?rq = None" by (simp_all add: test_request_def)
  have xff: "hdr_get_all (pe_hdr penv) (rq_headers ?rq) X_FORWARDED_FOR = [''6.6.6.6'']"
    using header_map.get_append [OF ops] header_map.get_new [OF ops] by (simp add: test_request_def X_FORWARDED_FOR_def)
  have t: "list_all (list_all value_char) [''6.6.6.6'']" "str_trim ''6.6.6.6'' = ''6.6.6.6''"
    "str_trim ''6.6.6.6, 127.0.0.1'' = ''6.6.6.6, 127.0.0.1''" by code_simp+
  have "forwarded_for (pe_hdr penv) (rq_headers ?rq) (Some (V4 (Ipv4 127 0 0 1))) = Some ''6.6.6.6, 127.0.0.1''"
    using header_map.prior_entries_text [OF ops xff t(1)] t(2)
    by (simp add: forwarded_for_def test_addresses Let_def del: ip_string.simps)
  then have sent: "hdr_get_all (pe_hdr penv) (request_headers (pe_hdr penv) (with_forwarded_for (pe_hdr penv) (rq_headers ?rq)
      (Some (V4 (Ipv4 127 0 0 1))))) X_FORWARDED_FOR = [''6.6.6.6, 127.0.0.1'']"
    unfolding header_map.get_request_headers [OF ops] header_map.get_with_forwarded_for [OF ops]
    by (simp add: X_FORWARDED_FOR_def)
  have client: "map_option sa_ip (rq_client ?rq) = Some (V4 (Ipv4 127 0 0 1))"
    using loopback_client [OF assms(9)] by (simp add: test_request_def)
  have "\<exists>r. forwarded_by ?env (''http://'' @ addr) ''verify'' [] ?rq = Some (Inr r) \<and> rp_status r = 200 \<and>
      rp_body r = ascii_bytes ''6.6.6.6, 127.0.0.1''"
    unfolding forwarded_by_def forward_def client
    using uri build sent t(3) q by (simp add: forward_url_def echo_upstream_def Let_def)
  then show ?thesis
    using task proxy_route_matched [OF pre body]
    by (auto simp: first_admitted a_proxied_request_reaches_the_upstream_def create_proxy_routes_Cons accept_init_def serve_tls_next_def
        Let_def split: sum.splits)
qed

text \<open>Every test of the repository passes, not only with the libraries it is linked to and at the time it runs.
  The unit tests of the cache pass for every LRU cache that meets its contract and at every time: hits and misses by
  modification time and encoding, replacing an entry, evicting the least recently used one, refusing files that are too
  large, a disabled cache. The tests of the forwarded addresses pass for every header map. And the request of the last test
  goes through the policy, the accept loop and the proxy rule to the upstream, which sees the client's canonical address after the
  entry that the client forged, on every host where the upstream's URI parses and the request can be built.\<close>

theorem repository_tests_pass:
  assumes "lru_cache ops" and "header_map (pe_hdr penv)" and "warp_paths (pe_path penv)"
    and "pe_parse penv (''http://'' @ addr @ ''/verify'') = Inr uri" and "\<forall>q. pe_build penv q = None"
    and "sem_contract sem held cap ok" and "ok (new_sem 4)" and "held (new_sem 4) () = 0" and "cap (new_sem 4) = 4"
    and "from_loopback stream"
  shows "test_cache_operations ops now \<and> test_modified_time_invalidation ops now \<and> test_lru_eviction ops now \<and>
    test_update_existing ops now \<and> test_max_file_size ops now \<and> test_access_updates_lru ops now \<and>
    test_cache_disabled ops now \<and> test_different_compressions_same_file ops now \<and>
    adds_the_client_address (pe_hdr penv) \<and> appends_after_incoming_entries (pe_hdr penv) \<and>
    without_a_client_address (pe_hdr penv) \<and> carries_one_merged_header (pe_hdr penv) \<and> ipv4_clients_are_plain_ipv4 \<and>
    a_proxied_request_reaches_the_upstream penv sem new_sem addr stream"
  using cache_tests_pass [OF assms(1), of now] forwarded_tests_pass [OF assms(2)]
    accept_path_test_passes [OF assms(2-6), where new_sem = new_sem and stream = stream] assms(7-10) by blast

theorem repository_tests_pass_witness:
  "test_lru_eviction list_lru 1700000000000000000 \<and> carries_one_merged_header list_headers \<and>
   a_proxied_request_reaches_the_upstream demo_proxy count_sem (\<lambda>n. (0, n)) ''127.0.0.1:8080''
     \<lparr>ts_id = 1, ts_peer = Some \<lparr>sa_ip = V6 (Ipv6 0 0 0 0 0 0xffff 0x7f00 0x0001), sa_port = 40000\<rparr>\<rparr>"
proof -
  let ?s = "\<lparr>ts_id = 1, ts_peer = Some \<lparr>sa_ip = V6 (Ipv6 0 0 0 0 0 0xffff 0x7f00 0x0001), sa_port = 40000\<rparr>\<rparr>"
  have env: "pe_hdr demo_proxy = list_headers" "pe_path demo_proxy = warp_path"
    "pe_parse demo_proxy (''http://'' @ ''127.0.0.1:8080'' @ ''/verify'') = Inr (''http://'' @ ''127.0.0.1:8080'' @ ''/verify'')"
    "\<forall>q. pe_build demo_proxy q = None" by (simp_all add: demo_proxy_def)
  have "header_map (pe_hdr demo_proxy)" "warp_paths (pe_path demo_proxy)"
    unfolding env(1,2) by (rule lh.header_map_axioms, rule wp.warp_paths_axioms)
  moreover have "from_loopback ?s" by (simp add: from_loopback_def)
  ultimately show ?thesis
    using repository_tests_pass [OF ll.lru_cache_axioms _ _ env(3,4) count_sem_contract, where new_sem = "\<lambda>n. (0, n)" and
        stream = ?s and now = 1700000000000000000]
    unfolding env(1) by simp
qed

end
