(* ===== verification/Spec2Isabelle.thy ===== *)
theory Spec2Isabelle
  imports Tls_Serve Mles_Tests
begin

text \<open>
  A verification development for the Mles server (\<^verbatim>\<open>src/src\<close>): a publish-subscribe service over
  WebSockets on TLS, with a static web server, a reverse proxy and a redirect from port 80.

  \<^bold>\<open>The program and its models.\<close> A TCP connection is accepted under a per-source policy, waits for
  a permit of its port's semaphore, and its requests are tried against the WebSocket handler, the
  proxy rules and the file routes, in this order. A WebSocket connection runs three tasks that
  talk to one event loop through a bounded channel; the loop keeps sessions and message histories
  by channel and writes to a bounded queue per connection.

  \<^item> \<^verbatim>\<open>Mles_Prelude\<close>: machine integers, hash maps (an association list with a locale for their laws),
    ends of lists. \<^verbatim>\<open>Rust_Str\<close>, \<^verbatim>\<open>Rust_Net\<close>: what the code uses of \<^verbatim>\<open>str\<close>, number parsing and
    printing, and of IP addresses.
  \<^item> \<^verbatim>\<open>Mles_Auth\<close>: the header of a first frame (\<^verbatim>\<open>types.rs\<close>), \<^verbatim>\<open>verify_auth\<close> (\<^verbatim>\<open>auth.rs\<close>), the session and
    channel hashes (\<^verbatim>\<open>websocket.rs\<close>). SipHash is a parameter under the locale \<^verbatim>\<open>sip_hasher\<close>, and
    SipHash-2-4 is written out as its interpretation.
  \<^item> \<^verbatim>\<open>Mles_Cache\<close>: the compression cache (\<^verbatim>\<open>cache.rs\<close>), with 64-bit sizes that wrap. The LRU list of the
    \<^verbatim>\<open>lru\<close> crate is a parameter under the locale \<^verbatim>\<open>lru_cache\<close>. The eviction loop is a
    \<^verbatim>\<open>partial_function\<close>; that it ends is proved.
  \<^item> \<^verbatim>\<open>Event_Loop\<close>: \<^verbatim>\<open>add_message\<close> and \<^verbatim>\<open>spawn_event_loop\<close> (\<^verbatim>\<open>websocket.rs\<close>), one definition for each branch,
    and the abstract hub that the loop refines.
  \<^item> \<^verbatim>\<open>Ws_Conn\<close>, \<^verbatim>\<open>Ws_Session\<close>: one connection (\<^verbatim>\<open>create_ws_handler\<close>): its state, a step for each stretch
    between two \<^verbatim>\<open>await\<close>s of its receiver, ping and sender task, and what all interleavings have in
    common.
  \<^item> \<^verbatim>\<open>Ws_System\<close>, \<^verbatim>\<open>Ws_Liveness\<close>: any number of connections, the event channel and the event loop
    together.
  \<^item> \<^verbatim>\<open>Ip_Policy\<close>: client addresses, the per-source limiter and its permits, \<^verbatim>\<open>enforce_ip_policy\<close>, and the
    accept loops \<^verbatim>\<open>serve_http\<close> and \<^verbatim>\<open>serve_tls\<close> (\<^verbatim>\<open>server.rs\<close>). The limiter and the semaphore both meet
    the locale \<^verbatim>\<open>permit_pool\<close>. \<^verbatim>\<open>Stream_Layers\<close>: the accepted stream with its permit as a stream, and the
    client's address through the layers of TLS.
  \<^item> \<^verbatim>\<open>Front_Door\<close>: both ports together: the common rate limiter and its sweep (locale \<^verbatim>\<open>keyed_limiter\<close>, with
    the published GCRA as its interpretation), a cap for each port, and TLS connections that become
    WebSockets and hold their permit until the stream is dropped (\<^verbatim>\<open>lib.rs\<close>, \<^verbatim>\<open>server.rs\<close>).
  \<^item> \<^verbatim>\<open>Http_Headers\<close>: the header map, a parameter under the locale \<^verbatim>\<open>header_map\<close>. \<^verbatim>\<open>Proxy\<close>: the reverse
    proxy (\<^verbatim>\<open>proxy.rs\<close>). \<^verbatim>\<open>Http_Reply\<close>, \<^verbatim>\<open>Http_Site\<close>: file replies, redirects and their routes
    (\<^verbatim>\<open>http.rs\<close>, \<^verbatim>\<open>compression.rs\<close>). \<^verbatim>\<open>Http_Concurrent\<close>: \<^verbatim>\<open>dyn_reply\<close> cut at its \<^verbatim>\<open>await\<close>s, for any number
    of requests that interleave on one cache while the files change between any two of their operations.
  \<^item> \<^verbatim>\<open>Server_Run\<close>: the running server, the ports, the WebSocket service and the file requests in one state.
  \<^item> \<^verbatim>\<open>Mles_Server\<close>: the command line with its defaults and ranges (\<^verbatim>\<open>main.rs\<close>), the configuration, the listeners and
    the state that \<^verbatim>\<open>run\<close> builds, and the combined routes of the TLS port (\<^verbatim>\<open>lib.rs\<close>, \<^verbatim>\<open>server.rs\<close>).
  \<^item> \<^verbatim>\<open>Tls_Serve\<close>: the TLS port over the running server: \<^verbatim>\<open>serve_tls\<close> with its semaphore, and each connection
    from its handshake through its requests, which are cut into their steps, to its close or its upgrade
    (\<^verbatim>\<open>server.rs\<close>, \<^verbatim>\<open>lib.rs\<close>).
  \<^item> \<^verbatim>\<open>Mles_Tests\<close>: the tests of the repository (\<^verbatim>\<open>cache.rs\<close>, \<^verbatim>\<open>proxy.rs\<close>, \<^verbatim>\<open>server.rs\<close>), one definition for each.

  \<^bold>\<open>What is shown.\<close>

  \<^item> The composition (\<^verbatim>\<open>Server_Run\<close>, \<^verbatim>\<open>Mles_Server\<close>): one source never has more WebSockets, or messages waiting
    for them, than its cap allows. A run of the server is by its construction a run of each of its parts, and
    a command line whose cache size does not overflow starts it in a state with their invariants.
  \<^item> The TLS port (\<^verbatim>\<open>Tls_Serve\<close>): a request that is not interrupted gets what the combined routes say;
    connections in service and file requests in progress are bounded by \<^verbatim>\<open>filelimit\<close>, and WebSockets are not; few
    sources cannot keep another one waiting; an upstream that does not answer can hold the whole port.
  \<^item> The tests (\<^verbatim>\<open>Mles_Tests\<close>): they pass in the model, under the contracts of the libraries; they are a check of
    the definitions and no claim of their own.
  \<^item> The service end to end (\<^verbatim>\<open>Ws_System\<close>): from joining to leaving, a client is written the stored
    history and then what the others post, in order, without loss while its connection is open; what
    it posts reaches the loop complete and in order; only clients whose headers authenticate
    read or write a channel; and what a connection tells the loop is determined by the frames it got.
  \<^item> The event loop (\<^verbatim>\<open>Event_Loop\<close>): the invariant of its tables, the refinement of the hub,
    independence of channels, bounded histories, what the cleanup forgets.
  \<^item> Waiting and ending (\<^verbatim>\<open>Ws_Liveness\<close>, \<^verbatim>\<open>Ws_Session\<close>): the loop only ever waits for a full queue;
    a full queue together with a full event channel can stop it for good; a silent client gets at most
    four pings and is closed with the fourth; a closed connection ends after at most two more frames; a client that
    is lost before its first frame leaves its receiver task behind; a duplicate connection can
    log off the session it duplicates.
  \<^item> The cache (\<^verbatim>\<open>Mles_Cache\<close>): its bound over all sequences of operations, equality of insertion with a
    reference definition, lookup after insertion, the bytes it loses count of, and configured sizes that
    overflow.
  \<^item> Admission (\<^verbatim>\<open>Ip_Policy\<close>): the limiter counts exactly the open connections of a source, a stream
    is admitted exactly when rate and cap allow, the TLS loop serves at most \<^verbatim>\<open>filelimit\<close>
    connections at a time, the redirect loop ends at its first error. Over both ports (\<^verbatim>\<open>Front_Door\<close>):
    the sweep of the rate limiter changes no decision, the ports do not take each other's quota, and
    a source whose WebSockets were lost before their first frame as often as its cap allows is
    locked out for good.
  \<^item> The web server (\<^verbatim>\<open>Http_Concurrent\<close>, \<^verbatim>\<open>Http_Site\<close>) and the proxy: however requests interleave and
    whatever the file system answers, a reply comes after at most eight steps of its request and is traced to
    operations on the file system: to the request's own, and for a body from the cache to those of a request
    that had seen the same modification time. Contents can be newer than the time they are cached under, and a
    theorem shows where that goes wrong. Further: conditional requests, hardening headers, the choice of domain and rule, the client's
    address in \<^verbatim>\<open>X-Forwarded-For\<close> from the accepted socket to the upstream, and what happens when an
    upstream fails or stays silent.

  \<^bold>\<open>How the models are to be read.\<close> \<^verbatim>\<open>main\<close> uses the current-thread runtime, so a task runs
  undisturbed from one \<^verbatim>\<open>await\<close> to the next; these stretches are the steps. A turn of the event
  loop changes its tables in one step and then does its sends one by one: nobody else reads the
  tables, and the sends are what others see. The event channel is first in, first out, and holds
  \<^verbatim>\<open>TASK_BUF\<close> = 16 events; a queue holds \<^verbatim>\<open>WS_BUF\<close> = 128 items. When several writers wait for the
  channel, any of them may be next, except that a connection's own events keep their order. Times are
  integers, in nanoseconds. Panics and endless loops are the value \<^verbatim>\<open>None\<close>. There is no fuel: the
  recursive functions follow their data, and the loops that need not end are \<^verbatim>\<open>partial_function\<close>s or
  step relations over sequences of actions. A file request is cut at every \<^verbatim>\<open>await\<close>: the metadata, each lookup, opening,
  reading, each encoder, the insertion; eight steps are the longest way through it. Nothing is assumed of the file
  system there; that a modification time determines the contents is a hypothesis of the lemmas on
  the sequential \<^verbatim>\<open>dyn_reply\<close> that say so.

  Code from outside the repository is a parameter: SipHash, the LRU list, the header map, warp's
  path filter and message type, the JSON parser, URIs, MIME types, HTTP dates, the encoders, the
  HTTP client, the file system, sockets, the ACME builder, the governor's rate limiter, the
  semaphore. What is relied on is
  stated in locales or in hypotheses, each with an instance.

  A step of the TLS port is made of steps of the running server and of the accept loop, so its runs are runs of
  both. Forwarding a request is one step, which touches nothing that is shared and which happens only if the
  upstream answers or fails: the client is a partial function, and the code sets no time limit. Streams that are open at the same
  time have different identities, as descriptors have.

  \<^bold>\<open>Not modelled.\<close> Logging; how clap splits the command line and reads numbers; building the HTTP client;
  the certificates' orders and the TLS handshake, which rustls-acme does; what hyper does on a
  connection between its requests, but for closing it at any time; the end of the listener's stream, after which
  \<^verbatim>\<open>run\<close> panics. In the running server the accept loop of port 80 is only seen through its connections; the loop
  itself is in \<^verbatim>\<open>Ip_Policy\<close>. What is left of the source is imports, attributes, type aliases and log messages.
\<close>

end
